(* ===== verification/Prelude.thy ===== *)
theory Prelude
  imports Main "HOL-Library.Word"
begin

text \<open>
  What every component theory shares: the C types of the library, the faults a C
  execution can run into, the sequencing of computations that may fault, array and
  pointer accesses, and the word and list lemmas the component proofs rest on.

  The development fixes the platform of the repository's own build (the Dockerfile's
  gcc on a 64-bit host): \<open>size_t\<close> and object pointers have 64 bits, \<open>int\<close> has 32.
\<close>

unbundle bit_operations_syntax

section \<open>Types of the platform\<close>

type_synonym uint8_t = "8 word"
type_synonym uint16_t = "16 word"
type_synonym uint32_t = "32 word"
type_synonym uint64_t = "64 word"
type_synonym size_t = "64 word"

text \<open>
  An object pointer that the code only stores, compares with NULL and hands back is its
  address. A pointer the code dereferences is an option: None is NULL, and Some holds
  what it points to (the struct of an instance, the cells of an array).
\<close>

type_synonym ptr = "64 word"

abbreviation (input) NULL :: ptr where
  "NULL \<equiv> 0"

section \<open>Faults and sequencing\<close>

text \<open>
  A C function either comes back with its results or stops the program in one of these
  ways: an \<open>assert\<close> that fails, an access through NULL, an access outside an array, a
  signed operation whose result is not defined by the language, a loop that never ends.
\<close>

datatype fault =
    Assertion_failed
  | Null_dereference
  | Out_of_bounds
  | Signed_overflow
  | Nontermination

type_synonym 'a result = "fault + 'a"

fun r_bind :: "'a result \<Rightarrow> ('a \<Rightarrow> 'b result) \<Rightarrow> 'b result" where
  "r_bind (Inl f) k = Inl f"
| "r_bind (Inr x) k = k x"

text \<open>The outcome of a loop defined as a partial function: no result is a loop without end.\<close>

fun loop_result :: "'a result option \<Rightarrow> 'a result" where
  "loop_result None = Inl Nontermination"
| "loop_result (Some r) = r"

text \<open>\<open>assert(b)\<close>, \<open>assert(p)\<close> of a pointer the code then reads, and a plain access.\<close>

fun r_assert :: "bool \<Rightarrow> unit result" where
  "r_assert True = Inr ()"
| "r_assert False = Inl Assertion_failed"

fun assert_ptr :: "'a option \<Rightarrow> 'a result" where
  "assert_ptr None = Inl Assertion_failed"
| "assert_ptr (Some x) = Inr x"

fun deref :: "'a option \<Rightarrow> 'a result" where
  "deref None = Inl Null_dereference"
| "deref (Some x) = Inr x"

text \<open>\<open>a[i]\<close> and \<open>a[i] = v\<close> on an array that may be NULL and has the cells of the list.\<close>

definition arr_get :: "'a list option \<Rightarrow> size_t \<Rightarrow> 'a result" where
  "arr_get a i =
     r_bind (deref a) (\<lambda>xs.
       if unat i < length xs then Inr (xs ! unat i) else Inl Out_of_bounds)"

definition arr_set :: "'a list option \<Rightarrow> size_t \<Rightarrow> 'a \<Rightarrow> 'a list option result" where
  "arr_set a i v =
     r_bind (deref a) (\<lambda>xs.
       if unat i < length xs then Inr (Some (xs[unat i := v])) else Inl Out_of_bounds)"

text \<open>
  \<open>memcpy(&dst[d], &src[s], n)\<close> between two different arrays: every byte read and every
  byte written has to be inside its array.
\<close>

definition mem_copy ::
    "'a list option \<Rightarrow> size_t \<Rightarrow> 'a list option \<Rightarrow> size_t \<Rightarrow> size_t \<Rightarrow> 'a list option result" where
  "mem_copy dst d src s n =
     r_bind (deref dst) (\<lambda>xs.
     r_bind (deref src) (\<lambda>ys.
       if unat s + unat n \<le> length ys \<and> unat d + unat n \<le> length xs
       then Inr (Some (take (unat d) xs @ take (unat n) (drop (unat s) ys)
                        @ drop (unat d + unat n) xs))
       else Inl Out_of_bounds))"

section \<open>Collections of the development\<close>

named_theorems c_simps \<open>evaluation of accesses and assertions\<close>

section \<open>Generic lemmas\<close>

lemma r_bind_eq_Inr [simp]:
  "r_bind m k = Inr y \<longleftrightarrow> (\<exists>x. m = Inr x \<and> k x = Inr y)"
  by (cases m) auto

lemma r_bind_cong [fundef_cong]:
  "m = m' \<Longrightarrow> (\<And>x. m' = Inr x \<Longrightarrow> k x = k' x) \<Longrightarrow> r_bind m k = r_bind m' k'"
  by (cases m') auto

lemma r_bind_assoc:
  "r_bind (r_bind m k) h = r_bind m (\<lambda>x. r_bind (k x) h)"
  by (cases m) auto

lemma r_assert_eq_Inr [simp]: "r_assert b = Inr u \<longleftrightarrow> b"
  by (cases b) auto

lemma r_assert_True: "b \<Longrightarrow> r_assert b = Inr ()"
  by simp

lemma assert_ptr_eq_Inr [simp]: "assert_ptr p = Inr x \<longleftrightarrow> p = Some x"
  by (cases p) auto

lemma deref_eq_Inr [simp]: "deref p = Inr x \<longleftrightarrow> p = Some x"
  by (cases p) auto

lemma arr_get_in [c_simps]: "unat i < length xs \<Longrightarrow> arr_get (Some xs) i = Inr (xs ! unat i)"
  by (simp add: arr_get_def)

lemma arr_get_first [c_simps]: "xs \<noteq> [] \<Longrightarrow> arr_get (Some xs) 0 = Inr (xs ! 0)"
  by (simp add: arr_get_def)

lemma arr_get_out: "length xs \<le> unat i \<Longrightarrow> arr_get (Some xs) i = Inl Out_of_bounds"
  by (simp add: arr_get_def)

lemma arr_set_in [c_simps]:
  "unat i < length xs \<Longrightarrow> arr_set (Some xs) i v = Inr (Some (xs[unat i := v]))"
  by (simp add: arr_set_def)

lemma arr_set_out: "length xs \<le> unat i \<Longrightarrow> arr_set (Some xs) i v = Inl Out_of_bounds"
  by (simp add: arr_set_def)

subsection \<open>Sizes\<close>

lemma unat_size_lt [simp]: "unat (x :: size_t) < 18446744073709551616"
  using unsigned_less [of x] by simp

lemma unat_eq_size [simp]: "unat (x :: size_t) = unat y \<longleftrightarrow> x = y"
  by (rule word_unat_eq_iff [symmetric])

lemma unat_eq_0_size [simp]: "unat (x :: size_t) = 0 \<longleftrightarrow> x = 0"
  by (simp add: unat_eq_zero)

lemma unat_Suc_size: "unat (x :: size_t) < unat (y :: size_t) \<Longrightarrow> unat (x + 1) = Suc (unat x)"
  using unat_size_lt [of y] by (simp add: unat_word_ariths del: unat_size_lt)

lemma unat_pred_size: "(x :: size_t) \<noteq> 0 \<Longrightarrow> unat (x - 1) = unat x - 1"
  by (metis unat_minus_one)

lemma unat_sub_size: "unat (y :: size_t) \<le> unat x \<Longrightarrow> unat (x - y) = unat x - unat y"
  by (simp add: unat_sub word_le_nat_alt)

lemma unat_pos_size: "(x :: size_t) \<noteq> 0 \<longleftrightarrow> 0 < unat x"
  by (simp add: unat_gt_0)

lemma sub_size_eq_0: "(x - y :: size_t) = 0 \<longleftrightarrow> x = y"
  by simp

section \<open>Loops over an index\<close>

text \<open>
  \<open>for (size_t idx = 0; idx < n; ++idx) body(idx)\<close> with a fixed bound and a body without effect but
  its faults. The index stays below the bound, so it does not wrap and the loop ends.
\<close>

function for_each :: "size_t \<Rightarrow> size_t \<Rightarrow> (size_t \<Rightarrow> unit result) \<Rightarrow> unit result" where
  "for_each idx n body =
     (if idx < n then r_bind (body idx) (\<lambda>_. for_each (idx + 1) n body) else Inr ())"
  by pat_completeness auto
termination
proof (relation "measure (\<lambda>(idx, n, _). unat n - unat idx)")
  fix idx n :: size_t and body :: "size_t \<Rightarrow> unit result"
  assume "idx < n"
  then have "unat idx < unat n" by (simp add: word_less_nat_alt)
  then show "((idx + 1, n, body), idx, n, body) \<in> measure (\<lambda>(idx, n, _). unat n - unat idx)"
    using unat_Suc_size [of idx n] by simp
qed simp

declare for_each.simps [simp del]

lemma for_each_iff:
  "for_each idx n body = Inr () \<longleftrightarrow> (\<forall>i. idx \<le> i \<and> i < n \<longrightarrow> body i = Inr ())"
proof (induction idx n body rule: for_each.induct)
  case (1 idx n body)
  show ?case
  proof (cases "idx < n")
    case True
    have "idx \<le> i \<and> i < n \<longleftrightarrow> i = idx \<or> idx + 1 \<le> i \<and> i < n" for i
      using True unat_Suc_size [of idx n]
      by (auto simp: word_le_nat_alt word_less_nat_alt Suc_le_eq order_le_less)
    then show ?thesis using True "1.IH" by (auto simp: for_each.simps [of idx])
  next
    case False
    then show ?thesis by (auto simp: for_each.simps [of idx])
  qed
qed

end
