(* ===== verification/Error_Codes.thy ===== *)
theory Error_Codes
  imports Prelude
begin

text \<open>
  The result codes of \<open>include/cemb/error_codes.h\<close>. The enumeration is a datatype; its
  numeric values, which the C type \<open>ErrorCode_t\<close> (a \<open>uint32_t\<close>) carries, are given by
  \<open>error_code_value\<close>. Codes an application adds above the enumeration are never produced
  by this library.
\<close>

datatype ErrorCodes =
    ERR_NONE
  | ERR_GENERIC_ERROR
  | ERR_NOT_INITIALISED
  | ERR_INVALID_STATE
  | ERR_NO_MEM
  | ERR_INVALID_ARG
  | ERR_TIMEOUT
  | ERR_OUT_OF_BOUNDS
  | ERR_NULL_POINTER
  | ERR_NOOP
  | ERR_INCOMPLETE
  | ERR_EMPTY
  | ERR_NOT_FOUND
  | ERR_OVERRIDE
  | ERR_BUSY
  | ERR_NOT_IMPLEMENTED

fun error_code_value :: "ErrorCodes \<Rightarrow> uint32_t" where
  "error_code_value ERR_NONE = 0"
| "error_code_value ERR_GENERIC_ERROR = 1"
| "error_code_value ERR_NOT_INITIALISED = 2"
| "error_code_value ERR_INVALID_STATE = 3"
| "error_code_value ERR_NO_MEM = 4"
| "error_code_value ERR_INVALID_ARG = 5"
| "error_code_value ERR_TIMEOUT = 6"
| "error_code_value ERR_OUT_OF_BOUNDS = 7"
| "error_code_value ERR_NULL_POINTER = 8"
| "error_code_value ERR_NOOP = 9"
| "error_code_value ERR_INCOMPLETE = 10"
| "error_code_value ERR_EMPTY = 11"
| "error_code_value ERR_NOT_FOUND = 12"
| "error_code_value ERR_OVERRIDE = 13"
| "error_code_value ERR_BUSY = 14"
| "error_code_value ERR_NOT_IMPLEMENTED = 15"

section \<open>The order of the codes\<close>

text \<open>
  The comment of the enumeration: the codes take the bottom values, from 0, which is success, upwards without a
  gap, so that every value from 16 on is free for the codes of an application. The codes are ordered by
  their values.
\<close>

lemma error_code_value_inject [simp]: "error_code_value a = error_code_value b \<longleftrightarrow> a = b"
  by (cases a; cases b) simp_all

instantiation ErrorCodes :: "{linorder, order_bot}"
begin

definition less_eq_ErrorCodes :: "ErrorCodes \<Rightarrow> ErrorCodes \<Rightarrow> bool" where
  "less_eq_ErrorCodes a b \<longleftrightarrow> error_code_value a \<le> error_code_value b"

definition less_ErrorCodes :: "ErrorCodes \<Rightarrow> ErrorCodes \<Rightarrow> bool" where
  "less_ErrorCodes a b \<longleftrightarrow> error_code_value a < error_code_value b"

definition bot_ErrorCodes :: ErrorCodes where
  "bot_ErrorCodes = ERR_NONE"

instance
  by standard (auto simp: less_eq_ErrorCodes_def less_ErrorCodes_def bot_ErrorCodes_def dest: antisym)

end

lemma error_code_is_failure: "ERR_NONE < e \<longleftrightarrow> e \<noteq> ERR_NONE"
  using bot.not_eq_extremum [of e] by (simp add: bot_ErrorCodes_def eq_commute)

lemma error_code_below: "error_code_value e < 16"
  by (cases e) simp_all

lemma error_codes_without_gap: "v < 16 \<Longrightarrow> \<exists>e. error_code_value e = v"
proof -
  assume "v < 16"
  then have "v \<in> set (map word_of_nat [0..<16])"
    by (auto simp: word_less_nat_alt image_iff intro!: bexI [of _ "unat v"])
  also have "map word_of_nat [0..<16] = map error_code_value
      [ERR_NONE, ERR_GENERIC_ERROR, ERR_NOT_INITIALISED, ERR_INVALID_STATE, ERR_NO_MEM, ERR_INVALID_ARG,
       ERR_TIMEOUT, ERR_OUT_OF_BOUNDS, ERR_NULL_POINTER, ERR_NOOP, ERR_INCOMPLETE, ERR_EMPTY, ERR_NOT_FOUND,
       ERR_OVERRIDE, ERR_BUSY, ERR_NOT_IMPLEMENTED]"
    by (simp add: upt_rec)
  finally show ?thesis by (auto simp del: error_code_value.simps)
qed

end
