(* ===== verification/Ring_Spec.thy ===== *)
theory Ring_Spec
  imports Error_Codes
begin

text \<open>
  The contract the two byte buffers of the library share (\<open>include/cemb/circular_buffer.h\<close>,
  \<open>include/cemb/fast_circular_buffer.h\<close>): a first-in first-out queue of bounded capacity in
  which a push into a full buffer drops the oldest byte. The contract is the locale
  \<open>overwrite_ring\<close>; what a client can conclude from it is proved here once and reaches
  both buffers by interpretation.
\<close>

section \<open>The abstract queue\<close>

definition ring_push :: "nat \<Rightarrow> 'a list \<Rightarrow> 'a \<Rightarrow> 'a list" where
  "ring_push n q b = (if length q < n then q else tl q) @ [b]"

text \<open>The newest \<open>n\<close> elements of a list.\<close>

definition newest :: "nat \<Rightarrow> 'a list \<Rightarrow> 'a list" where
  "newest n xs = drop (length xs - n) xs"

text \<open>A session: bytes pushed and pops, with what each call returns.\<close>

datatype ring_op = Push uint8_t | Pop

datatype ring_reply = Pushed ErrorCodes | Popped ErrorCodes uint8_t

fun spec_session :: "nat \<Rightarrow> uint8_t list \<Rightarrow> ring_op list \<Rightarrow> ring_reply list" where
  "spec_session n q [] = []"
| "spec_session n q (Push b # ops) = Pushed ERR_NONE # spec_session n (ring_push n q b) ops"
| "spec_session n [] (Pop # ops) = Popped ERR_EMPTY 0 # spec_session n [] ops"
| "spec_session n (x # q) (Pop # ops) = Popped ERR_NONE x # spec_session n q ops"

text \<open>
  The same session run on an implementation; every pop is given a variable that holds 0.
\<close>

fun run_session ::
    "('s \<Rightarrow> uint8_t \<Rightarrow> (ErrorCodes \<times> 's) result)
     \<Rightarrow> ('s \<Rightarrow> uint8_t \<Rightarrow> (ErrorCodes \<times> 's \<times> uint8_t) result)
     \<Rightarrow> 's \<Rightarrow> ring_op list \<Rightarrow> ring_reply list result" where
  "run_session push pop s [] = Inr []"
| "run_session push pop s (Push b # ops) =
     r_bind (push s b) (\<lambda>(e, s').
     r_bind (run_session push pop s' ops) (\<lambda>rs. Inr (Pushed e # rs)))"
| "run_session push pop s (Pop # ops) =
     r_bind (pop s 0) (\<lambda>(e, s', x).
     r_bind (run_session push pop s' ops) (\<lambda>rs. Inr (Popped e x # rs)))"

text \<open>Pushing a whole list, and popping a given number of times.\<close>

fun push_all ::
    "('s \<Rightarrow> uint8_t \<Rightarrow> (ErrorCodes \<times> 's) result) \<Rightarrow> 's \<Rightarrow> uint8_t list \<Rightarrow> 's result" where
  "push_all push s [] = Inr s"
| "push_all push s (b # bs) = r_bind (push s b) (\<lambda>(_, s'). push_all push s' bs)"

text \<open>The bytes that the pops have returned in a list of replies.\<close>

fun popped_bytes :: "ring_reply list \<Rightarrow> uint8_t list" where
  "popped_bytes [] = []"
| "popped_bytes (Popped ERR_NONE x # rs) = x # popped_bytes rs"
| "popped_bytes (_ # rs) = popped_bytes rs"

lemma popped_bytes_append [simp]: "popped_bytes (rs @ rs') = popped_bytes rs @ popped_bytes rs'"
  by (induction rs rule: popped_bytes.induct) auto

text \<open>
  For calls that run at the same time: the two sides of a shared buffer, and the order in which the write
  and the read index of an expression are loaded, which C leaves open.
\<close>

datatype side = Producer | Consumer

datatype operand_order = Write_first | Read_first

section \<open>Lists in a ring of cells\<close>

text \<open>The \<open>c\<close> elements that start at cell \<open>r\<close> of the first \<open>n\<close> cells of an array.\<close>

definition ring_list :: "'a list \<Rightarrow> nat \<Rightarrow> nat \<Rightarrow> nat \<Rightarrow> 'a list" where
  "ring_list xs n r c = map (\<lambda>k. xs ! ((r + k) mod n)) [0..<c]"

lemma length_ring_list [simp]: "length (ring_list xs n r c) = c"
  by (simp add: ring_list_def)

lemma ring_list_0 [simp]: "ring_list xs n r 0 = []"
  by (simp add: ring_list_def)

lemma ring_list_eq_Nil [simp]: "ring_list xs n r c = [] \<longleftrightarrow> c = 0"
  by (simp add: ring_list_def)

lemma ring_list_cong:
  "r mod n = r' mod n \<Longrightarrow> ring_list xs n r c = ring_list xs n r' c"
  by (simp add: ring_list_def) (metis mod_add_left_eq)

lemma ring_list_Suc: "ring_list xs n r (Suc c) = xs ! (r mod n) # ring_list xs n (Suc r) c"
  by (simp add: ring_list_def map_upt_Suc del: upt_Suc)

lemma add_mod_neq:
  assumes "a < c" "c < (n::nat)"
  shows "(r + a) mod n \<noteq> (r + c) mod n"
proof
  assume "(r + a) mod n = (r + c) mod n"
  then have "n dvd (r + c) - (r + a)"
    using assms(1) by (metis mod_eq_dvd_iff_nat add_le_cancel_left less_imp_le)
  then show False
    using assms by (auto dest: dvd_imp_le)
qed

lemma ring_list_append:
  assumes "c < n" "n \<le> length xs"
  shows "ring_list (xs[(r + c) mod n := b]) n r (Suc c) = ring_list xs n r c @ [b]"
proof -
  have "(r + c) mod n < length xs"
    using assms mod_less_divisor [of n "r + c"] by linarith
  moreover have "xs[(r + c) mod n := b] ! ((r + k) mod n) = xs ! ((r + k) mod n)" if "k < c" for k
    using add_mod_neq [OF that assms(1), of r] by simp
  ultimately show ?thesis by (simp add: ring_list_def)
qed

lemma ring_list_overwrite:
  assumes "0 < n" "n \<le> length xs"
  shows "ring_list (xs[r mod n := b]) n (Suc r) n = tl (ring_list xs n r n) @ [b]"
proof -
  obtain m where n: "n = Suc m" using assms(1) by (cases n) auto
  have "(Suc r + m) mod n = r mod n"
    by (metis add_Suc add_Suc_right mod_add_self2 n)
  then have "ring_list (xs[r mod n := b]) n (Suc r) (Suc m) = ring_list xs n (Suc r) m @ [b]"
    using ring_list_append [of m n xs "Suc r" b] assms n by simp
  then show ?thesis by (simp add: ring_list_Suc n)
qed

lemma ring_push_newest:
  "length q \<le> n \<Longrightarrow> 0 < n \<Longrightarrow> ring_push n q b = newest n (q @ [b])"
  by (cases q) (auto simp: ring_push_def newest_def Suc_diff_le)

lemma newest_append: "newest n (newest n xs @ ys) = newest n (xs @ ys)"
proof (cases "length xs \<le> n")
  case True
  then show ?thesis by (simp add: newest_def)
next
  case False
  then have "length (newest n xs) = n" by (simp add: newest_def)
  then show ?thesis using False by (simp add: newest_def add.commute)
qed

section \<open>The contract\<close>

locale overwrite_ring =
  fixes push :: "'s \<Rightarrow> uint8_t \<Rightarrow> (ErrorCodes \<times> 's) result"
    and pop :: "'s \<Rightarrow> uint8_t \<Rightarrow> (ErrorCodes \<times> 's \<times> uint8_t) result"
    and get_count :: "'s \<Rightarrow> size_t result"
    and inv :: "'s \<Rightarrow> bool"
    and capacity :: "'s \<Rightarrow> nat"
    and contents :: "'s \<Rightarrow> uint8_t list"
  assumes capacity_pos: "inv s \<Longrightarrow> 0 < capacity s"
    and contents_bound: "inv s \<Longrightarrow> length (contents s) \<le> capacity s"
    and count_eq: "inv s \<Longrightarrow> \<exists>n. get_count s = Inr n \<and> unat n = length (contents s)"
    and push_step: "inv s \<Longrightarrow> \<exists>s'. push s b = Inr (ERR_NONE, s') \<and> inv s'
          \<and> capacity s' = capacity s \<and> contents s' = ring_push (capacity s) (contents s) b"
    and pop_empty: "inv s \<Longrightarrow> contents s = [] \<Longrightarrow> pop s old = Inr (ERR_EMPTY, s, old)"
    and pop_step: "inv s \<Longrightarrow> contents s = x # q \<Longrightarrow> \<exists>s'. pop s old = Inr (ERR_NONE, s', x)
          \<and> inv s' \<and> capacity s' = capacity s \<and> contents s' = q"
begin

lemma session_refines:
  "inv s \<Longrightarrow> run_session push pop s ops = Inr (spec_session (capacity s) (contents s) ops)"
proof (induction ops arbitrary: s)
  case Nil
  then show ?case by simp
next
  case (Cons op ops)
  show ?case
  proof (cases op)
    case (Push b)
    then show ?thesis
      using push_step [OF Cons.prems, of b] Cons.IH by auto
  next
    case Pop
    show ?thesis
    proof (cases "contents s")
      case Nil
      then show ?thesis
        using Pop pop_empty [OF Cons.prems Nil, of 0] Cons.IH [OF Cons.prems] by simp
    next
      case (Cons x q)
      then show ?thesis
        using Pop pop_step [OF Cons.prems Cons, of 0] Cons.IH by auto
    qed
  qed
qed

lemma push_all_newest:
  assumes "inv s"
  shows "\<exists>s'. push_all push s bs = Inr s' \<and> inv s' \<and> capacity s' = capacity s
           \<and> contents s' = newest (capacity s) (contents s @ bs)"
  using assms
proof (induction bs arbitrary: s)
  case Nil
  then show ?case using contents_bound by (simp add: newest_def)
next
  case (Cons b bs)
  obtain s1 where s1: "push s b = Inr (ERR_NONE, s1)" "inv s1" "capacity s1 = capacity s"
    "contents s1 = newest (capacity s) (contents s @ [b])"
    using push_step [OF Cons.prems, of b]
      ring_push_newest [OF contents_bound [OF Cons.prems] capacity_pos [OF Cons.prems]]
    by auto
  then show ?case
    using Cons.IH [OF s1(2)] newest_append [of _ "contents s @ [b]" bs] by auto
qed

end

end
