(* ===== verification/Numeric_Ops.thy ===== *)
theory Numeric_Ops
  imports Prelude
begin

text \<open>
  The power-of-two test of \<open>src/operations/numeric_ops.c\<close>, on words as the C code
  computes it, and its meaning: the words that are a power of two, and no other.
\<close>

definition numeric_ops_is_power_2_sz :: "size_t \<Rightarrow> bool" where
  "numeric_ops_is_power_2_sz i \<longleftrightarrow> (i AND (i - 1)) = 0 \<and> i \<noteq> 0"

lemma nat_and_pred:
  fixes n :: nat
  assumes "0 < n"
  shows "n AND (n - 1) = 0 \<longleftrightarrow> (\<exists>k. n = 2 ^ k)"
  using assms
proof (induction n rule: less_induct)
  case (less n)
  show ?case
  proof (cases "even n")
    case True
    then obtain m where n: "n = 2 * m" by auto
    with less.prems have m: "0 < m" "m < n" by auto
    have "(2 * m - 1) div 2 = m - 1" using m by simp
    then have "n AND (n - 1) = 2 * (m AND (m - 1))"
      using n and_rec [of n "n - 1"] by simp
    moreover have "(\<exists>k. n = 2 ^ k) \<longleftrightarrow> (\<exists>k. m = 2 ^ k)"
    proof
      assume "\<exists>k. n = 2 ^ k"
      then obtain k where "2 * m = 2 ^ k" using n by auto
      then show "\<exists>k. m = 2 ^ k" by (cases k) auto
    next
      assume "\<exists>k. m = 2 ^ k"
      then show "\<exists>k. n = 2 ^ k" using n by (metis power_Suc)
    qed
    ultimately show ?thesis using less.IH [OF m(2,1)] by simp
  next
    case False
    then obtain m where n: "n = Suc (2 * m)" by (auto elim: oddE)
    have "n AND (n - 1) = 2 * (m AND m)"
      using n and_rec [of n "n - 1"] by simp
    moreover have "(\<exists>k. n = 2 ^ k) \<longleftrightarrow> n = 1"
      using False by (metis even_power odd_one power_0 dvd_refl neq0_conv)
    ultimately show ?thesis using n by simp
  qed
qed

lemma is_power_2_unat:
  "numeric_ops_is_power_2_sz i \<longleftrightarrow> (\<exists>k<64. unat i = 2 ^ k)"
proof (cases "i = 0")
  case True
  then show ?thesis by (simp add: numeric_ops_is_power_2_sz_def)
next
  case False
  have pos: "0 < unat i" using False by (simp add: unat_gt_0)
  have "unat (i AND (i - 1)) = unat i AND (unat i - 1)"
    by (simp add: unsigned_and_eq unat_pred_size [OF False])
  then have "numeric_ops_is_power_2_sz i \<longleftrightarrow> unat i AND (unat i - 1) = 0"
    using False by (simp add: numeric_ops_is_power_2_sz_def) (metis unat_eq_0_size)
  also have "\<dots> \<longleftrightarrow> (\<exists>k. unat i = 2 ^ k)" by (rule nat_and_pred [OF pos])
  also have "\<dots> \<longleftrightarrow> (\<exists>k<64. unat i = 2 ^ k)"
  proof
    assume "\<exists>k. unat i = 2 ^ k"
    then obtain k where k: "unat i = 2 ^ k" ..
    have "(2::nat) ^ k < 2 ^ 64" using unat_size_lt [of i] k by simp
    then have "k < 64" by (simp only: power_strict_increasing_iff)
    with k show "\<exists>k<64. unat i = 2 ^ k" by auto
  qed auto
  finally show ?thesis .
qed

section \<open>Properties\<close>

text \<open>
  The bit trick answers true exactly on the powers of two a \<open>size_t\<close> can hold; in particular
  it refuses 0.
\<close>

theorem is_power_2_correct:
  "numeric_ops_is_power_2_sz i \<longleftrightarrow> (\<exists>k<64. unat i = 2 ^ k)"
  by (rule is_power_2_unat)

end
