(* ===== verification/Fast_Circular_Buffer.thy ===== *)
theory Fast_Circular_Buffer
  imports Ring_Spec Numeric_Ops
begin

text \<open>
  The byte buffer of \<open>src/collections/fast_circular_buffer.c\<close>: free-running read and
  write indices that wrap at the width of \<open>size_t\<close>, reduced to a cell number by a mask.
  That this is right at the wrap-around rests on the size being a power of two, which
  \<open>numeric_ops_is_power_2_sz\<close> checks at initialisation. The buffer satisfies the same
  contract \<open>overwrite_ring\<close> as the plain circular buffer.
\<close>

section \<open>Model\<close>

record FastCircularBufferConfig =
  cfg_buffer :: "uint8_t list option"
  cfg_buffer_size :: size_t

record FastCircularBuffer =
  buffer :: "uint8_t list option"
  read_index :: size_t
  write_index :: size_t
  size_mask :: size_t

definition fast_circular_buffer_validate_config ::
    "FastCircularBufferConfig \<Rightarrow> ErrorCodes result" where
  "fast_circular_buffer_validate_config config =
     r_bind (assert_ptr (cfg_buffer config)) (\<lambda>_.
       if cfg_buffer_size config < 2 then Inr ERR_INVALID_ARG
       else if \<not> numeric_ops_is_power_2_sz (cfg_buffer_size config) then Inr ERR_INVALID_ARG
       else Inr ERR_NONE)"

definition fast_circular_buffer_init ::
    "FastCircularBuffer option \<Rightarrow> FastCircularBufferConfig option
     \<Rightarrow> (ErrorCodes \<times> FastCircularBuffer) result" where
  "fast_circular_buffer_init buf config =
     r_bind (assert_ptr buf) (\<lambda>b.
     r_bind (assert_ptr config) (\<lambda>cfg.
     r_bind (fast_circular_buffer_validate_config cfg) (\<lambda>res.
       if res \<noteq> ERR_NONE then Inr (res, b)
       else Inr (ERR_NONE,
                 b\<lparr>buffer := cfg_buffer cfg, size_mask := cfg_buffer_size cfg - 1,
                   read_index := 0, write_index := 0\<rparr>))))"

definition fast_circular_buffer_deinit :: "FastCircularBuffer option \<Rightarrow> FastCircularBuffer result" where
  "fast_circular_buffer_deinit buf =
     r_bind (assert_ptr buf) (\<lambda>b. Inr (b\<lparr>size_mask := 0, read_index := 0, write_index := 0\<rparr>))"

definition fast_circular_buffer_get_count :: "FastCircularBuffer option \<Rightarrow> size_t result" where
  "fast_circular_buffer_get_count buf =
     r_bind (assert_ptr buf) (\<lambda>b. Inr (write_index b - read_index b))"

definition fast_circular_buffer_push_byte ::
    "FastCircularBuffer option \<Rightarrow> uint8_t \<Rightarrow> (ErrorCodes \<times> FastCircularBuffer) result" where
  "fast_circular_buffer_push_byte buf byte =
     r_bind (assert_ptr buf) (\<lambda>b.
       if size_mask b = 0 then Inr (ERR_NO_MEM, b)
       else r_bind (arr_set (buffer b) (write_index b AND size_mask b) byte) (\<lambda>cells.
         let b1 = b\<lparr>buffer := cells\<rparr> in
         r_bind (fast_circular_buffer_get_count (Some b1)) (\<lambda>n.
           let b2 = (if n > size_mask b1
                     then b1\<lparr>read_index := write_index b1 - size_mask b1\<rparr> else b1)
           in Inr (ERR_NONE, b2\<lparr>write_index := write_index b2 + 1\<rparr>))))"

definition fast_circular_buffer_pop_byte ::
    "FastCircularBuffer option \<Rightarrow> uint8_t option
     \<Rightarrow> (ErrorCodes \<times> FastCircularBuffer \<times> uint8_t) result" where
  "fast_circular_buffer_pop_byte buf byte =
     r_bind (assert_ptr buf) (\<lambda>b.
     r_bind (assert_ptr byte) (\<lambda>old.
     r_bind (fast_circular_buffer_get_count (Some b)) (\<lambda>n.
       if n = 0 then Inr (ERR_EMPTY, b, old)
       else r_bind (arr_get (buffer b) (read_index b AND size_mask b)) (\<lambda>x.
         Inr (ERR_NONE, b\<lparr>read_index := read_index b + 1\<rparr>, x)))))"

definition fcb_cells :: "FastCircularBuffer \<Rightarrow> uint8_t list" where
  "fcb_cells b = (case buffer b of None \<Rightarrow> [] | Some xs \<Rightarrow> xs)"

definition fcb_capacity :: "FastCircularBuffer \<Rightarrow> nat" where
  "fcb_capacity b = Suc (unat (size_mask b))"

definition fcb_inv :: "FastCircularBuffer \<Rightarrow> bool" where
  "fcb_inv b \<longleftrightarrow> buffer b \<noteq> None \<and> size_mask b \<noteq> 0
     \<and> numeric_ops_is_power_2_sz (size_mask b + 1)
     \<and> fcb_capacity b \<le> length (fcb_cells b)
     \<and> unat (write_index b - read_index b) \<le> fcb_capacity b"

definition fcb_contents :: "FastCircularBuffer \<Rightarrow> uint8_t list" where
  "fcb_contents b =
     ring_list (fcb_cells b) (fcb_capacity b) (unat (read_index b))
       (unat (write_index b - read_index b))"

section \<open>Free-running indices\<close>

lemma power_2_mask:
  assumes "numeric_ops_is_power_2_sz (m + 1)"
  shows "\<exists>k<64. Suc (unat m) = 2 ^ k \<and> m = mask k"
proof -
  obtain k where k: "k < 64" "unat (m + 1) = 2 ^ k"
    using assms is_power_2_unat by blast
  have "m + 1 \<noteq> 0" using assms by (simp add: numeric_ops_is_power_2_sz_def)
  then have "unat (m + 1) = Suc (unat m)" by (simp add: unatSuc add.commute)
  moreover have "m + 1 = 2 ^ k"
    using k(2) by (metis of_nat_numeral of_nat_power of_nat_unat ucast_id)
  then have "m = mask k"
    by (simp add: mask_eq_exp_minus_1 eq_diff_eq)
  ultimately show ?thesis using k by auto
qed

text \<open>Masking an index is taking it modulo the capacity, and the capacity divides \<open>2 ^ 64\<close>.\<close>

lemma unat_and_mask:
  assumes "fcb_inv b"
  shows "unat (i AND size_mask b) = unat i mod fcb_capacity b"
proof -
  obtain k where k: "fcb_capacity b = 2 ^ k" "size_mask b = mask k"
    using power_2_mask [of "size_mask b"] assms by (auto simp: fcb_inv_def fcb_capacity_def)
  then have "unat (i AND size_mask b) = take_bit k (unat i)"
    by (simp add: take_bit_eq_mask [symmetric] unsigned_take_bit_eq)
  then show ?thesis using k(1) by (simp add: take_bit_eq_mod)
qed

lemma unat_add_mod_capacity:
  assumes "fcb_inv b"
  shows "unat (i + j :: size_t) mod fcb_capacity b = (unat i + unat j) mod fcb_capacity b"
proof -
  obtain k where k: "k < 64" "fcb_capacity b = 2 ^ k"
    using power_2_mask [of "size_mask b"] assms by (auto simp: fcb_inv_def fcb_capacity_def)
  have "(2::nat) ^ k dvd 2 ^ 64" using k(1) by (simp only: le_imp_power_dvd less_imp_le)
  then show ?thesis
    using k(2) by (simp add: unat_word_ariths(1) mod_mod_cancel)
qed

lemma fcb_write_cell:
  assumes "fcb_inv b"
  shows "unat (write_index b AND size_mask b) =
    (unat (read_index b) + unat (write_index b - read_index b)) mod fcb_capacity b"
proof -
  have "write_index b = read_index b + (write_index b - read_index b)" by simp
  then show ?thesis
    using unat_and_mask [OF assms] unat_add_mod_capacity [OF assms] by metis
qed

lemma fcb_invD:
  assumes "fcb_inv b"
  shows "\<exists>xs. buffer b = Some xs \<and> fcb_cells b = xs \<and> fcb_capacity b \<le> length xs"
    and "size_mask b \<noteq> 0" and "unat (write_index b - read_index b) \<le> fcb_capacity b"
    and "unat (i AND size_mask b) < fcb_capacity b"
  using assms unat_and_mask [OF assms, of i] by (auto simp: fcb_inv_def fcb_cells_def fcb_capacity_def)

section \<open>The operations on the contents\<close>

text \<open>The write index runs ahead of the read index by at most the capacity, so a step is exact.\<close>

lemma fcb_capacity_lt: "fcb_inv b \<Longrightarrow> fcb_capacity b < 18446744073709551616"
  using unat_size_lt [of "size_mask b"] power_2_mask [of "size_mask b"]
  by (fastforce simp: fcb_inv_def fcb_capacity_def intro: power_strict_increasing [of _ 64 "2::nat", simplified])

lemma fast_push_index:
  assumes "fcb_inv b"
  defines "d \<equiv> write_index b - read_index b"
  shows "unat d \<le> unat (size_mask b) \<Longrightarrow> unat (write_index b + 1 - read_index b) = Suc (unat d)"
    and "write_index b + 1 - (write_index b - size_mask b) = size_mask b + 1"
    and "unat (size_mask b + 1) = fcb_capacity b"
    and "unat d = fcb_capacity b \<Longrightarrow> write_index b - size_mask b = read_index b + 1"
proof -
  have lt: "Suc (unat (size_mask b)) < 18446744073709551616"
    using fcb_capacity_lt [OF assms(1)] by (simp add: fcb_capacity_def)
  show cap: "unat (size_mask b + 1) = fcb_capacity b"
    using lt by (simp add: unat_word_ariths(1) fcb_capacity_def)
  show "unat (write_index b + 1 - read_index b) = Suc (unat d)" if "unat d \<le> unat (size_mask b)"
  proof -
    have "unat (d + 1) = Suc (unat d)" using that lt by (simp add: unat_word_ariths(1))
    moreover have "write_index b + 1 - read_index b = d + 1" by (simp add: d_def)
    ultimately show ?thesis by (simp only:)
  qed
  show "write_index b + 1 - (write_index b - size_mask b) = size_mask b + 1" by simp
  show "write_index b - size_mask b = read_index b + 1" if "unat d = fcb_capacity b"
  proof -
    have "d = size_mask b + 1" using that cap by (metis unat_eq_size)
    then show ?thesis by (simp add: d_def algebra_simps)
  qed
qed

lemma fast_push_byte_step:
  assumes "fcb_inv b"
  shows "\<exists>b'. fast_circular_buffer_push_byte (Some b) x = Inr (ERR_NONE, b') \<and> fcb_inv b'
           \<and> fcb_capacity b' = fcb_capacity b
           \<and> fcb_contents b' = ring_push (fcb_capacity b) (fcb_contents b) x"
proof -
  let ?d = "unat (write_index b - read_index b)" and ?n = "fcb_capacity b" and ?r = "unat (read_index b)"
  let ?cell = "unat (write_index b AND size_mask b)"
  let ?full = "write_index b - read_index b > size_mask b"
  obtain xs where xs: "buffer b = Some xs" "fcb_cells b = xs" "?n \<le> length xs"
    using fcb_invD(1) [OF assms] by blast
  note bounds = fcb_invD(2-4) [OF assms] and idx = fast_push_index [OF assms]
  have full: "?full \<longleftrightarrow> ?d = ?n"
    using bounds(2) by (auto simp: word_less_nat_alt fcb_capacity_def)
  let ?b' = "b\<lparr>buffer := Some (xs[?cell := x]),
      read_index := (if ?full then write_index b - size_mask b else read_index b),
      write_index := write_index b + 1\<rparr>"
  have run: "fast_circular_buffer_push_byte (Some b) x = Inr (ERR_NONE, ?b')"
    using xs bounds less_le_trans [OF bounds(3) xs(3)]
    by (simp add: fast_circular_buffer_push_byte_def fast_circular_buffer_get_count_def c_simps Let_def)
  let ?c = "if ?full then ?n else Suc ?d"
  have c: "unat (write_index ?b' - read_index ?b') = ?c"
    using idx full bounds(2) by (cases ?full) (auto simp: fcb_capacity_def)
  have "?c \<le> ?n" using full bounds(2) by (auto simp: le_less)
  then have inv: "fcb_inv ?b'"
    using assms xs c by (simp add: fcb_inv_def fcb_cells_def fcb_capacity_def)
  have contents: "fcb_contents ?b' = ring_list (xs[?cell := x]) ?n (unat (read_index ?b')) ?c"
    using c by (simp add: fcb_contents_def fcb_cells_def fcb_capacity_def)
  have cell: "?cell = (?r + ?d) mod ?n" by (rule fcb_write_cell [OF assms])
  have "fcb_contents ?b' = ring_push ?n (fcb_contents b) x"
  proof (cases ?full)
    case True
    then have d: "?d = ?n" using full by simp
    have r': "unat (read_index b + 1) mod ?n = Suc ?r mod ?n"
      using unat_add_mod_capacity [OF assms, of "read_index b" 1] by simp
    have "fcb_contents ?b' = ring_list (xs[?r mod ?n := x]) ?n (Suc ?r) ?n"
      using contents True idx(4) d cell ring_list_cong [OF r'] by simp
    then show ?thesis
      using ring_list_overwrite [of ?n xs ?r x] xs d
      by (simp add: ring_push_def fcb_contents_def [of b] fcb_capacity_def)
  next
    case False
    then have "?d < ?n" using full bounds(2) by simp
    moreover have "fcb_contents ?b' = ring_list (xs[?cell := x]) ?n ?r (Suc ?d)"
      using contents False by simp
    ultimately show ?thesis
      using ring_list_append [of ?d ?n xs ?r x] xs cell
      by (simp add: ring_push_def fcb_contents_def [of b])
  qed
  then show ?thesis using run inv by (auto simp: fcb_capacity_def)
qed

lemma fast_pop_byte_step:
  assumes "fcb_inv b" and "fcb_contents b = x # q"
  shows "\<exists>b'. fast_circular_buffer_pop_byte (Some b) (Some old) = Inr (ERR_NONE, b', x) \<and> fcb_inv b'
           \<and> fcb_capacity b' = fcb_capacity b \<and> fcb_contents b' = q"
proof -
  let ?d = "write_index b - read_index b" and ?n = "fcb_capacity b" and ?r = "unat (read_index b)"
  obtain xs where xs: "buffer b = Some xs" "fcb_cells b = xs" "?n \<le> length xs"
    using fcb_invD(1) [OF assms(1)] by blast
  note bounds = fcb_invD(2-4) [OF assms(1)]
  obtain c where c: "unat ?d = Suc c"
    using assms(2) by (cases "unat ?d") (auto simp: fcb_contents_def)
  then have nz: "?d \<noteq> 0" by auto
  have x: "x = xs ! (?r mod ?n)" "q = ring_list xs ?n (Suc ?r) c"
    using assms(2) xs(2) by (auto simp: fcb_contents_def c ring_list_Suc)
  let ?b' = "b\<lparr>read_index := read_index b + 1\<rparr>"
  have run: "fast_circular_buffer_pop_byte (Some b) (Some old) = Inr (ERR_NONE, ?b', x)"
    using xs nz x unat_and_mask [OF assms(1)] less_le_trans [OF bounds(3) xs(3)]
    by (simp add: fast_circular_buffer_pop_byte_def fast_circular_buffer_get_count_def c_simps)
  have c': "unat (write_index b - (read_index b + 1)) = c"
    using unat_pred_size [OF nz] c by (simp add: diff_diff_eq)
  then have inv: "fcb_inv ?b'"
    using assms(1) c by (simp add: fcb_inv_def fcb_cells_def fcb_capacity_def)
  have "unat (read_index b + 1) mod ?n = Suc ?r mod ?n"
    using unat_add_mod_capacity [OF assms(1), of "read_index b" 1] by simp
  then have "ring_list xs ?n (unat (read_index b + 1)) c = q"
    unfolding x(2) by (rule ring_list_cong)
  then have "fcb_contents ?b' = q"
    using c' xs by (simp add: fcb_contents_def fcb_cells_def fcb_capacity_def)
  then show ?thesis using run inv by (auto simp: fcb_capacity_def)
qed

section \<open>The contract\<close>

interpretation fcb: overwrite_ring
  "\<lambda>b. fast_circular_buffer_push_byte (Some b)"
  "\<lambda>b old. fast_circular_buffer_pop_byte (Some b) (Some old)"
  "\<lambda>b. fast_circular_buffer_get_count (Some b)" fcb_inv fcb_capacity fcb_contents
proof unfold_locales
  fix b x old
  assume inv: "fcb_inv b"
  show "0 < fcb_capacity b" by (simp add: fcb_capacity_def)
  show "length (fcb_contents b) \<le> fcb_capacity b"
    using fcb_invD(3) [OF inv] by (simp add: fcb_contents_def)
  show "\<exists>n. fast_circular_buffer_get_count (Some b) = Inr n \<and> unat n = length (fcb_contents b)"
    by (simp add: fcb_contents_def fast_circular_buffer_get_count_def)
  show "\<exists>s'. fast_circular_buffer_push_byte (Some b) x = Inr (ERR_NONE, s') \<and> fcb_inv s'
      \<and> fcb_capacity s' = fcb_capacity b
      \<and> fcb_contents s' = ring_push (fcb_capacity b) (fcb_contents b) x"
    by (rule fast_push_byte_step [OF inv])
  show "fast_circular_buffer_pop_byte (Some b) (Some old) = Inr (ERR_EMPTY, b, old)"
    if "fcb_contents b = []"
    using that
    by (simp add: fast_circular_buffer_pop_byte_def fcb_contents_def fast_circular_buffer_get_count_def)
  show "\<exists>s'. fast_circular_buffer_pop_byte (Some b) (Some old) = Inr (ERR_NONE, s', x) \<and> fcb_inv s'
      \<and> fcb_capacity s' = fcb_capacity b \<and> fcb_contents s' = q"
    if "fcb_contents b = x # q" for q
    by (rule fast_pop_byte_step [OF inv that])
qed

lemma fast_circular_buffer_init_state:
  assumes "cfg_buffer cfg = Some xs" and "2 \<le> cfg_buffer_size cfg"
    and "numeric_ops_is_power_2_sz (cfg_buffer_size cfg)"
    and "unat (cfg_buffer_size cfg) \<le> length xs"
  shows "\<exists>b. fast_circular_buffer_init (Some junk) (Some cfg) = Inr (ERR_NONE, b) \<and> fcb_inv b
           \<and> fcb_capacity b = unat (cfg_buffer_size cfg) \<and> fcb_contents b = []"
proof -
  let ?n = "cfg_buffer_size cfg"
  have n: "?n \<noteq> 0" "?n \<noteq> 1" "\<not> ?n < 2" using assms(2) by (auto simp: word_le_nat_alt word_less_nat_alt)
  have "Suc (unat (?n - 1)) = unat ?n"
    using n(1) unat_pred_size [OF n(1)] by (simp add: unat_gt_0)
  then show ?thesis
    using assms n
    by (auto simp: fast_circular_buffer_init_def fast_circular_buffer_validate_config_def
        fcb_inv_def fcb_cells_def fcb_contents_def fcb_capacity_def)
qed

section \<open>Properties\<close>

text \<open>
  C2. A fast circular buffer whose size is a power of two of at least 2 answers every session of
  pushes and pops exactly as the abstract overwriting queue does, also when its free-running
  indices wrap around the width of \<open>size_t\<close>.
\<close>

theorem fast_circular_buffer_session:
  assumes "fcb_inv b"
  shows "run_session (\<lambda>b. fast_circular_buffer_push_byte (Some b))
      (\<lambda>b old. fast_circular_buffer_pop_byte (Some b) (Some old)) b ops
    = Inr (spec_session (Suc (unat (size_mask b))) (fcb_contents b) ops)"
  using fcb.session_refines [OF assms, of ops] by (simp add: fcb_capacity_def)

theorem fast_circular_buffer_session_witness:
  "run_session (\<lambda>b. fast_circular_buffer_push_byte (Some b))
      (\<lambda>b old. fast_circular_buffer_pop_byte (Some b) (Some old))
      \<lparr>buffer = Some [1, 2], read_index = 0xFFFFFFFFFFFFFFFF, write_index = 1, size_mask = 1\<rparr>
      [Push 3, Pop, Pop, Pop]
    = Inr [Pushed ERR_NONE, Popped ERR_NONE 1, Popped ERR_NONE 3, Popped ERR_EMPTY 0]"
proof -
  define b where "b = \<lparr>buffer = Some [1, 2], read_index = 0xFFFFFFFFFFFFFFFF, write_index = 1, size_mask = 1\<rparr>"
  have "fcb_inv b" by (simp add: b_def fcb_inv_def fcb_capacity_def fcb_cells_def
        numeric_ops_is_power_2_sz_def)
  moreover have "fcb_contents b = [2, 1]"
    by (simp add: b_def fcb_contents_def ring_list_def fcb_cells_def fcb_capacity_def upt_conv_Cons
        flip: numeral_2_eq_2)
  ultimately show ?thesis
    using fast_circular_buffer_session [of b "[Push 3, Pop, Pop, Pop]"]
    unfolding b_def [symmetric] by (simp add: b_def ring_push_def)
qed

text \<open>
  Initialisation accepts exactly the sizes that are powers of two and at least 2, and leaves the
  instance untouched when it refuses one.
\<close>

theorem fast_circular_buffer_init_accepts:
  assumes "cfg_buffer cfg = Some xs" and "unat (cfg_buffer_size cfg) \<le> length xs"
  shows "if \<exists>k. 0 < k \<and> unat (cfg_buffer_size cfg) = 2 ^ k
    then \<exists>b'. fast_circular_buffer_init (Some b) (Some cfg) = Inr (ERR_NONE, b') \<and> fcb_inv b'
           \<and> fcb_contents b' = []
    else fast_circular_buffer_init (Some b) (Some cfg) = Inr (ERR_INVALID_ARG, b)"
proof -
  let ?n = "cfg_buffer_size cfg"
  have iff: "(\<exists>k. 0 < k \<and> unat ?n = 2 ^ k) \<longleftrightarrow> 2 \<le> ?n \<and> numeric_ops_is_power_2_sz ?n"
  proof
    assume "\<exists>k. 0 < k \<and> unat ?n = 2 ^ k"
    then obtain k where k: "0 < k" "unat ?n = 2 ^ k" by blast
    have "(2::nat) ^ k < 2 ^ 64" using unat_size_lt [of ?n] k by simp
    then have "k < 64" by (simp only: power_strict_increasing_iff)
    moreover have "(2::nat) ^ 1 \<le> 2 ^ k" using k(1) by (intro power_increasing) auto
    ultimately show "2 \<le> ?n \<and> numeric_ops_is_power_2_sz ?n"
      using k by (auto simp: is_power_2_unat word_le_nat_alt)
  next
    assume n: "2 \<le> ?n \<and> numeric_ops_is_power_2_sz ?n"
    then obtain k where k: "unat ?n = 2 ^ k" by (auto simp: is_power_2_unat)
    moreover have "0 < k" using n k by (cases k) (auto simp: word_le_nat_alt)
    ultimately show "\<exists>k. 0 < k \<and> unat ?n = 2 ^ k" by blast
  qed
  show ?thesis
    unfolding iff using fast_circular_buffer_init_state [of cfg xs b] assms
    by (auto simp: fast_circular_buffer_init_def fast_circular_buffer_validate_config_def not_le)
qed

theorem fast_circular_buffer_init_accepts_witness:
  "fast_circular_buffer_init (Some \<lparr>buffer = None, read_index = 5, write_index = 6, size_mask = 7\<rparr>)
      (Some \<lparr>cfg_buffer = Some [0, 0, 0], cfg_buffer_size = 3\<rparr>)
    = Inr (ERR_INVALID_ARG, \<lparr>buffer = None, read_index = 5, write_index = 6, size_mask = 7\<rparr>)"
proof -
  have "\<not> (\<exists>k. 0 < k \<and> (3::nat) = 2 ^ k)"
    by (metis even_numeral even_power odd_numeral)
  then show ?thesis
    using fast_circular_buffer_init_accepts [of "\<lparr>cfg_buffer = Some [0, 0, 0], cfg_buffer_size = 3\<rparr>"
        "[0, 0, 0]" "\<lparr>buffer = None, read_index = 5, write_index = 6, size_mask = 7\<rparr>"]
    by simp
qed

end
