(* ===== verification/Spsc_Fast_Buffer.thy ===== *)
theory Spsc_Fast_Buffer
  imports Fast_Circular_Buffer
begin

text \<open>
  The fast circular buffer shared by a producer and a consumer that run at the same time, for
  example an interrupt handler and the main loop. \<open>push_step\<close> and \<open>pop_step\<close> are the bodies of
  \<open>fast_circular_buffer_push_byte\<close> and \<open>fast_circular_buffer_pop_byte\<close> cut at every access to a field
  that the calls change: a step makes one load or one store of an index or of a cell, and keeps what it
  loaded in the program counter, as the local values of the call. A schedule says which side makes the
  next step. Accesses are taken to happen in program order; the order of the two loads in
  \<open>buffer->write_index - buffer->read_index\<close>, which C leaves open, is a parameter.

  A push into a full buffer moves the index of the consumer, so sharing needs a discipline: the producer
  starts a push only when it finds room. Under it the buffer is shown to be a first-in first-out queue for
  every schedule, every call to take effect at one of its own steps, and every byte to arrive.
\<close>

section \<open>Model\<close>

definition first_operand :: "operand_order \<Rightarrow> FastCircularBuffer \<Rightarrow> size_t" where
  "first_operand ord b = (case ord of Write_first \<Rightarrow> write_index b | Read_first \<Rightarrow> read_index b)"

definition count_after_operand :: "operand_order \<Rightarrow> size_t \<Rightarrow> FastCircularBuffer \<Rightarrow> size_t" where
  "count_after_operand ord v b =
     (case ord of Write_first \<Rightarrow> v - read_index b | Read_first \<Rightarrow> write_index b - v)"

text \<open>
  Where a push is: the byte is its argument, the other values are what it has loaded. \<open>Push_full\<close> and
  \<open>Push_drop\<close> are the branch that makes room in a full buffer.
\<close>

datatype push_pc =
    Push_idle
  | Push_enter uint8_t
  | Push_slot uint8_t
  | Push_store uint8_t size_t
  | Push_count1 uint8_t
  | Push_count2 uint8_t size_t
  | Push_full uint8_t
  | Push_drop uint8_t size_t
  | Push_next uint8_t
  | Push_advance uint8_t size_t

fun push_step ::
    "operand_order \<Rightarrow> FastCircularBuffer \<Rightarrow> push_pc
     \<Rightarrow> (FastCircularBuffer \<times> push_pc \<times> ErrorCodes option) result" where
  "push_step ord b Push_idle = Inr (b, Push_idle, None)"
| "push_step ord b (Push_enter x) =
     (if size_mask b = 0 then Inr (b, Push_idle, Some ERR_NO_MEM) else Inr (b, Push_slot x, None))"
| "push_step ord b (Push_slot x) = Inr (b, Push_store x (write_index b), None)"
| "push_step ord b (Push_store x w) =
     r_bind (arr_set (buffer b) (w AND size_mask b) x) (\<lambda>cells.
       Inr (b\<lparr>buffer := cells\<rparr>, Push_count1 x, None))"
| "push_step ord b (Push_count1 x) = Inr (b, Push_count2 x (first_operand ord b), None)"
| "push_step ord b (Push_count2 x v) =
     (if count_after_operand ord v b > size_mask b then Inr (b, Push_full x, None)
      else Inr (b, Push_next x, None))"
| "push_step ord b (Push_full x) = Inr (b, Push_drop x (write_index b), None)"
| "push_step ord b (Push_drop x w) =
     Inr (b\<lparr>read_index := w - size_mask b\<rparr>, Push_next x, None)"
| "push_step ord b (Push_next x) = Inr (b, Push_advance x (write_index b), None)"
| "push_step ord b (Push_advance x w) = Inr (b\<lparr>write_index := w + 1\<rparr>, Push_idle, Some ERR_NONE)"

datatype pop_pc =
    Pop_idle
  | Pop_count1
  | Pop_count2 size_t
  | Pop_slot
  | Pop_load size_t
  | Pop_next uint8_t
  | Pop_advance uint8_t size_t

text \<open>A pop that finds the buffer empty leaves the caller's variable, which holds 0, as it is.\<close>

fun pop_step ::
    "operand_order \<Rightarrow> FastCircularBuffer \<Rightarrow> pop_pc
     \<Rightarrow> (FastCircularBuffer \<times> pop_pc \<times> ring_reply option) result" where
  "pop_step ord b Pop_idle = Inr (b, Pop_idle, None)"
| "pop_step ord b Pop_count1 = Inr (b, Pop_count2 (first_operand ord b), None)"
| "pop_step ord b (Pop_count2 v) =
     (if count_after_operand ord v b = 0 then Inr (b, Pop_idle, Some (Popped ERR_EMPTY 0))
      else Inr (b, Pop_slot, None))"
| "pop_step ord b Pop_slot = Inr (b, Pop_load (read_index b), None)"
| "pop_step ord b (Pop_load r) =
     r_bind (arr_get (buffer b) (r AND size_mask b)) (\<lambda>x. Inr (b, Pop_next x, None))"
| "pop_step ord b (Pop_next x) = Inr (b, Pop_advance x (read_index b), None)"
| "pop_step ord b (Pop_advance x r) =
     Inr (b\<lparr>read_index := r + 1\<rparr>, Pop_idle, Some (Popped ERR_NONE x))"

text \<open>
  The two sides and what they have done: the bytes still to be pushed, the bytes whose push has returned,
  the replies of the pops that have returned. An idle producer polls the count and starts the next push when
  there is room; an idle consumer starts the next pop.
\<close>

record spsc =
  shared :: FastCircularBuffer
  producer :: push_pc
  consumer :: pop_pc
  to_push :: "uint8_t list"
  pushed :: "uint8_t list"
  replies :: "ring_reply list"

definition spsc_start :: "FastCircularBuffer \<Rightarrow> uint8_t list \<Rightarrow> spsc" where
  "spsc_start b bs = \<lparr>shared = b, producer = Push_idle, consumer = Pop_idle, to_push = bs,
     pushed = [], replies = []\<rparr>"

fun push_argument :: "push_pc \<Rightarrow> uint8_t list" where
  "push_argument Push_idle = []"
| "push_argument (Push_enter x) = [x]"
| "push_argument (Push_slot x) = [x]"
| "push_argument (Push_store x w) = [x]"
| "push_argument (Push_count1 x) = [x]"
| "push_argument (Push_count2 x v) = [x]"
| "push_argument (Push_full x) = [x]"
| "push_argument (Push_drop x w) = [x]"
| "push_argument (Push_next x) = [x]"
| "push_argument (Push_advance x w) = [x]"

definition begin_push :: "spsc \<Rightarrow> spsc" where
  "begin_push s = (case to_push s of [] \<Rightarrow> s
     | x # xs \<Rightarrow> if write_index (shared s) - read_index (shared s) \<le> size_mask (shared s)
         then s\<lparr>producer := Push_enter x, to_push := xs\<rparr> else s)"

fun spsc_step :: "operand_order \<Rightarrow> side \<Rightarrow> spsc \<Rightarrow> spsc result" where
  "spsc_step ord Producer s =
     (if producer s = Push_idle then Inr (begin_push s)
      else r_bind (push_step ord (shared s) (producer s)) (\<lambda>(b, pc, ret).
        Inr (s\<lparr>shared := b, producer := pc,
               pushed := pushed s @ (if ret = None then [] else push_argument (producer s))\<rparr>)))"
| "spsc_step ord Consumer s =
     (if consumer s = Pop_idle then Inr (s\<lparr>consumer := Pop_count1\<rparr>)
      else r_bind (pop_step ord (shared s) (consumer s)) (\<lambda>(b, pc, ret).
        Inr (s\<lparr>shared := b, consumer := pc,
               replies := replies s @ (case ret of None \<Rightarrow> [] | Some r \<Rightarrow> [r])\<rparr>)))"

fun spsc_run :: "operand_order \<Rightarrow> spsc \<Rightarrow> side list \<Rightarrow> spsc result" where
  "spsc_run ord s [] = Inr s"
| "spsc_run ord s (t # ts) = r_bind (spsc_step ord t s) (\<lambda>s'. spsc_run ord s' ts)"

section \<open>The contents while calls are under way\<close>

abbreviation (input) held :: "FastCircularBuffer \<Rightarrow> nat" where
  "held b \<equiv> unat (write_index b - read_index b)"

lemma length_fcb_contents [simp]: "length (fcb_contents b) = held b"
  by (simp add: fcb_contents_def)

lemma fcb_room:
  "fcb_inv b \<Longrightarrow> write_index b - read_index b \<le> size_mask b \<longleftrightarrow> held b < fcb_capacity b"
  by (simp add: word_le_nat_alt fcb_capacity_def less_Suc_eq_le)

lemma fcb_store_free_cell:
  assumes "fcb_inv b" and "held b < fcb_capacity b"
  defines "i \<equiv> unat (write_index b AND size_mask b)"
  shows "\<exists>xs. buffer b = Some xs \<and> fcb_cells b = xs \<and> i < length xs
    \<and> arr_set (buffer b) (write_index b AND size_mask b) x = Inr (Some (xs[i := x]))
    \<and> fcb_inv (b\<lparr>buffer := Some (xs[i := x])\<rparr>)
    \<and> fcb_contents (b\<lparr>buffer := Some (xs[i := x])\<rparr>) = fcb_contents b"
proof -
  let ?n = "fcb_capacity b" and ?r = "unat (read_index b)"
  obtain xs where xs: "buffer b = Some xs" "fcb_cells b = xs" "?n \<le> length xs"
    using fcb_invD(1) [OF assms(1)] by blast
  have i: "i < length xs" using fcb_invD(4) [OF assms(1), of "write_index b"] xs(3) by (simp add: i_def)
  have cell: "i = (?r + held b) mod ?n" unfolding i_def by (rule fcb_write_cell [OF assms(1)])
  have "ring_list (xs[i := x]) ?n ?r (held b) = ring_list xs ?n ?r (held b)"
    using add_mod_neq [OF _ assms(2), of _ ?r] by (fastforce simp: ring_list_def cell nth_list_update)
  then show ?thesis
    using xs i assms(1)
    by (auto simp: fcb_contents_def fcb_cells_def fcb_capacity_def fcb_inv_def arr_set_def i_def)
qed

lemma fcb_advance_write:
  assumes "fcb_inv b" and "held b < fcb_capacity b"
    and "fcb_cells b ! unat (write_index b AND size_mask b) = x"
  shows "fcb_inv (b\<lparr>write_index := write_index b + 1\<rparr>)"
    and "fcb_contents (b\<lparr>write_index := write_index b + 1\<rparr>) = fcb_contents b @ [x]"
proof -
  let ?n = "fcb_capacity b" and ?r = "unat (read_index b)" and ?xs = "fcb_cells b"
  have c: "unat (write_index b + 1 - read_index b) = Suc (held b)"
    using fast_push_index(1) [OF assms(1)] assms(2) by (simp add: fcb_capacity_def)
  show "fcb_inv (b\<lparr>write_index := write_index b + 1\<rparr>)"
    using assms(1,2) c by (simp add: fcb_inv_def fcb_cells_def fcb_capacity_def)
  have "?xs ! ((?r + held b) mod ?n) = x"
    using assms(3) fcb_write_cell [OF assms(1)] by simp
  then have "ring_list ?xs ?n ?r (Suc (held b)) = ring_list ?xs ?n ?r (held b) @ [x]"
    by (simp add: ring_list_def)
  then show "fcb_contents (b\<lparr>write_index := write_index b + 1\<rparr>) = fcb_contents b @ [x]"
    using c by (simp add: fcb_contents_def fcb_cells_def fcb_capacity_def)
qed

lemma fcb_load_oldest:
  assumes "fcb_inv b" and "fcb_contents b \<noteq> []"
  shows "arr_get (buffer b) (read_index b AND size_mask b) = Inr (hd (fcb_contents b))"
    and "fcb_inv (b\<lparr>read_index := read_index b + 1\<rparr>)"
    and "fcb_contents (b\<lparr>read_index := read_index b + 1\<rparr>) = tl (fcb_contents b)"
proof -
  obtain x q where xq: "fcb_contents b = x # q" using assms(2) by (cases "fcb_contents b") auto
  then have ne: "write_index b - read_index b \<noteq> 0"
    using assms(2) by (auto simp: fcb_contents_def)
  show "arr_get (buffer b) (read_index b AND size_mask b) = Inr (hd (fcb_contents b))"
       "fcb_inv (b\<lparr>read_index := read_index b + 1\<rparr>)"
       "fcb_contents (b\<lparr>read_index := read_index b + 1\<rparr>) = tl (fcb_contents b)"
    using fast_pop_byte_step [OF assms(1) xq, of 0] ne xq
    by (auto simp: fast_circular_buffer_pop_byte_def fast_circular_buffer_get_count_def)
qed

section \<open>The invariant\<close>

text \<open>
  What each side may rely on at each point of its call. The producer owns the write index and the cell
  behind the last byte; the consumer owns the read index and the oldest byte. A value that a call has loaded
  from the other side's index may be out of date, but only in the safe direction.
\<close>

definition has_room :: "FastCircularBuffer \<Rightarrow> bool" where
  "has_room b \<longleftrightarrow> held b < fcb_capacity b"

definition is_stored :: "FastCircularBuffer \<Rightarrow> uint8_t \<Rightarrow> bool" where
  "is_stored b x \<longleftrightarrow> fcb_cells b ! unat (write_index b AND size_mask b) = x"

fun push_ok :: "operand_order \<Rightarrow> FastCircularBuffer \<Rightarrow> push_pc \<Rightarrow> bool" where
  "push_ok ord b Push_idle = True"
| "push_ok ord b (Push_enter x) = has_room b"
| "push_ok ord b (Push_slot x) = has_room b"
| "push_ok ord b (Push_store x w) = (has_room b \<and> w = write_index b)"
| "push_ok ord b (Push_count1 x) = (has_room b \<and> is_stored b x)"
| "push_ok ord b (Push_count2 x v) = (has_room b \<and> is_stored b x \<and>
     (case ord of Write_first \<Rightarrow> v = write_index b | Read_first \<Rightarrow> write_index b - v \<le> size_mask b))"
| "push_ok ord b (Push_full x) = False"
| "push_ok ord b (Push_drop x w) = False"
| "push_ok ord b (Push_next x) = (has_room b \<and> is_stored b x)"
| "push_ok ord b (Push_advance x w) = (has_room b \<and> is_stored b x \<and> w = write_index b)"

fun pop_ok :: "operand_order \<Rightarrow> FastCircularBuffer \<Rightarrow> pop_pc \<Rightarrow> bool" where
  "pop_ok ord b Pop_idle = True"
| "pop_ok ord b Pop_count1 = True"
| "pop_ok ord b (Pop_count2 v) =
     (case ord of Write_first \<Rightarrow> unat (v - read_index b) \<le> held b | Read_first \<Rightarrow> v = read_index b)"
| "pop_ok ord b Pop_slot = (fcb_contents b \<noteq> [])"
| "pop_ok ord b (Pop_load r) = (fcb_contents b \<noteq> [] \<and> r = read_index b)"
| "pop_ok ord b (Pop_next x) = (fcb_contents b \<noteq> [] \<and> x = hd (fcb_contents b))"
| "pop_ok ord b (Pop_advance x r) =
     (fcb_contents b \<noteq> [] \<and> x = hd (fcb_contents b) \<and> r = read_index b)"

definition spsc_ok :: "operand_order \<Rightarrow> spsc \<Rightarrow> bool" where
  "spsc_ok ord s \<longleftrightarrow> fcb_inv (shared s) \<and> push_ok ord (shared s) (producer s)
     \<and> pop_ok ord (shared s) (consumer s)"

text \<open>The steps of one side keep what the other side relies on.\<close>

lemma pop_ok_append:
  assumes "pop_ok ord b pc" and "read_index b' = read_index b"
    and "fcb_contents b' = fcb_contents b @ ys"
  shows "pop_ok ord b' pc"
proof -
  have "held b' = held b + length ys"
    using assms(3) length_fcb_contents [of b'] by simp
  then show ?thesis
    using assms by (cases pc) (auto split: operand_order.splits)
qed

lemma push_ok_fewer:
  assumes "push_ok ord b pc" and "write_index b' = write_index b" "buffer b' = buffer b"
    and "size_mask b' = size_mask b" and "held b' \<le> held b"
  shows "push_ok ord b' pc"
proof -
  have "has_room b \<Longrightarrow> has_room b'" and "is_stored b x \<Longrightarrow> is_stored b' x" for x
    using assms by (auto simp: has_room_def is_stored_def fcb_capacity_def fcb_cells_def)
  then show ?thesis
    using assms by (cases pc) (auto split: operand_order.splits)
qed

text \<open>One step of a push: it changes the contents only in its last step, where it returns.\<close>

lemma push_step_ok:
  assumes "fcb_inv b" and "push_ok ord b pc"
  shows "\<exists>b' pc' ret. push_step ord b pc = Inr (b', pc', ret) \<and> fcb_inv b' \<and> push_ok ord b' pc'
    \<and> read_index b' = read_index b \<and> fcb_capacity b' = fcb_capacity b \<and> ret \<in> {None, Some ERR_NONE}
    \<and> fcb_contents b' = fcb_contents b @ (if ret = None then [] else push_argument pc)
    \<and> push_argument pc = (if ret = None then [] else push_argument pc) @ push_argument pc'"
proof (cases pc)
  case (Push_enter x)
  then show ?thesis using assms fcb_invD(2) [OF assms(1)] by auto
next
  case (Push_store x w)
  then have room: "held b < fcb_capacity b" and w: "w = write_index b"
    using assms(2) by (auto simp: has_room_def)
  obtain xs where xs: "buffer b = Some xs" "unat (write_index b AND size_mask b) < length xs"
      "arr_set (buffer b) (write_index b AND size_mask b) x
        = Inr (Some (xs[unat (write_index b AND size_mask b) := x]))"
      "fcb_inv (b\<lparr>buffer := Some (xs[unat (write_index b AND size_mask b) := x])\<rparr>)"
      "fcb_contents (b\<lparr>buffer := Some (xs[unat (write_index b AND size_mask b) := x])\<rparr>) = fcb_contents b"
    using fcb_store_free_cell [OF assms(1) room, of x] by blast
  then show ?thesis
    using Push_store room
    by (auto simp: w has_room_def is_stored_def fcb_cells_def fcb_capacity_def)
next
  case (Push_count1 x)
  then show ?thesis
    using assms fcb_room [OF assms(1)]
    by (auto simp: first_operand_def has_room_def split: operand_order.splits)
next
  case (Push_count2 x v)
  then have "\<not> size_mask b < count_after_operand ord v b"
    using assms fcb_room [OF assms(1)]
    by (auto simp: count_after_operand_def has_room_def split: operand_order.splits)
  then show ?thesis using assms Push_count2 by auto
next
  case (Push_advance x w)
  then have "held b < fcb_capacity b" "fcb_cells b ! unat (write_index b AND size_mask b) = x"
      "w = write_index b"
    using assms(2) by (auto simp: has_room_def is_stored_def)
  then show ?thesis
    using fcb_advance_write [OF assms(1)] Push_advance by (auto simp: fcb_capacity_def)
qed (use assms in auto)

lemma pop_step_ok:
  assumes "fcb_inv b" and "pop_ok ord b pc"
  shows "\<exists>b' pc' ret. pop_step ord b pc = Inr (b', pc', ret) \<and> fcb_inv b' \<and> pop_ok ord b' pc'
    \<and> write_index b' = write_index b \<and> buffer b' = buffer b \<and> size_mask b' = size_mask b
    \<and> fcb_contents b = popped_bytes (case ret of None \<Rightarrow> [] | Some r \<Rightarrow> [r]) @ fcb_contents b'
    \<and> ret \<in> {None, Some (Popped ERR_EMPTY 0)} \<union> (\<lambda>x. Some (Popped ERR_NONE x)) ` UNIV"
proof (cases pc)
  case Pop_count1
  then show ?thesis
    using assms by (auto simp: first_operand_def split: operand_order.splits)
next
  case (Pop_count2 v)
  then have "count_after_operand ord v b \<noteq> 0 \<Longrightarrow> fcb_contents b \<noteq> []"
    using assms(2)
    by (auto simp: count_after_operand_def fcb_contents_def split: operand_order.splits)
  then show ?thesis using assms Pop_count2 by auto
next
  case (Pop_load r)
  then show ?thesis using assms fcb_load_oldest(1) [OF assms(1)] by auto
next
  case (Pop_advance x r)
  then show ?thesis using assms fcb_load_oldest(2,3) [OF assms(1)] by auto
qed (use assms in auto)

text \<open>A whole step of the shared system.\<close>

lemma begin_push_ok:
  assumes "spsc_ok ord s" and "producer s = Push_idle"
  shows "spsc_ok ord (begin_push s)"
  using assms fcb_room [of "shared s"]
  by (auto simp: spsc_ok_def begin_push_def has_room_def split: list.split)

lemma spsc_producer_step:
  assumes "spsc_ok ord s" and "producer s \<noteq> Push_idle"
  shows "\<exists>s' b pc ret. spsc_step ord Producer s = Inr s' \<and> spsc_ok ord s'
    \<and> push_step ord (shared s) (producer s) = Inr (b, pc, ret)
    \<and> s' = s\<lparr>shared := b, producer := pc,
        pushed := pushed s @ (if ret = None then [] else push_argument (producer s))\<rparr>
    \<and> fcb_capacity b = fcb_capacity (shared s) \<and> read_index b = read_index (shared s)
    \<and> fcb_contents b = fcb_contents (shared s) @ (if ret = None then [] else push_argument (producer s))
    \<and> push_argument (producer s) = (if ret = None then [] else push_argument (producer s)) @ push_argument pc"
proof -
  obtain b pc ret where step: "push_step ord (shared s) (producer s) = Inr (b, pc, ret)" "fcb_inv b"
      "push_ok ord b pc" "read_index b = read_index (shared s)" "fcb_capacity b = fcb_capacity (shared s)"
      "fcb_contents b = fcb_contents (shared s) @ (if ret = None then [] else push_argument (producer s))"
      "push_argument (producer s) = (if ret = None then [] else push_argument (producer s)) @ push_argument pc"
    using push_step_ok [of "shared s" ord "producer s"] assms(1) by (auto simp: spsc_ok_def)
  moreover have "pop_ok ord b (consumer s)"
    using pop_ok_append step(4,6) assms(1) by (auto simp: spsc_ok_def)
  ultimately show ?thesis using assms(2) by (simp add: spsc_ok_def)
qed

lemma spsc_consumer_step:
  assumes "spsc_ok ord s" and "consumer s \<noteq> Pop_idle"
  shows "\<exists>s' b pc ret. spsc_step ord Consumer s = Inr s' \<and> spsc_ok ord s'
    \<and> pop_step ord (shared s) (consumer s) = Inr (b, pc, ret)
    \<and> s' = s\<lparr>shared := b, consumer := pc,
        replies := replies s @ (case ret of None \<Rightarrow> [] | Some r \<Rightarrow> [r])\<rparr>
    \<and> fcb_capacity b = fcb_capacity (shared s) \<and> write_index b = write_index (shared s)
    \<and> fcb_contents (shared s)
        = popped_bytes (case ret of None \<Rightarrow> [] | Some r \<Rightarrow> [r]) @ fcb_contents b"
proof -
  obtain b pc ret where step: "pop_step ord (shared s) (consumer s) = Inr (b, pc, ret)" "fcb_inv b"
      "pop_ok ord b pc" "write_index b = write_index (shared s)" "buffer b = buffer (shared s)"
      "size_mask b = size_mask (shared s)"
      "fcb_contents (shared s) = popped_bytes (case ret of None \<Rightarrow> [] | Some r \<Rightarrow> [r]) @ fcb_contents b"
    using pop_step_ok [of "shared s" ord "consumer s"] assms(1) by (auto simp: spsc_ok_def)
  moreover have "held b \<le> held (shared s)"
    using arg_cong [OF step(7), of length] by simp
  then have "push_ok ord b (producer s)"
    using push_ok_fewer [OF _ step(4-6)] assms(1) by (auto simp: spsc_ok_def)
  ultimately show ?thesis using assms(2) by (simp add: spsc_ok_def fcb_capacity_def)
qed

text \<open>
  The account of the bytes: those popped followed by those held are those held at the start followed by
  those pushed, and those pushed, under way and waiting are those given to the producer.
\<close>

definition spsc_account :: "uint8_t list \<Rightarrow> uint8_t list \<Rightarrow> spsc \<Rightarrow> bool" where
  "spsc_account q bs s \<longleftrightarrow>
     popped_bytes (replies s) @ fcb_contents (shared s) = q @ pushed s
     \<and> pushed s @ push_argument (producer s) @ to_push s = bs"

lemma begin_push_account:
  "producer s = Push_idle \<Longrightarrow> spsc_account q bs s \<Longrightarrow> spsc_account q bs (begin_push s)"
  by (auto simp: spsc_account_def begin_push_def split: list.split)

lemma begin_push_frame [simp]:
  "shared (begin_push s) = shared s" "consumer (begin_push s) = consumer s"
  "replies (begin_push s) = replies s" "pushed (begin_push s) = pushed s"
  by (auto simp: begin_push_def split: list.split)

lemma spsc_step_ok:
  assumes "spsc_ok ord s" and "spsc_account q bs s"
  shows "\<exists>s'. spsc_step ord t s = Inr s' \<and> spsc_ok ord s' \<and> spsc_account q bs s'
    \<and> fcb_capacity (shared s') = fcb_capacity (shared s)"
proof (cases t)
  case Producer
  show ?thesis
  proof (cases "producer s = Push_idle")
    case True
    then show ?thesis
      using Producer begin_push_ok [OF assms(1)] begin_push_account [OF True assms(2)] by simp
  next
    case False
    then show ?thesis
      using spsc_producer_step [OF assms(1) False] assms(2) Producer
      by (fastforce simp: spsc_account_def split: if_splits)
  qed
next
  case Consumer
  show ?thesis
  proof (cases "consumer s = Pop_idle")
    case True
    then show ?thesis using Consumer assms by (auto simp: spsc_ok_def spsc_account_def)
  next
    case False
    then show ?thesis
      using spsc_consumer_step [OF assms(1) False] assms(2) Consumer
      by (auto simp: spsc_account_def)
  qed
qed

lemma spsc_run_ok:
  assumes "spsc_ok ord s" and "spsc_account q bs s"
  shows "\<exists>s'. spsc_run ord s sched = Inr s' \<and> spsc_ok ord s' \<and> spsc_account q bs s'
    \<and> fcb_capacity (shared s') = fcb_capacity (shared s)"
  using assms
proof (induction sched arbitrary: s)
  case (Cons t sched)
  then show ?case using spsc_step_ok [OF Cons.prems, of t] by fastforce
qed simp

lemma spsc_start_ok:
  assumes "fcb_inv b"
  shows "spsc_ok ord (spsc_start b bs)" and "spsc_account (fcb_contents b) bs (spsc_start b bs)"
  using assms by (auto simp: spsc_ok_def spsc_account_def spsc_start_def)

section \<open>Where a call takes effect\<close>

text \<open>
  The operation that takes effect in a step: a push in the store of the write index; a pop that returns a
  byte in the store of the read index; a pop that reports an empty buffer in its load of the write index.
\<close>

fun spsc_effect :: "operand_order \<Rightarrow> side \<Rightarrow> spsc \<Rightarrow> ring_op list" where
  "spsc_effect ord Producer s =
     (case producer s of Push_advance x w \<Rightarrow> [Push x] | _ \<Rightarrow> [])"
| "spsc_effect ord Consumer s =
     (case consumer s of
        Pop_advance x r \<Rightarrow> [Pop]
      | Pop_count1 \<Rightarrow> (if ord = Write_first \<and> write_index (shared s) = read_index (shared s) then [Pop] else [])
      | Pop_count2 v \<Rightarrow> (if ord = Read_first \<and> write_index (shared s) = v then [Pop] else [])
      | _ \<Rightarrow> [])"

fun spsc_effects :: "operand_order \<Rightarrow> spsc \<Rightarrow> side list \<Rightarrow> ring_op list" where
  "spsc_effects ord s [] = []"
| "spsc_effects ord s (t # ts) =
     (case spsc_step ord t s of Inl _ \<Rightarrow> [] | Inr s' \<Rightarrow> spsc_effect ord t s @ spsc_effects ord s' ts)"

definition pop_replies :: "ring_reply list \<Rightarrow> ring_reply list" where
  "pop_replies rs = filter (\<lambda>r. case r of Popped _ _ \<Rightarrow> True | Pushed _ \<Rightarrow> False) rs"

text \<open>The reply of a pop that has taken effect and has not returned yet.\<close>

definition reply_due :: "operand_order \<Rightarrow> spsc \<Rightarrow> ring_reply list" where
  "reply_due ord s = (case consumer s of
      Pop_count2 v \<Rightarrow> (if ord = Write_first \<and> v = read_index (shared s) then [Popped ERR_EMPTY 0] else [])
    | _ \<Rightarrow> [])"

text \<open>The abstract queue makes the same step, and replies what the call replies or will reply.\<close>

lemma pop_replies_simps [simp]:
  "pop_replies [] = []" "pop_replies (Pushed e # rs) = pop_replies rs"
  "pop_replies (Popped e x # rs) = Popped e x # pop_replies rs"
  by (simp_all add: pop_replies_def)

lemma fcb_contents_Nil_iff: "fcb_contents b = [] \<longleftrightarrow> write_index b = read_index b"
  by (simp add: fcb_contents_def)

lemma producer_effect:
  assumes "spsc_ok ord s" and "spsc_step ord Producer s = Inr s'"
  shows "pop_replies (spec_session (fcb_capacity (shared s)) (fcb_contents (shared s))
      (spsc_effect ord Producer s @ ops))
    = pop_replies (spec_session (fcb_capacity (shared s')) (fcb_contents (shared s')) ops)"
    and "replies s' @ reply_due ord s' = replies s @ reply_due ord s"
proof -
  show "pop_replies (spec_session (fcb_capacity (shared s)) (fcb_contents (shared s))
      (spsc_effect ord Producer s @ ops))
    = pop_replies (spec_session (fcb_capacity (shared s')) (fcb_contents (shared s')) ops)"
  proof (cases "producer s")
    case (Push_advance x w)
    then have "held (shared s) < fcb_capacity (shared s)"
      using assms(1) by (simp add: spsc_ok_def has_room_def)
    then show ?thesis
      using spsc_producer_step [OF assms(1)] assms(2) Push_advance by (auto simp: ring_push_def)
  qed (use assms spsc_producer_step [OF assms(1)] in \<open>auto split: if_splits\<close>)
  show "replies s' @ reply_due ord s' = replies s @ reply_due ord s"
    using spsc_producer_step [OF assms(1)] assms(2)
    by (cases "producer s = Push_idle") (auto simp: reply_due_def split: pop_pc.splits)
qed

lemma consumer_effect:
  assumes "spsc_ok ord s" and "spsc_step ord Consumer s = Inr s'"
  shows "\<exists>rs. (\<forall>ops. pop_replies (spec_session (fcb_capacity (shared s)) (fcb_contents (shared s))
        (spsc_effect ord Consumer s @ ops))
      = rs @ pop_replies (spec_session (fcb_capacity (shared s')) (fcb_contents (shared s')) ops))
    \<and> replies s @ reply_due ord s @ rs = replies s' @ reply_due ord s'"
proof (cases "consumer s")
  case Pop_count1
  then show ?thesis
    using assms fcb_contents_Nil_iff [of "shared s"]
    by (cases ord; cases "write_index (shared s) = read_index (shared s)")
       (auto simp: reply_due_def first_operand_def)
next
  case (Pop_count2 v)
  then show ?thesis
    using assms fcb_contents_Nil_iff [of "shared s"]
    by (cases ord; cases "count_after_operand ord v (shared s) = 0")
       (auto simp: reply_due_def count_after_operand_def spsc_ok_def)
next
  case (Pop_advance x r)
  then have "fcb_contents (shared s) \<noteq> []" "x = hd (fcb_contents (shared s))"
    using assms(1) by (auto simp: spsc_ok_def)
  then obtain q where q: "fcb_contents (shared s) = x # q" by (cases "fcb_contents (shared s)") auto
  then show ?thesis
    using spsc_consumer_step [OF assms(1)] assms(2) Pop_advance by (auto simp: reply_due_def)
qed (use assms spsc_consumer_step [OF assms(1)] in \<open>auto simp: reply_due_def\<close>)

lemma spsc_effects_replies:
  assumes "spsc_ok ord s" and "spsc_account q bs s" and "spsc_run ord s sched = Inr s'"
  shows "replies s @ reply_due ord s
      @ pop_replies (spec_session (fcb_capacity (shared s)) (fcb_contents (shared s)) (spsc_effects ord s sched))
    = replies s' @ reply_due ord s'"
  using assms
proof (induction sched arbitrary: s)
  case (Cons t sched)
  obtain s1 where s1: "spsc_step ord t s = Inr s1" "spsc_ok ord s1" "spsc_account q bs s1"
    using spsc_step_ok [OF Cons.prems(1,2), of t] by blast
  have run: "spsc_run ord s1 sched = Inr s'" using Cons.prems(3) s1(1) by simp
  note IH = Cons.IH [OF s1(2,3) run]
  show ?case
  proof (cases t)
    case Producer
    note effect = producer_effect [OF Cons.prems(1), of s1]
    have due: "replies s @ reply_due ord s @ zs = replies s1 @ reply_due ord s1 @ zs" for zs
      using arg_cong [OF effect(2), of "\<lambda>l. l @ zs"] s1(1) Producer by simp
    show ?thesis using IH effect(1) s1(1) Producer by (simp add: due del: spsc_step.simps)
  next
    case Consumer
    then obtain rs where rs: "\<And>ops. pop_replies (spec_session (fcb_capacity (shared s))
          (fcb_contents (shared s)) (spsc_effect ord t s @ ops))
        = rs @ pop_replies (spec_session (fcb_capacity (shared s1)) (fcb_contents (shared s1)) ops)"
        "replies s @ reply_due ord s @ rs = replies s1 @ reply_due ord s1"
      using consumer_effect [OF Cons.prems(1), of s1] s1(1) by blast
    have due: "replies s @ reply_due ord s @ rs @ zs = replies s1 @ reply_due ord s1 @ zs" for zs
      using arg_cong [OF rs(2), of "\<lambda>l. l @ zs"] by simp
    show ?thesis using IH rs(1) s1(1) by (simp add: due del: spsc_step.simps spsc_effect.simps)
  qed
qed (simp add: pop_replies_def)

section \<open>Progress\<close>

text \<open>
  How many steps a side is from the end of its call, when it does not start another one. A pop that
  has loaded a write index equal to its read index will report an empty buffer and start over.
\<close>

fun push_left :: "push_pc \<Rightarrow> nat" where
  "push_left Push_idle = 9"
| "push_left (Push_enter x) = 8"
| "push_left (Push_slot x) = 7"
| "push_left (Push_store x w) = 6"
| "push_left (Push_count1 x) = 5"
| "push_left (Push_count2 x v) = 4"
| "push_left (Push_full x) = 3"
| "push_left (Push_drop x w) = 2"
| "push_left (Push_next x) = 1"
| "push_left (Push_advance x w) = 0"

fun pop_left :: "operand_order \<Rightarrow> FastCircularBuffer \<Rightarrow> pop_pc \<Rightarrow> nat" where
  "pop_left ord b Pop_idle = 6"
| "pop_left ord b Pop_count1 = 5"
| "pop_left ord b (Pop_count2 v) = (if ord = Write_first \<and> v = read_index b then 7 else 4)"
| "pop_left ord b Pop_slot = 3"
| "pop_left ord b (Pop_load r) = 2"
| "pop_left ord b (Pop_next x) = 1"
| "pop_left ord b (Pop_advance x r) = 0"

text \<open>The bytes that the consumer has not been given yet.\<close>

definition outstanding :: "spsc \<Rightarrow> nat" where
  "outstanding s = length (fcb_contents (shared s)) + length (push_argument (producer s)) + length (to_push s)"

lemma outstanding_begin_push: "producer s = Push_idle \<Longrightarrow> outstanding (begin_push s) = outstanding s"
  by (auto simp: outstanding_def begin_push_def split: list.split)

lemma push_step_left:
  "push_step ord b pc = Inr (b', pc', ret) \<Longrightarrow> size_mask b \<noteq> 0 \<Longrightarrow> pc \<noteq> Push_idle \<Longrightarrow>
   ret \<noteq> None \<and> push_argument pc \<noteq> [] \<or> push_left pc' < push_left pc"
  by (cases pc) (auto split: if_splits)

lemma producer_outstanding:
  assumes "spsc_ok ord s" and "spsc_step ord Producer s = Inr s'"
  shows "outstanding s' = outstanding s"
    and "fcb_contents (shared s) \<noteq> [] \<Longrightarrow> fcb_contents (shared s') \<noteq> []
      \<and> pop_left ord (shared s') (consumer s') = pop_left ord (shared s) (consumer s)"
    and "fcb_contents (shared s) = [] \<Longrightarrow> outstanding s > 0 \<Longrightarrow>
      fcb_contents (shared s') \<noteq> [] \<or> push_left (producer s') < push_left (producer s)"
proof -
  show "outstanding s' = outstanding s"
    using spsc_producer_step [OF assms(1)] assms(2) outstanding_begin_push [of s]
    by (cases "producer s = Push_idle")
       (auto simp: outstanding_def simp del: length_fcb_contents split: if_splits)
  have pop_left: "pop_left ord b' pc = pop_left ord b pc" if "read_index b' = read_index b" for b b' pc
    using that by (cases pc) auto
  show "fcb_contents (shared s') \<noteq> []
      \<and> pop_left ord (shared s') (consumer s') = pop_left ord (shared s) (consumer s)"
    if "fcb_contents (shared s) \<noteq> []"
    using spsc_producer_step [OF assms(1)] assms(2) that
    by (cases "producer s = Push_idle") (auto intro: pop_left)
  show "fcb_contents (shared s') \<noteq> [] \<or> push_left (producer s') < push_left (producer s)"
    if empty: "fcb_contents (shared s) = []" and some: "outstanding s > 0"
  proof (cases "producer s = Push_idle")
    case True
    then obtain x xs where "to_push s = x # xs"
      using empty some by (cases "to_push s") (auto simp: outstanding_def simp del: length_fcb_contents)
    then show ?thesis
      using True assms empty by (auto simp: begin_push_def fcb_contents_Nil_iff)
  next
    case False
    have "size_mask (shared s) \<noteq> 0" using assms(1) fcb_invD(2) by (auto simp: spsc_ok_def)
    then show ?thesis
      using spsc_producer_step [OF assms(1) False] push_step_left [OF _ _ False] assms(2) empty
      by (fastforce simp del: spsc_step.simps)
  qed
qed

lemma consumer_outstanding:
  assumes "spsc_ok ord s" and "spsc_step ord Consumer s = Inr s'"
  shows "producer s' = producer s \<and> to_push s' = to_push s"
    and "fcb_contents (shared s) = [] \<Longrightarrow> fcb_contents (shared s') = [] \<and> outstanding s' = outstanding s"
    and "fcb_contents (shared s) \<noteq> [] \<Longrightarrow> outstanding s' < outstanding s
      \<or> outstanding s' = outstanding s \<and> fcb_contents (shared s') \<noteq> []
        \<and> pop_left ord (shared s') (consumer s') < pop_left ord (shared s) (consumer s)"
proof -
  show frame: "producer s' = producer s \<and> to_push s' = to_push s"
    using assms(2) by (auto split: if_splits prod.splits)
  show "fcb_contents (shared s') = [] \<and> outstanding s' = outstanding s" if "fcb_contents (shared s) = []"
    using spsc_consumer_step [OF assms(1)] assms(2) that frame
    by (cases "consumer s = Pop_idle") (auto simp: outstanding_def simp del: length_fcb_contents)
  show "outstanding s' < outstanding s
      \<or> outstanding s' = outstanding s \<and> fcb_contents (shared s') \<noteq> []
        \<and> pop_left ord (shared s') (consumer s') < pop_left ord (shared s) (consumer s)"
    if ne: "fcb_contents (shared s) \<noteq> []"
  proof (cases "consumer s")
    case Pop_count1
    then show ?thesis
      using assms ne by (auto simp: outstanding_def first_operand_def fcb_contents_Nil_iff)
  next
    case (Pop_count2 v)
    then show ?thesis
      using assms ne
      by (auto simp: outstanding_def count_after_operand_def fcb_contents_Nil_iff spsc_ok_def
          split: if_splits operand_order.splits)
  next
    case (Pop_load r)
    then show ?thesis
      using spsc_consumer_step [OF assms(1)] assms ne by (auto simp: outstanding_def)
  next
    case (Pop_advance x r)
    have "length (fcb_contents (shared s')) < length (fcb_contents (shared s))"
      using spsc_consumer_step [OF assms(1)] assms(2) Pop_advance by fastforce
    then show ?thesis using assms(2) Pop_advance by (auto simp: outstanding_def)
  qed (use assms ne in \<open>auto simp: outstanding_def\<close>)
qed

text \<open>
  An endless schedule, and the state after a number of its steps. It is fair when each side gets a step
  again and again.
\<close>

fun spsc_at :: "operand_order \<Rightarrow> spsc \<Rightarrow> (nat \<Rightarrow> side) \<Rightarrow> nat \<Rightarrow> spsc result" where
  "spsc_at ord s sched 0 = Inr s"
| "spsc_at ord s sched (Suc k) = r_bind (spsc_at ord s sched k) (spsc_step ord (sched k))"

definition fair :: "(nat \<Rightarrow> side) \<Rightarrow> bool" where
  "fair sched \<longleftrightarrow> (\<forall>t k. \<exists>j\<ge>k. sched j = t)"

lemma spsc_at_ok:
  assumes "spsc_ok ord s" and "spsc_account q bs s"
  shows "\<exists>s'. spsc_at ord s sched k = Inr s' \<and> spsc_ok ord s' \<and> spsc_account q bs s'"
proof (induction k)
  case (Suc k)
  then show ?case using spsc_step_ok by (auto simp del: spsc_step.simps) blast
qed (use assms in simp)

text \<open>
  A measure that a side lowers with each of its own steps, and that the other side does not raise, is
  brought down to the goal by a fair schedule.
\<close>

lemma fair_goal:
  assumes "fair sched" and "P (x k)"
    and step: "\<And>k. P (x k) \<Longrightarrow> Q (x (Suc k))
      \<or> P (x (Suc k)) \<and> (if sched k = t then m (x (Suc k)) < (m (x k) :: nat) else m (x (Suc k)) \<le> m (x k))"
  shows "\<exists>j>k. Q (x j)"
  using assms(2)
proof (induction "m (x k)" arbitrary: k rule: less_induct)
  case less
  obtain j where j: "k \<le> j" "sched j = t" using assms(1) by (auto simp: fair_def)
  have "(\<exists>i>k. Q (x i)) \<or> P (x i) \<and> m (x i) \<le> m (x k)" if "k \<le> i" "i \<le> j" for i
    using that
  proof (induction i rule: dec_induct)
    case (step i)
    then show ?case using assms(3) [of i] by (metis Suc_leD le_imp_less_Suc le_trans less_imp_le)
  qed (use less.prems in simp)
  then have "(\<exists>i>k. Q (x i)) \<or> P (x j) \<and> m (x j) \<le> m (x k)" using j by blast
  then consider "\<exists>i>k. Q (x i)" | "P (x j)" "m (x j) \<le> m (x k)" by blast
  then show ?case
  proof cases
    case 2
    then show ?thesis
      using step [of j] j less.hyps [of "Suc j"]
      by (metis (full_types) Suc_leD le_imp_less_Suc le_less_trans less_le_trans less_trans)
  qed
qed

lemma fair_pop:
  assumes "fair sched" and run: "\<And>k. spsc_ok ord (x k) \<and> spsc_step ord (sched k) (x k) = Inr (x (Suc k))"
    and "fcb_contents (shared (x k)) \<noteq> []"
  shows "\<exists>j>k. outstanding (x j) < outstanding (x k)"
proof (rule fair_goal [OF assms(1), where t = Consumer and m = "\<lambda>s. pop_left ord (shared s) (consumer s)"
      and P = "\<lambda>s. fcb_contents (shared s) \<noteq> [] \<and> outstanding s = outstanding (x k)"])
  fix i assume "fcb_contents (shared (x i)) \<noteq> [] \<and> outstanding (x i) = outstanding (x k)"
  then show "outstanding (x (Suc i)) < outstanding (x k)
    \<or> (fcb_contents (shared (x (Suc i))) \<noteq> [] \<and> outstanding (x (Suc i)) = outstanding (x k))
      \<and> (if sched i = Consumer
         then pop_left ord (shared (x (Suc i))) (consumer (x (Suc i))) < pop_left ord (shared (x i)) (consumer (x i))
         else pop_left ord (shared (x (Suc i))) (consumer (x (Suc i))) \<le> pop_left ord (shared (x i)) (consumer (x i)))"
    using run [of i] producer_outstanding(1,2) [of ord "x i" "x (Suc i)"]
      consumer_outstanding(3) [of ord "x i" "x (Suc i)"]
    by (cases "sched i") auto
qed (use assms(3) in simp)

lemma fair_push:
  assumes "fair sched" and run: "\<And>k. spsc_ok ord (x k) \<and> spsc_step ord (sched k) (x k) = Inr (x (Suc k))"
    and "fcb_contents (shared (x k)) = []" and "outstanding (x k) > 0"
  shows "\<exists>j>k. fcb_contents (shared (x j)) \<noteq> [] \<and> outstanding (x j) = outstanding (x k)"
proof (rule fair_goal [OF assms(1), where t = Producer and m = "\<lambda>s. push_left (producer s)"
      and P = "\<lambda>s. fcb_contents (shared s) = [] \<and> outstanding s = outstanding (x k)"])
  fix i assume "fcb_contents (shared (x i)) = [] \<and> outstanding (x i) = outstanding (x k)"
  then show "fcb_contents (shared (x (Suc i))) \<noteq> [] \<and> outstanding (x (Suc i)) = outstanding (x k)
    \<or> (fcb_contents (shared (x (Suc i))) = [] \<and> outstanding (x (Suc i)) = outstanding (x k))
      \<and> (if sched i = Producer then push_left (producer (x (Suc i))) < push_left (producer (x i))
         else push_left (producer (x (Suc i))) \<le> push_left (producer (x i)))"
    using run [of i] producer_outstanding(1,3) [of ord "x i" "x (Suc i)"]
      consumer_outstanding(1,2) [of ord "x i" "x (Suc i)"] assms(4)
    by (cases "sched i") auto
qed (use assms(3) in simp)

lemma fair_drain:
  assumes "fair sched" and run: "\<And>k. spsc_ok ord (x k) \<and> spsc_step ord (sched k) (x k) = Inr (x (Suc k))"
  shows "\<exists>j. outstanding (x j) = 0"
proof -
  have "\<exists>j. outstanding (x j) = 0" for k :: nat
  proof (induction "outstanding (x k)" arbitrary: k rule: less_induct)
    case less
    have "\<exists>j>k. outstanding (x j) < outstanding (x k)" if some: "outstanding (x k) > 0"
    proof (cases "fcb_contents (shared (x k)) = []")
      case True
      then obtain j where "j > k" "fcb_contents (shared (x j)) \<noteq> []" "outstanding (x j) = outstanding (x k)"
        using fair_push [OF assms True some] by blast
      then show ?thesis using fair_pop [OF assms, of j] less_trans by metis
    next
      case False
      then show ?thesis using fair_pop [OF assms] by blast
    qed
    then show ?case using less.hyps by (cases "outstanding (x k) = 0") auto
  qed
  then show ?thesis by blast
qed

section \<open>The steps of a call that is not interrupted\<close>

text \<open>Both calls run step by step, alone, until they return; the number of steps bounds the loop.\<close>

fun push_alone ::
    "operand_order \<Rightarrow> nat \<Rightarrow> FastCircularBuffer \<Rightarrow> push_pc \<Rightarrow> (ErrorCodes \<times> FastCircularBuffer) option result" where
  "push_alone ord 0 b pc = Inr None"
| "push_alone ord (Suc n) b pc =
     r_bind (push_step ord b pc) (\<lambda>(b', pc', ret).
       case ret of None \<Rightarrow> push_alone ord n b' pc' | Some e \<Rightarrow> Inr (Some (e, b')))"

fun pop_alone ::
    "operand_order \<Rightarrow> nat \<Rightarrow> FastCircularBuffer \<Rightarrow> pop_pc \<Rightarrow> (ring_reply \<times> FastCircularBuffer) option result" where
  "pop_alone ord 0 b pc = Inr None"
| "pop_alone ord (Suc n) b pc =
     r_bind (pop_step ord b pc) (\<lambda>(b', pc', ret).
       case ret of None \<Rightarrow> pop_alone ord n b' pc' | Some e \<Rightarrow> Inr (Some (e, b')))"

lemma count_operands: "count_after_operand ord (first_operand ord b) b = write_index b - read_index b"
  by (cases ord) (simp_all add: count_after_operand_def first_operand_def)

lemma arr_set_cases: "\<exists>f. arr_set a i v = Inl f \<or> (\<exists>xs. a = Some xs \<and> arr_set a i v = Inr (Some (xs[unat i := v])))"
  by (cases a) (auto simp: arr_set_def)

lemma spsc_reaches_all:
  assumes "fcb_inv b" and "fair sched"
  shows "\<exists>k s. spsc_at ord (spsc_start b bs) sched k = Inr s
    \<and> popped_bytes (replies s) = fcb_contents b @ bs"
proof -
  let ?at = "spsc_at ord (spsc_start b bs) sched"
  have ok: "\<exists>s. ?at k = Inr s \<and> spsc_ok ord s \<and> spsc_account (fcb_contents b) bs s" for k
    using spsc_at_ok [OF spsc_start_ok [OF assms(1)]] by blast
  have run: "spsc_ok ord (projr (?at k)) \<and> spsc_step ord (sched k) (projr (?at k)) = Inr (projr (?at (Suc k)))" for k
    using ok [of k] ok [of "Suc k"] by (auto simp del: spsc_step.simps)
  obtain k where "outstanding (projr (?at k)) = 0"
    using fair_drain [OF assms(2), of ord "\<lambda>k. projr (?at k)"] run by blast
  moreover obtain s where s: "?at k = Inr s" "spsc_account (fcb_contents b) bs s" using ok by blast
  ultimately have "popped_bytes (replies s) = fcb_contents b @ bs"
    by (auto simp: spsc_account_def outstanding_def simp del: length_fcb_contents)
  then show ?thesis using s(1) by blast
qed

text \<open>An empty buffer of two cells, for the concrete runs.\<close>

definition two_cells :: FastCircularBuffer where
  "two_cells = \<lparr>buffer = Some [0, 0], read_index = 0, write_index = 0, size_mask = 1\<rparr>"

lemma two_cells_inv: "fcb_inv two_cells"
  by (simp add: two_cells_def fcb_inv_def fcb_capacity_def fcb_cells_def numeric_ops_is_power_2_sz_def)

lemma two_cells_simps [simp]: "fcb_contents two_cells = []" "fcb_capacity two_cells = 2"
  by (simp_all add: two_cells_def fcb_contents_def fcb_capacity_def)

lemma alternate_fair: "fair (\<lambda>k. if even k then Producer else Consumer)"
proof -
  have "\<exists>j\<ge>k. (if even j then Producer else Consumer) = t" for k :: nat and t
    by (cases t; intro exI [of _ "if even k \<longleftrightarrow> t = Producer then k else Suc k"]) auto
  then show ?thesis by (simp add: fair_def)
qed

section \<open>Properties\<close>

text \<open>
  C6. A fast circular buffer shared by one producer and one consumer is a first-in first-out queue under
  every interleaving of their loads and stores, as long as the producer starts a push only when there is
  room: no access faults, the bytes popped are the first of those held and pushed, in order, none lost and
  none twice, and the buffer stays well formed at every step.
\<close>

theorem spsc_fifo:
  assumes "fcb_inv b"
  shows "\<exists>s. spsc_run ord (spsc_start b bs) sched = Inr s \<and> fcb_inv (shared s)
    \<and> popped_bytes (replies s) @ fcb_contents (shared s) = fcb_contents b @ pushed s
    \<and> pushed s @ push_argument (producer s) @ to_push s = bs"
  using spsc_run_ok [OF spsc_start_ok [OF assms], of ord bs sched]
  by (auto simp: spsc_ok_def spsc_account_def)

theorem spsc_fifo_witness:
  "\<exists>s. spsc_run Read_first (spsc_start two_cells [7, 8])
        (replicate 5 Producer @ [Consumer, Consumer] @ replicate 5 Producer @ replicate 6 Consumer) = Inr s
     \<and> popped_bytes (replies s) @ fcb_contents (shared s) = pushed s"
  using spsc_fifo [OF two_cells_inv, of Read_first "[7, 8]"
      "replicate 5 Producer @ [Consumer, Consumer] @ replicate 5 Producer @ replicate 6 Consumer"]
  by (auto simp del: spsc_run.simps spsc_step.simps)

text \<open>
  C3. For a producer that starts a push only when it finds room, so that the branch of the push that overwrites the
  oldest byte is not reached, and any consumer, every call takes effect at one of its own steps: when the operations
  of the two sides are put in the order of those steps, the abstract queue gives every pop the reply that it
  returned. (That a push into a full buffer spoils this is the subject of \<open>Spsc_Overrun\<close>.)
\<close>

theorem spsc_linearizable:
  assumes "fcb_inv b"
  shows "\<exists>s. spsc_run ord (spsc_start b bs) sched = Inr s
    \<and> (consumer s = Pop_idle \<longrightarrow> replies s = pop_replies (spec_session (fcb_capacity b) (fcb_contents b)
         (spsc_effects ord (spsc_start b bs) sched)))"
proof -
  obtain s where "spsc_run ord (spsc_start b bs) sched = Inr s"
    using spsc_run_ok [OF spsc_start_ok [OF assms], of ord bs sched] by blast
  then show ?thesis
    using spsc_effects_replies [OF spsc_start_ok [OF assms], of ord bs sched s]
    by (auto simp: reply_due_def spsc_start_def)
qed

theorem spsc_linearizable_witness:
  "\<exists>s. spsc_run Write_first (spsc_start two_cells [7])
        (replicate 9 Producer @ [Consumer, Consumer, Producer, Consumer] @ replicate 7 Consumer) = Inr s
     \<and> (consumer s = Pop_idle \<longrightarrow> replies s = pop_replies (spec_session 2 [] (spsc_effects Write_first
          (spsc_start two_cells [7])
          (replicate 9 Producer @ [Consumer, Consumer, Producer, Consumer] @ replicate 7 Consumer))))"
  using spsc_linearizable [OF two_cells_inv, of Write_first "[7]"
      "replicate 9 Producer @ [Consumer, Consumer, Producer, Consumer] @ replicate 7 Consumer"]
  by (simp del: spsc_run.simps spsc_step.simps spsc_effects.simps)

text \<open>
  C12. Every byte arrives, when the producer starts a push only when it finds room and otherwise tries again: under
  every fair schedule there is a moment at which the consumer has popped the bytes that the buffer held at the start and
  all the bytes given to the producer, in this order.
\<close>

theorem spsc_delivers:
  assumes "fcb_inv b" and "fair sched"
  shows "\<exists>k s. spsc_at ord (spsc_start b bs) sched k = Inr s
    \<and> popped_bytes (replies s) = fcb_contents b @ bs"
  by (rule spsc_reaches_all [OF assms])

theorem spsc_delivers_witness:
  "\<exists>k s. spsc_at Read_first (spsc_start two_cells [7, 8, 9]) (\<lambda>k. if even k then Producer else Consumer) k = Inr s
     \<and> popped_bytes (replies s) = [7, 8, 9]"
  using spsc_delivers [OF two_cells_inv alternate_fair, of Read_first "[7, 8, 9]"] by simp

text \<open>
  The steps are those of the functions: a push and a pop that run without interruption, whatever the
  state of the buffer, return what \<open>fast_circular_buffer_push_byte\<close> and \<open>fast_circular_buffer_pop_byte\<close> return,
  leave the buffer as they do, fault when they do, and need at most ten steps.
\<close>

theorem spsc_steps_are_calls:
  "push_alone ord 10 b (Push_enter x) =
     r_bind (fast_circular_buffer_push_byte (Some b) x) (\<lambda>(e, b'). Inr (Some (e, b')))
   \<and> pop_alone ord 10 b Pop_count1 =
     r_bind (fast_circular_buffer_pop_byte (Some b) (Some 0)) (\<lambda>(e, b', v). Inr (Some (Popped e v, b')))"
proof (rule conjI)
  show "push_alone ord 10 b (Push_enter x) =
     r_bind (fast_circular_buffer_push_byte (Some b) x) (\<lambda>(e, b'). Inr (Some (e, b')))"
    using arr_set_cases [of "buffer b" "write_index b AND size_mask b" x]
    by (auto simp: fast_circular_buffer_push_byte_def fast_circular_buffer_get_count_def
        count_operands Let_def eval_nat_numeral)
  show "pop_alone ord 10 b Pop_count1 =
     r_bind (fast_circular_buffer_pop_byte (Some b) (Some 0)) (\<lambda>(e, b', v). Inr (Some (Popped e v, b')))"
    by (cases "arr_get (buffer b) (read_index b AND size_mask b)")
       (auto simp: fast_circular_buffer_pop_byte_def fast_circular_buffer_get_count_def
        count_operands Let_def eval_nat_numeral)
qed

end
