(* ===== verification/Spsc_Overrun.thy ===== *)
theory Spsc_Overrun
  imports Spsc_Fast_Buffer
begin

text \<open>
  Why the fast circular buffer of \<open>src/collections/fast_circular_buffer.c\<close> needs the discipline of \<open>Spsc_Fast_Buffer\<close> when
  it is shared: a push into a full buffer makes room by moving the read index, which a pop that is under way has
  already loaded. Both calls are those of the code; the pop is cut at its accesses, and the push interrupts it.
\<close>

section \<open>A pop interrupted by a push\<close>

text \<open>A number of steps of a pop, with its answer if it has returned within them.\<close>

fun pop_steps ::
    "operand_order \<Rightarrow> nat \<Rightarrow> FastCircularBuffer \<Rightarrow> pop_pc
     \<Rightarrow> (FastCircularBuffer \<times> pop_pc \<times> ring_reply option) result" where
  "pop_steps ord 0 b pc = Inr (b, pc, None)"
| "pop_steps ord (Suc n) b pc =
     r_bind (pop_step ord b pc) (\<lambda>(b', pc', ret).
       case ret of None \<Rightarrow> pop_steps ord n b' pc' | Some r \<Rightarrow> Inr (b', pc', Some r))"

text \<open>What the two calls return, and the buffer when both are over. Ten steps are more than a pop has.\<close>

definition overrun_pop ::
    "operand_order \<Rightarrow> nat \<Rightarrow> FastCircularBuffer \<Rightarrow> uint8_t
     \<Rightarrow> (ring_reply option \<times> ErrorCodes \<times> FastCircularBuffer) result" where
  "overrun_pop ord k b x =
     r_bind (pop_steps ord k b Pop_count1) (\<lambda>(b1, pc, early).
     r_bind (fast_circular_buffer_push_byte (Some b1) x) (\<lambda>(e, b2).
     r_bind (pop_steps ord 10 b2 pc) (\<lambda>(b3, _, late).
       Inr (if early = None then late else early, e, b3))))"

lemma pop_steps_to_load:
  assumes "read_index b \<noteq> write_index b"
  shows "pop_steps ord 3 b Pop_count1 = Inr (b, Pop_load (read_index b), None)"
  using assms by (simp add: eval_nat_numeral count_operands)

lemma pop_steps_from_load:
  assumes "arr_get (buffer b) (r AND size_mask b) = Inr y"
  shows "pop_steps ord 10 b (Pop_load r)
    = Inr (b\<lparr>read_index := read_index b + 1\<rparr>, Pop_idle, Some (Popped ERR_NONE y))"
  using assms by (simp add: eval_nat_numeral)

text \<open>The push into a full buffer stores its byte where the pop is about to read.\<close>

lemma full_push_overwrites_oldest:
  assumes "fcb_inv b" and "length (fcb_contents b) = fcb_capacity b"
    and "fast_circular_buffer_push_byte (Some b) x = Inr (e, b')"
  shows "arr_get (buffer b') (read_index b AND size_mask b') = Inr x"
proof -
  obtain xs where xs: "buffer b = Some xs" "fcb_capacity b \<le> length xs"
    using fcb_invD(1) [OF assms(1)] by blast
  have cell: "unat (write_index b AND size_mask b) = unat (read_index b AND size_mask b)"
    using fcb_write_cell [OF assms(1)] unat_and_mask [OF assms(1), of "read_index b"] assms(2) by simp
  have "unat (read_index b AND size_mask b) < length xs"
    using fcb_invD(4) [OF assms(1), of "read_index b"] xs(2) by simp
  then show ?thesis
    using assms(3) xs(1) cell fcb_invD(2) [OF assms(1)]
    by (auto simp: fast_circular_buffer_push_byte_def fast_circular_buffer_get_count_def arr_set_def arr_get_def
        Let_def split: if_splits)
qed

section \<open>Properties\<close>

text \<open>
  Without the discipline a pop can be overrun. When a pop of a full buffer has loaded the read index and a push
  comes in before it reads the cell, the pop returns the byte that was pushed last in place of the oldest, skips a
  second byte, which nobody gets, and leaves the byte it has returned in the buffer, from which it is popped again.
\<close>

theorem overrun_pop_out_of_turn:
  assumes "fcb_inv b" and "fcb_contents b = x0 # x1 # q" and "length (fcb_contents b) = fcb_capacity b"
  shows "\<exists>k b'. overrun_pop ord k b y = Inr (Some (Popped ERR_NONE y), ERR_NONE, b')
    \<and> fcb_inv b' \<and> fcb_contents b' = q @ [y]"
proof -
  obtain b2 where push: "fast_circular_buffer_push_byte (Some b) y = Inr (ERR_NONE, b2)" "fcb_inv b2"
      "fcb_contents b2 = ring_push (fcb_capacity b) (fcb_contents b) y"
    using fast_push_byte_step [OF assms(1)] by blast
  have contents: "fcb_contents b2 = x1 # q @ [y]"
    using push(3) assms(2,3) by (simp add: ring_push_def)
  have "read_index b \<noteq> write_index b" using assms(2) by (auto simp: fcb_contents_def)
  then have "pop_steps ord 3 b Pop_count1 = Inr (b, Pop_load (read_index b), None)" by (rule pop_steps_to_load)
  then have "overrun_pop ord 3 b y
      = Inr (Some (Popped ERR_NONE y), ERR_NONE, b2\<lparr>read_index := read_index b2 + 1\<rparr>)"
    using push(1) pop_steps_from_load [OF full_push_overwrites_oldest [OF assms(1,3) push(1)]]
    by (simp add: overrun_pop_def)
  then show ?thesis
    using fcb_load_oldest(2,3) [OF push(2)] contents by fastforce
qed

definition two_bytes :: FastCircularBuffer where
  "two_bytes = \<lparr>buffer = Some [5, 6], read_index = 0, write_index = 2, size_mask = 1\<rparr>"

theorem overrun_pop_out_of_turn_witness:
  "\<exists>k b'. overrun_pop Write_first k two_bytes 9 = Inr (Some (Popped ERR_NONE 9), ERR_NONE, b')
     \<and> fcb_inv b' \<and> fcb_contents b' = [9]"
proof -
  have "fcb_inv two_bytes" "fcb_capacity two_bytes = 2"
    by (simp_all add: two_bytes_def fcb_inv_def fcb_cells_def fcb_capacity_def numeric_ops_is_power_2_sz_def)
  moreover have "fcb_contents two_bytes = [5, 6]"
    by (simp add: two_bytes_def fcb_contents_def fcb_cells_def fcb_capacity_def ring_list_def upt_rec)
  ultimately show ?thesis using overrun_pop_out_of_turn [of two_bytes 5 6 "[]" Write_first 9] by simp
qed

end
