(* ===== verification/Circular_Buffer.thy ===== *)
theory Circular_Buffer
  imports Ring_Spec
begin

text \<open>
  The byte buffer of \<open>src/collections/circular_buffer.c\<close>: read and write indices taken
  modulo the declared size, and a flag that tells a full buffer from an empty one. It is
  shown to satisfy the contract \<open>overwrite_ring\<close>.
\<close>

section \<open>Model\<close>

record CircularBufferConfig =
  cfg_buffer :: "uint8_t list option"
  cfg_buffer_size :: size_t

record CircularBuffer =
  buffer :: "uint8_t list option"
  buffer_max_size :: size_t
  read_index :: size_t
  write_index :: size_t
  buffer_is_empty :: bool

definition circular_buffer_validate_config :: "CircularBufferConfig \<Rightarrow> ErrorCodes result" where
  "circular_buffer_validate_config config =
     r_bind (assert_ptr (cfg_buffer config)) (\<lambda>_.
       if cfg_buffer_size config = 0 then Inr ERR_INVALID_ARG else Inr ERR_NONE)"

definition circular_buffer_init ::
    "CircularBuffer option \<Rightarrow> CircularBufferConfig option \<Rightarrow> (ErrorCodes \<times> CircularBuffer) result" where
  "circular_buffer_init buf config =
     r_bind (assert_ptr buf) (\<lambda>b.
     r_bind (assert_ptr config) (\<lambda>cfg.
     r_bind (circular_buffer_validate_config cfg) (\<lambda>res.
       if res \<noteq> ERR_NONE then Inr (res, b)
       else Inr (ERR_NONE,
                 b\<lparr>read_index := 0, write_index := 0, buffer_is_empty := True,
                   buffer := cfg_buffer cfg, buffer_max_size := cfg_buffer_size cfg\<rparr>))))"

definition circular_buffer_deinit :: "CircularBuffer option \<Rightarrow> CircularBuffer result" where
  "circular_buffer_deinit buf =
     r_bind (assert_ptr buf) (\<lambda>b.
       Inr (b\<lparr>buffer_max_size := 0, read_index := 0, write_index := 0, buffer_is_empty := True\<rparr>))"

definition circular_buffer_get_count :: "CircularBuffer option \<Rightarrow> size_t result" where
  "circular_buffer_get_count buf =
     r_bind (assert_ptr buf) (\<lambda>b.
       Inr (if write_index b > read_index b then write_index b - read_index b
            else if write_index b < read_index b
            then buffer_max_size b - read_index b + write_index b
            else if buffer_is_empty b then 0 else buffer_max_size b))"

definition circular_buffer_push_byte ::
    "CircularBuffer option \<Rightarrow> uint8_t \<Rightarrow> (ErrorCodes \<times> CircularBuffer) result" where
  "circular_buffer_push_byte buf byte =
     r_bind (assert_ptr buf) (\<lambda>b.
       if buffer_max_size b = 0 then Inr (ERR_NO_MEM, b)
       else r_bind (arr_set (buffer b) (write_index b) byte) (\<lambda>cells.
         let b1 = b\<lparr>buffer := cells\<rparr>;
             b2 = (if write_index b1 = read_index b1 \<and> \<not> buffer_is_empty b1
                   then b1\<lparr>read_index := (read_index b1 + 1) mod buffer_max_size b1\<rparr>
                   else b1);
             b3 = b2\<lparr>write_index := (write_index b2 + 1) mod buffer_max_size b2\<rparr>
         in Inr (ERR_NONE, b3\<lparr>buffer_is_empty := False\<rparr>)))"

definition circular_buffer_pop_byte ::
    "CircularBuffer option \<Rightarrow> uint8_t option \<Rightarrow> (ErrorCodes \<times> CircularBuffer \<times> uint8_t) result" where
  "circular_buffer_pop_byte buf byte =
     r_bind (assert_ptr buf) (\<lambda>b.
     r_bind (assert_ptr byte) (\<lambda>old.
     r_bind (circular_buffer_get_count (Some b)) (\<lambda>n.
       if n = 0 then Inr (ERR_EMPTY, b, old)
       else r_bind (arr_get (buffer b) (read_index b)) (\<lambda>x.
         let b1 = b\<lparr>read_index := (read_index b + 1) mod buffer_max_size b\<rparr>
         in Inr (ERR_NONE, b1\<lparr>buffer_is_empty := (read_index b1 = write_index b1)\<rparr>, x)))))"

text \<open>
  The invariant between calls, the number of bytes held as a natural number, and the
  bytes themselves, oldest first.
\<close>

definition cb_cells :: "CircularBuffer \<Rightarrow> uint8_t list" where
  "cb_cells b = (case buffer b of None \<Rightarrow> [] | Some xs \<Rightarrow> xs)"

definition cb_inv :: "CircularBuffer \<Rightarrow> bool" where
  "cb_inv b \<longleftrightarrow> buffer b \<noteq> None \<and> unat (buffer_max_size b) \<le> length (cb_cells b)
     \<and> read_index b < buffer_max_size b \<and> write_index b < buffer_max_size b
     \<and> (buffer_is_empty b \<longrightarrow> read_index b = write_index b)"

definition cb_count :: "CircularBuffer \<Rightarrow> nat" where
  "cb_count b =
     (let n = unat (buffer_max_size b); r = unat (read_index b); w = unat (write_index b) in
      if r < w then w - r else if w < r then n - r + w
      else if buffer_is_empty b then 0 else n)"

definition cb_contents :: "CircularBuffer \<Rightarrow> uint8_t list" where
  "cb_contents b =
     ring_list (cb_cells b) (unat (buffer_max_size b)) (unat (read_index b)) (cb_count b)"

section \<open>Facts about the indices\<close>

lemma unat_Suc_mod_size:
  "i < (m :: size_t) \<Longrightarrow> unat ((i + 1) mod m) = Suc (unat i) mod unat m"
  by (simp add: unat_mod unat_Suc_size [of i m] word_less_nat_alt)

lemma cb_invD:
  assumes "cb_inv b"
  shows "\<exists>xs. buffer b = Some xs \<and> cb_cells b = xs \<and> unat (buffer_max_size b) \<le> length xs"
    and "unat (read_index b) < unat (buffer_max_size b)"
    and "unat (write_index b) < unat (buffer_max_size b)"
    and "buffer_is_empty b \<Longrightarrow> read_index b = write_index b"
    and "buffer_max_size b \<noteq> 0"
  using assms by (auto simp: cb_inv_def cb_cells_def word_less_nat_alt)

lemma cb_count_le: "cb_inv b \<Longrightarrow> cb_count b \<le> unat (buffer_max_size b)"
  using cb_invD(2,3) by (fastforce simp: cb_count_def Let_def)

lemma cb_write_index:
  "cb_inv b \<Longrightarrow>
   unat (write_index b) = (unat (read_index b) + cb_count b) mod unat (buffer_max_size b)"
  using cb_invD(2-4) [of b] by (auto simp: cb_count_def Let_def)

lemma cb_count_full:
  "cb_inv b \<Longrightarrow> cb_count b = unat (buffer_max_size b) \<longleftrightarrow>
     write_index b = read_index b \<and> \<not> buffer_is_empty b"
  using cb_invD(2-5) [of b]
  by (cases "unat (read_index b)" "unat (write_index b)" rule: linorder_cases)
     (auto simp: cb_count_def Let_def)

text \<open>A state is known from its cells, its read index and its count.\<close>

lemma cb_count_eqI:
  assumes "cb_inv b" and "c \<le> unat (buffer_max_size b)"
    and "unat (write_index b) = (unat (read_index b) + c) mod unat (buffer_max_size b)"
    and "buffer_is_empty b \<longleftrightarrow> c = 0"
  shows "cb_count b = c"
proof -
  let ?n = "unat (buffer_max_size b)" and ?r = "unat (read_index b)"
  have r: "?r < ?n" using assms(1) by (rule cb_invD)
  have "(?r + c) mod ?n = (if ?r + c < ?n then ?r + c else ?r + c - ?n)"
    using r assms(2) by (simp add: mod_if)
  then show ?thesis
    using r assms by (auto simp: cb_count_def Let_def split: if_splits)
qed

lemma circular_buffer_get_count_eq:
  assumes "cb_inv b"
  shows "\<exists>n. circular_buffer_get_count (Some b) = Inr n \<and> unat n = cb_count b"
proof -
  note bounds = cb_invD(2,3) [OF assms]
  have "unat (buffer_max_size b - read_index b + write_index b) =
      unat (buffer_max_size b) - unat (read_index b) + unat (write_index b)"
    if "unat (write_index b) < unat (read_index b)"
  proof -
    have "unat (buffer_max_size b - read_index b) + unat (write_index b) < unat (buffer_max_size b)"
      using bounds that by (simp add: unat_sub_size)
    then show ?thesis
      using bounds unat_size_lt [of "buffer_max_size b"]
      by (simp add: unat_word_ariths(1) unat_sub_size del: unat_size_lt)
  qed
  then show ?thesis
    using bounds
    by (auto simp: circular_buffer_get_count_def cb_count_def Let_def word_less_nat_alt unat_sub_size)
qed

section \<open>The operations on the contents\<close>

lemma circular_buffer_push_byte_step:
  assumes "cb_inv b"
  shows "\<exists>b'. circular_buffer_push_byte (Some b) x = Inr (ERR_NONE, b') \<and> cb_inv b'
           \<and> buffer_max_size b' = buffer_max_size b
           \<and> cb_contents b' = ring_push (unat (buffer_max_size b)) (cb_contents b) x"
proof -
  let ?n = "unat (buffer_max_size b)" and ?r = "unat (read_index b)" and ?w = "unat (write_index b)"
  obtain xs where xs: "buffer b = Some xs" "cb_cells b = xs" "?n \<le> length xs"
    using cb_invD(1) [OF assms] by blast
  note bounds = cb_invD(2,3,5) [OF assms]
  let ?full = "write_index b = read_index b \<and> \<not> buffer_is_empty b"
  let ?b' = "b\<lparr>buffer := Some (xs[?w := x]),
      read_index := (if ?full then (read_index b + 1) mod buffer_max_size b else read_index b),
      write_index := (write_index b + 1) mod buffer_max_size b, buffer_is_empty := False\<rparr>"
  let ?c = "if ?full then ?n else Suc (cb_count b)"
  have run: "circular_buffer_push_byte (Some b) x = Inr (ERR_NONE, ?b')"
    using xs bounds by (simp add: circular_buffer_push_byte_def c_simps Let_def)
  have lt: "read_index b < buffer_max_size b" "write_index b < buffer_max_size b"
    using bounds by (simp_all add: word_less_nat_alt)
  have inv: "cb_inv ?b'"
    using xs bounds lt by (simp add: cb_inv_def cb_cells_def word_less_nat_alt unat_mod)
  have c: "?c \<le> ?n"
    using cb_count_le [OF assms] cb_count_full [OF assms] by auto
  have w: "?w = (?r + cb_count b) mod ?n" by (rule cb_write_index [OF assms])
  have "cb_count ?b' = ?c"
  proof (rule cb_count_eqI [OF inv])
    show "unat (write_index ?b') = (unat (read_index ?b') + ?c) mod unat (buffer_max_size ?b')"
    proof (cases ?full)
      case True
      then show ?thesis using lt by (simp add: unat_Suc_mod_size)
    next
      case False
      show ?thesis
        unfolding if_not_P [OF False] using lt w by (simp add: unat_Suc_mod_size mod_Suc_eq)
    qed
  qed (use c bounds in auto)
  then have contents: "cb_contents ?b' = ring_list (xs[?w := x]) ?n (unat (read_index ?b')) ?c"
    by (simp add: cb_contents_def cb_cells_def)
  have "cb_contents ?b' = ring_push ?n (cb_contents b) x"
  proof (cases ?full)
    case True
    then have n: "cb_count b = ?n" using cb_count_full [OF assms] by simp
    have "cb_contents ?b' = ring_list (xs[?r mod ?n := x]) ?n (Suc ?r) ?n"
      using contents True lt bounds
      by (simp add: unat_Suc_mod_size) (rule ring_list_cong, simp)
    then show ?thesis
      using ring_list_overwrite [of ?n xs ?r x] xs bounds n
      by (simp add: ring_push_def cb_contents_def [of b])
  next
    case False
    then have "cb_count b < ?n"
      using cb_count_full [OF assms] cb_count_le [OF assms] by (auto simp: le_less)
    moreover have "cb_contents ?b' = ring_list (xs[?w := x]) ?n ?r (Suc (cb_count b))"
      using contents unfolding if_not_P [OF False] by simp
    ultimately show ?thesis
      using xs ring_list_append [of "cb_count b" ?n xs ?r x] w
      by (simp add: ring_push_def cb_contents_def [of b])
  qed
  then show ?thesis using run inv by auto
qed

lemma circular_buffer_pop_byte_step:
  assumes "cb_inv b" and "cb_contents b = x # q"
  shows "\<exists>b'. circular_buffer_pop_byte (Some b) (Some old) = Inr (ERR_NONE, b', x) \<and> cb_inv b'
           \<and> buffer_max_size b' = buffer_max_size b \<and> cb_contents b' = q"
proof -
  let ?n = "unat (buffer_max_size b)" and ?r = "unat (read_index b)"
  obtain xs where xs: "buffer b = Some xs" "cb_cells b = xs" "?n \<le> length xs"
    using cb_invD(1) [OF assms(1)] by blast
  note bounds = cb_invD(2,3,5) [OF assms(1)]
  obtain c where c: "cb_count b = Suc c"
    using assms(2) by (cases "cb_count b") (auto simp: cb_contents_def)
  obtain n where n: "circular_buffer_get_count (Some b) = Inr n" "unat n = cb_count b"
    using circular_buffer_get_count_eq [OF assms(1)] by blast
  have x: "x = xs ! ?r" "q = ring_list xs ?n (Suc ?r) c"
    using assms(2) c xs(2) bounds by (auto simp: cb_contents_def ring_list_Suc)
  let ?r' = "(read_index b + 1) mod buffer_max_size b"
  let ?b' = "b\<lparr>read_index := ?r', buffer_is_empty := (?r' = write_index b)\<rparr>"
  have "n \<noteq> 0" using n(2) c by auto
  then have run: "circular_buffer_pop_byte (Some b) (Some old) = Inr (ERR_NONE, ?b', x)"
    using n xs bounds x by (simp add: circular_buffer_pop_byte_def c_simps Let_def)
  have lt: "read_index b < buffer_max_size b" using bounds by (simp add: word_less_nat_alt)
  have r': "unat ?r' = Suc ?r mod ?n" by (rule unat_Suc_mod_size [OF lt])
  have inv: "cb_inv ?b'"
    using xs bounds by (simp add: cb_inv_def cb_cells_def word_less_nat_alt unat_mod)
  have w: "unat (write_index b) = (Suc ?r + c) mod ?n"
    using cb_write_index [OF assms(1)] c by simp
  have "cb_count ?b' = c"
  proof (rule cb_count_eqI [OF inv])
    show "c \<le> unat (buffer_max_size ?b')" using cb_count_le [OF assms(1)] c by simp
    show "unat (write_index ?b') = (unat (read_index ?b') + c) mod unat (buffer_max_size ?b')"
      using w r' by (simp add: mod_add_left_eq)
    have "(Suc ?r + 0) mod ?n \<noteq> (Suc ?r + c) mod ?n" if "0 < c"
      using add_mod_neq [OF that, of ?n "Suc ?r"] cb_count_le [OF assms(1)] c by simp
    then have "unat ?r' = unat (write_index b) \<longleftrightarrow> c = 0"
      using r' w by auto
    then show "buffer_is_empty ?b' = (c = 0)" by simp
  qed
  then have "cb_contents ?b' = q"
    using x(2) r' xs by (simp add: cb_contents_def cb_cells_def) (rule ring_list_cong, simp)
  then show ?thesis using run inv by auto
qed

section \<open>The contract\<close>

interpretation cb: overwrite_ring
  "\<lambda>b. circular_buffer_push_byte (Some b)" "\<lambda>b old. circular_buffer_pop_byte (Some b) (Some old)"
  "\<lambda>b. circular_buffer_get_count (Some b)" cb_inv "\<lambda>b. unat (buffer_max_size b)" cb_contents
proof unfold_locales
  fix b x old
  assume inv: "cb_inv b"
  show "0 < unat (buffer_max_size b)" using cb_invD(2) [OF inv] by simp
  show "length (cb_contents b) \<le> unat (buffer_max_size b)"
    using cb_count_le [OF inv] by (simp add: cb_contents_def)
  show "\<exists>n. circular_buffer_get_count (Some b) = Inr n \<and> unat n = length (cb_contents b)"
    using circular_buffer_get_count_eq [OF inv] by (simp add: cb_contents_def)
  show "\<exists>s'. circular_buffer_push_byte (Some b) x = Inr (ERR_NONE, s') \<and> cb_inv s'
      \<and> unat (buffer_max_size s') = unat (buffer_max_size b)
      \<and> cb_contents s' = ring_push (unat (buffer_max_size b)) (cb_contents b) x"
    using circular_buffer_push_byte_step [OF inv, of x] by auto
  show "circular_buffer_pop_byte (Some b) (Some old) = Inr (ERR_EMPTY, b, old)"
    if "cb_contents b = []"
    using circular_buffer_get_count_eq [OF inv] that
    by (auto simp: circular_buffer_pop_byte_def cb_contents_def)
  show "\<exists>s'. circular_buffer_pop_byte (Some b) (Some old) = Inr (ERR_NONE, s', x) \<and> cb_inv s'
      \<and> unat (buffer_max_size s') = unat (buffer_max_size b) \<and> cb_contents s' = q"
    if "cb_contents b = x # q" for q
    using circular_buffer_pop_byte_step [OF inv that, of old] by auto
qed

lemma circular_buffer_init_state:
  assumes "cfg_buffer cfg = Some xs" and "cfg_buffer_size cfg \<noteq> 0"
    and "unat (cfg_buffer_size cfg) \<le> length xs"
  shows "\<exists>b. circular_buffer_init (Some junk) (Some cfg) = Inr (ERR_NONE, b) \<and> cb_inv b
           \<and> buffer_max_size b = cfg_buffer_size cfg \<and> cb_contents b = []"
  using assms
  by (auto simp: circular_buffer_init_def circular_buffer_validate_config_def cb_inv_def
      cb_cells_def cb_contents_def cb_count_def word_less_nat_alt unat_gt_0)

section \<open>Properties\<close>

text \<open>
  C1. A circular buffer initialised with \<open>n > 0\<close> cells answers every session of pushes and pops,
  of any length, exactly as the abstract overwriting queue of capacity \<open>n\<close> does; in particular no
  call faults.
\<close>

theorem circular_buffer_session:
  assumes "cfg_buffer cfg = Some xs" and "cfg_buffer_size cfg \<noteq> 0"
    and "unat (cfg_buffer_size cfg) \<le> length xs"
  shows "\<exists>b. circular_buffer_init (Some junk) (Some cfg) = Inr (ERR_NONE, b)
    \<and> run_session (\<lambda>b. circular_buffer_push_byte (Some b))
        (\<lambda>b old. circular_buffer_pop_byte (Some b) (Some old)) b ops
      = Inr (spec_session (unat (cfg_buffer_size cfg)) [] ops)"
  using circular_buffer_init_state [OF assms, of junk] cb.session_refines [of _ ops] by fastforce

theorem circular_buffer_session_witness:
  "\<exists>b. circular_buffer_init (Some \<lparr>buffer = None, buffer_max_size = 0, read_index = 0,
        write_index = 0, buffer_is_empty = False\<rparr>)
      (Some \<lparr>cfg_buffer = Some [0, 0], cfg_buffer_size = 2\<rparr>) = Inr (ERR_NONE, b)
    \<and> run_session (\<lambda>b. circular_buffer_push_byte (Some b))
        (\<lambda>b old. circular_buffer_pop_byte (Some b) (Some old)) b [Push 1, Push 2, Push 3, Pop, Pop, Pop]
      = Inr [Pushed ERR_NONE, Pushed ERR_NONE, Pushed ERR_NONE, Popped ERR_NONE 2, Popped ERR_NONE 3,
             Popped ERR_EMPTY 0]"
  using circular_buffer_session [of "\<lparr>cfg_buffer = Some [0, 0], cfg_buffer_size = 2\<rparr>" "[0, 0]"
      _ "[Push 1, Push 2, Push 3, Pop, Pop, Pop]"]
  by (simp add: ring_push_def)

text \<open>
  Pushing any number of bytes keeps the newest ones: afterwards the buffer holds the last
  \<open>n\<close> of what it held followed by what was pushed, and \<open>circular_buffer_get_count\<close> is their number.
\<close>

theorem circular_buffer_keeps_newest:
  assumes "cb_inv b"
  shows "\<exists>b' k. push_all (\<lambda>b. circular_buffer_push_byte (Some b)) b bs = Inr b'
    \<and> cb_contents b' = newest (unat (buffer_max_size b)) (cb_contents b @ bs)
    \<and> circular_buffer_get_count (Some b') = Inr k
    \<and> unat k = min (unat (buffer_max_size b)) (length (cb_contents b) + length bs)"
proof -
  obtain b' where b': "push_all (\<lambda>b. circular_buffer_push_byte (Some b)) b bs = Inr b'" "cb_inv b'"
    "cb_contents b' = newest (unat (buffer_max_size b)) (cb_contents b @ bs)"
    using cb.push_all_newest [OF assms] by blast
  then show ?thesis using cb.count_eq [OF b'(2)] by (auto simp: newest_def)
qed

theorem circular_buffer_keeps_newest_witness:
  "\<exists>b'. push_all (\<lambda>b. circular_buffer_push_byte (Some b))
      \<lparr>buffer = Some [7, 8], buffer_max_size = 2, read_index = 1, write_index = 0,
       buffer_is_empty = False\<rparr> [9, 10] = Inr b' \<and> cb_contents b' = [9, 10]"
  using circular_buffer_keeps_newest [of "\<lparr>buffer = Some [7, 8], buffer_max_size = 2, read_index = 1,
      write_index = 0, buffer_is_empty = False\<rparr>" "[9, 10]"]
  by (auto simp: cb_inv_def cb_cells_def cb_contents_def cb_count_def newest_def ring_list_def)

end
