(* ===== verification/Spsc_Circular_Buffer.thy ===== *)
theory Spsc_Circular_Buffer
  imports Circular_Buffer
begin

text \<open>
  The circular buffer of \<open>src/collections/circular_buffer.c\<close> used from an interrupt handler and the main
  loop, as its header says it can be (``Supports single consumer single producer applications (like ISR
  to main thread, etc.)''). \<open>put_step\<close> and \<open>take_step\<close> are the bodies of \<open>circular_buffer_push_byte\<close> and
  \<open>circular_buffer_pop_byte\<close> cut at every load and store of a field that the calls change, in program order;
  the order of the loads in an expression on both indices is a parameter. Without interruption the
  steps are the functions. An interrupt runs a whole call of the other side between two steps.
\<close>

section \<open>Model\<close>

definition first_index :: "operand_order \<Rightarrow> CircularBuffer \<Rightarrow> size_t" where
  "first_index ord b = (case ord of Write_first \<Rightarrow> write_index b | Read_first \<Rightarrow> read_index b)"

text \<open>The write and the read index of an expression whose first operand has been loaded as \<open>v\<close>.\<close>

definition both_indices :: "operand_order \<Rightarrow> size_t \<Rightarrow> CircularBuffer \<Rightarrow> size_t \<times> size_t" where
  "both_indices ord v b =
     (case ord of Write_first \<Rightarrow> (v, read_index b) | Read_first \<Rightarrow> (write_index b, v))"

datatype put_pc =
    Put_idle
  | Put_enter uint8_t
  | Put_slot uint8_t
  | Put_store uint8_t size_t
  | Put_same1
  | Put_same2 size_t
  | Put_flag
  | Put_full
  | Put_drop size_t
  | Put_next
  | Put_advance size_t
  | Put_mark

fun put_step ::
    "operand_order \<Rightarrow> CircularBuffer \<Rightarrow> put_pc
     \<Rightarrow> (CircularBuffer \<times> put_pc \<times> ErrorCodes option) result" where
  "put_step ord b Put_idle = Inr (b, Put_idle, None)"
| "put_step ord b (Put_enter x) =
     (if buffer_max_size b = 0 then Inr (b, Put_idle, Some ERR_NO_MEM) else Inr (b, Put_slot x, None))"
| "put_step ord b (Put_slot x) = Inr (b, Put_store x (write_index b), None)"
| "put_step ord b (Put_store x w) =
     r_bind (arr_set (buffer b) w x) (\<lambda>cells. Inr (b\<lparr>buffer := cells\<rparr>, Put_same1, None))"
| "put_step ord b Put_same1 = Inr (b, Put_same2 (first_index ord b), None)"
| "put_step ord b (Put_same2 v) =
     (case both_indices ord v b of (w, r) \<Rightarrow>
        if w = r then Inr (b, Put_flag, None) else Inr (b, Put_next, None))"
| "put_step ord b Put_flag =
     (if \<not> buffer_is_empty b then Inr (b, Put_full, None) else Inr (b, Put_next, None))"
| "put_step ord b Put_full = Inr (b, Put_drop (read_index b), None)"
| "put_step ord b (Put_drop r) =
     Inr (b\<lparr>read_index := (r + 1) mod buffer_max_size b\<rparr>, Put_next, None)"
| "put_step ord b Put_next = Inr (b, Put_advance (write_index b), None)"
| "put_step ord b (Put_advance w) =
     Inr (b\<lparr>write_index := (w + 1) mod buffer_max_size b\<rparr>, Put_mark, None)"
| "put_step ord b Put_mark = Inr (b\<lparr>buffer_is_empty := False\<rparr>, Put_idle, Some ERR_NONE)"

text \<open>
  A pop: \<open>Take_gt\<close> to \<open>Take_flag\<close> are \<open>circular_buffer_get_count\<close>, which loads the indices again for each
  comparison and for the difference; \<open>Take_same\<close> is the comparison for the flag.
\<close>

datatype take_pc =
    Take_idle
  | Take_gt1
  | Take_gt2 size_t
  | Take_diff1
  | Take_diff2 size_t
  | Take_lt1
  | Take_lt2 size_t
  | Take_wrap1
  | Take_wrap2 size_t
  | Take_flag
  | Take_slot
  | Take_load size_t
  | Take_next uint8_t
  | Take_advance uint8_t size_t
  | Take_same1 uint8_t
  | Take_same2 uint8_t size_t
  | Take_mark uint8_t bool

definition take_counted ::
    "CircularBuffer \<Rightarrow> size_t \<Rightarrow> (CircularBuffer \<times> take_pc \<times> ring_reply option) result" where
  "take_counted b n =
     (if n = 0 then Inr (b, Take_idle, Some (Popped ERR_EMPTY 0)) else Inr (b, Take_slot, None))"

fun take_step ::
    "operand_order \<Rightarrow> CircularBuffer \<Rightarrow> take_pc
     \<Rightarrow> (CircularBuffer \<times> take_pc \<times> ring_reply option) result" where
  "take_step ord b Take_idle = Inr (b, Take_idle, None)"
| "take_step ord b Take_gt1 = Inr (b, Take_gt2 (first_index ord b), None)"
| "take_step ord b (Take_gt2 v) =
     (case both_indices ord v b of (w, r) \<Rightarrow>
        if w > r then Inr (b, Take_diff1, None) else Inr (b, Take_lt1, None))"
| "take_step ord b Take_diff1 = Inr (b, Take_diff2 (first_index ord b), None)"
| "take_step ord b (Take_diff2 v) =
     (case both_indices ord v b of (w, r) \<Rightarrow> take_counted b (w - r))"
| "take_step ord b Take_lt1 = Inr (b, Take_lt2 (first_index ord b), None)"
| "take_step ord b (Take_lt2 v) =
     (case both_indices ord v b of (w, r) \<Rightarrow>
        if w < r then Inr (b, Take_wrap1, None) else Inr (b, Take_flag, None))"
| "take_step ord b Take_wrap1 = Inr (b, Take_wrap2 (first_index ord b), None)"
| "take_step ord b (Take_wrap2 v) =
     (case both_indices ord v b of (w, r) \<Rightarrow> take_counted b (buffer_max_size b - r + w))"
| "take_step ord b Take_flag =
     take_counted b (if buffer_is_empty b then 0 else buffer_max_size b)"
| "take_step ord b Take_slot = Inr (b, Take_load (read_index b), None)"
| "take_step ord b (Take_load r) =
     r_bind (arr_get (buffer b) r) (\<lambda>x. Inr (b, Take_next x, None))"
| "take_step ord b (Take_next x) = Inr (b, Take_advance x (read_index b), None)"
| "take_step ord b (Take_advance x r) =
     Inr (b\<lparr>read_index := (r + 1) mod buffer_max_size b\<rparr>, Take_same1 x, None)"
| "take_step ord b (Take_same1 x) = Inr (b, Take_same2 x (first_index ord b), None)"
| "take_step ord b (Take_same2 x v) =
     (case both_indices ord v b of (w, r) \<Rightarrow> Inr (b, Take_mark x (r = w), None))"
| "take_step ord b (Take_mark x e) =
     Inr (b\<lparr>buffer_is_empty := e\<rparr>, Take_idle, Some (Popped ERR_NONE x))"

text \<open>A number of steps of a call, with its answer if it has returned within them.\<close>

fun put_steps ::
    "operand_order \<Rightarrow> nat \<Rightarrow> CircularBuffer \<Rightarrow> put_pc
     \<Rightarrow> (CircularBuffer \<times> put_pc \<times> ErrorCodes option) result" where
  "put_steps ord 0 b pc = Inr (b, pc, None)"
| "put_steps ord (Suc n) b pc =
     r_bind (put_step ord b pc) (\<lambda>(b', pc', ret).
       case ret of None \<Rightarrow> put_steps ord n b' pc' | Some e \<Rightarrow> Inr (b', pc', Some e))"

fun take_steps ::
    "operand_order \<Rightarrow> nat \<Rightarrow> CircularBuffer \<Rightarrow> take_pc
     \<Rightarrow> (CircularBuffer \<times> take_pc \<times> ring_reply option) result" where
  "take_steps ord 0 b pc = Inr (b, pc, None)"
| "take_steps ord (Suc n) b pc =
     r_bind (take_step ord b pc) (\<lambda>(b', pc', ret).
       case ret of None \<Rightarrow> take_steps ord n b' pc' | Some e \<Rightarrow> Inr (b', pc', Some e))"

text \<open>
  A push that is interrupted after \<open>k\<close> of its steps by a pop, and a pop that is interrupted by a push:
  what the two calls return, and the buffer when both are over. Twenty steps are more than a call has.
\<close>

definition interrupted_push ::
    "operand_order \<Rightarrow> nat \<Rightarrow> CircularBuffer \<Rightarrow> uint8_t
     \<Rightarrow> (ErrorCodes option \<times> ring_reply \<times> CircularBuffer) result" where
  "interrupted_push ord k b x =
     r_bind (put_steps ord k b (Put_enter x)) (\<lambda>(b1, pc, early).
     r_bind (circular_buffer_pop_byte (Some b1) (Some 0)) (\<lambda>(e, b2, y).
     r_bind (put_steps ord 20 b2 pc) (\<lambda>(b3, _, late).
       Inr (if early = None then late else early, Popped e y, b3))))"

definition interrupted_pop ::
    "operand_order \<Rightarrow> nat \<Rightarrow> CircularBuffer \<Rightarrow> uint8_t
     \<Rightarrow> (ring_reply option \<times> ErrorCodes \<times> CircularBuffer) result" where
  "interrupted_pop ord k b x =
     r_bind (take_steps ord k b Take_gt1) (\<lambda>(b1, pc, early).
     r_bind (circular_buffer_push_byte (Some b1) x) (\<lambda>(e, b2).
     r_bind (take_steps ord 20 b2 pc) (\<lambda>(b3, _, late).
       Inr (if early = None then late else early, e, b3))))"

section \<open>The steps without interruption\<close>

lemma both_indices_first: "both_indices ord (first_index ord b) b = (write_index b, read_index b)"
  by (cases ord) (simp_all add: both_indices_def first_index_def)

lemma steps_Suc [simp]:
  "put_step ord b pc = Inr (b', pc', None) \<Longrightarrow> put_steps ord (Suc n) b pc = put_steps ord n b' pc'"
  "put_step ord b pc = Inr (b', pc', Some e) \<Longrightarrow> put_steps ord (Suc n) b pc = Inr (b', pc', Some e)"
  "put_step ord b pc = Inl f \<Longrightarrow> put_steps ord (Suc n) b pc = Inl f"
  "take_step ord b qc = Inr (b', qc', None) \<Longrightarrow> take_steps ord (Suc n) b qc = take_steps ord n b' qc'"
  "take_step ord b qc = Inr (b', qc', Some r) \<Longrightarrow> take_steps ord (Suc n) b qc = Inr (b', qc', Some r)"
  "take_step ord b qc = Inl f \<Longrightarrow> take_steps ord (Suc n) b qc = Inl f"
  by simp_all

declare put_steps.simps(2) [simp del] take_steps.simps(2) [simp del]

lemma put_steps_call:
  "put_steps ord 12 b (Put_enter x) =
     r_bind (circular_buffer_push_byte (Some b) x) (\<lambda>(e, b'). Inr (b', Put_idle, Some e))"
  by (cases "arr_set (buffer b) (write_index b) x"; cases "write_index b = read_index b";
      cases "buffer_is_empty b"; cases "buffer_max_size b = 0")
     (simp_all add: circular_buffer_push_byte_def both_indices_first eval_nat_numeral Let_def)

lemma take_steps_call:
  "take_steps ord 16 b Take_gt1 =
     r_bind (circular_buffer_pop_byte (Some b) (Some 0)) (\<lambda>(e, b', v). Inr (b', Take_idle, Some (Popped e v)))"
proof (cases "read_index b" "write_index b" rule: linorder_cases)
  case less
  then show ?thesis
    by (cases "arr_get (buffer b) (read_index b)")
       (auto simp add: circular_buffer_pop_byte_def circular_buffer_get_count_def both_indices_first
        eval_nat_numeral Let_def take_counted_def)
next
  case equal
  then show ?thesis
    by (cases "arr_get (buffer b) (read_index b)"; cases "buffer_is_empty b"; cases "buffer_max_size b = 0")
       (auto simp add: circular_buffer_pop_byte_def circular_buffer_get_count_def both_indices_first
        eval_nat_numeral Let_def take_counted_def)
next
  case greater
  then show ?thesis
    by (cases "arr_get (buffer b) (read_index b)"; cases "buffer_max_size b - read_index b + write_index b = 0")
       (auto simp add: circular_buffer_pop_byte_def circular_buffer_get_count_def both_indices_first
        eval_nat_numeral Let_def take_counted_def)
qed

section \<open>A push interrupted before it clears the flag\<close>

text \<open>The first eight steps of a push into an empty buffer: all but the store of the flag.\<close>

lemma put_before_mark:
  assumes "cb_inv b" and "read_index b = write_index b" and "buffer_is_empty b" and "buffer b = Some xs"
  shows "put_steps ord 8 b (Put_enter x) = Inr (b\<lparr>buffer := Some (xs[unat (write_index b) := x]),
    write_index := (write_index b + 1) mod buffer_max_size b\<rparr>, Put_mark, None)"
proof -
  have "unat (write_index b) < length xs"
    using assms(1,4) by (auto simp: cb_inv_def cb_cells_def word_less_nat_alt)
  then show ?thesis
    using assms cb_invD(5) [OF assms(1)]
    by (simp add: both_indices_def first_index_def arr_set_def eval_nat_numeral split: operand_order.split)
qed

lemma Suc_mod_neq:
  assumes "i < (m :: size_t)" and "2 \<le> m"
  shows "(i + 1) mod m \<noteq> i"
proof
  assume "(i + 1) mod m = i"
  then have "Suc (unat i) mod unat m = unat i" using unat_Suc_mod_size [OF assms(1)] by simp
  moreover have "unat i < unat m" "2 \<le> unat m" using assms by (simp_all add: word_less_nat_alt word_le_nat_alt)
  ultimately show False by (cases "Suc (unat i) = unat m") auto
qed

lemma Suc_mod_less: "i < (m :: size_t) \<Longrightarrow> (i + 1) mod m < m"
  by (simp add: word_less_nat_alt unat_mod)

text \<open>While the indices differ the flag is not looked at, so a pop does not see that it is out of date.\<close>

lemma pop_ignores_flag:
  assumes "circular_buffer_pop_byte (Some (b\<lparr>buffer_is_empty := f\<rparr>)) (Some old) = Inr (ERR_NONE, b', y)"
    and "write_index b \<noteq> read_index b"
  shows "circular_buffer_pop_byte (Some b) (Some old) = Inr (ERR_NONE, b', y)"
proof -
  have "circular_buffer_get_count (Some (b\<lparr>buffer_is_empty := f\<rparr>)) = circular_buffer_get_count (Some b)"
    using assms(2) by (auto simp: circular_buffer_get_count_def)
  then show ?thesis
    using assms(1) by (auto simp: circular_buffer_pop_byte_def Let_def split: if_splits)
qed

lemma cb_contents_Nil_iff:
  "cb_inv b \<Longrightarrow> cb_contents b = [] \<longleftrightarrow> read_index b = write_index b \<and> buffer_is_empty b"
  using cb_invD(2-5) [of b] by (auto simp: cb_contents_def cb_count_def Let_def)

text \<open>A buffer that is empty and whose flag says otherwise reports itself full.\<close>

lemma false_full:
  assumes "cb_inv b" and "cb_contents b = []"
  shows "cb_inv (b\<lparr>buffer_is_empty := False\<rparr>)"
    and "circular_buffer_get_count (Some (b\<lparr>buffer_is_empty := False\<rparr>)) = Inr (buffer_max_size b)"
  using assms cb_contents_Nil_iff [OF assms(1)]
  by (auto simp: cb_inv_def cb_cells_def circular_buffer_get_count_def)

lemma interrupted_push_full:
  assumes "cb_inv b" and "cb_contents b = []" and "2 \<le> buffer_max_size b"
  shows "\<exists>b'. interrupted_push ord 8 b x = Inr (Some ERR_NONE, Popped ERR_NONE x, b'\<lparr>buffer_is_empty := False\<rparr>)
    \<and> cb_inv b' \<and> cb_contents b' = [] \<and> buffer_max_size b' = buffer_max_size b"
proof -
  obtain xs where xs: "buffer b = Some xs" using assms(1) by (auto simp: cb_inv_def)
  have rw: "read_index b = write_index b" "buffer_is_empty b"
    using assms(2) cb_contents_Nil_iff [OF assms(1)] by auto
  define b1 where "b1 = b\<lparr>buffer := Some (xs[unat (write_index b) := x]),
    write_index := (write_index b + 1) mod buffer_max_size b\<rparr>"
  have steps: "put_steps ord 8 b (Put_enter x) = Inr (b1, Put_mark, None)"
    using put_before_mark [OF assms(1) rw xs] by (simp add: b1_def)
  have ne: "write_index b1 \<noteq> read_index b1"
    using Suc_mod_neq [of "write_index b" "buffer_max_size b"] assms(1,3) rw by (auto simp: b1_def cb_inv_def)
  obtain c where c: "circular_buffer_push_byte (Some b) x = Inr (ERR_NONE, c)" "cb_inv c"
      "buffer_max_size c = buffer_max_size b" "cb_contents c = [x]"
    using cb.push_step [OF assms(1), of x] cb.capacity_pos [OF assms(1)] assms(2)
    by (auto simp: ring_push_def)
  then have "c = b1\<lparr>buffer_is_empty := False\<rparr>"
    using rw xs by (auto simp: circular_buffer_push_byte_def b1_def arr_set_def Let_def split: if_splits)
  moreover obtain d where d: "circular_buffer_pop_byte (Some c) (Some 0) = Inr (ERR_NONE, d, x)" "cb_inv d"
      "cb_contents d = []" "buffer_max_size d = buffer_max_size c"
    using cb.pop_step [OF c(2,4), of 0] by auto
  ultimately have "circular_buffer_pop_byte (Some b1) (Some 0) = Inr (ERR_NONE, d, x)"
    using pop_ignores_flag [OF _ ne] by blast
  then have "interrupted_push ord 8 b x = Inr (Some ERR_NONE, Popped ERR_NONE x, d\<lparr>buffer_is_empty := False\<rparr>)"
    using steps by (simp add: interrupted_push_def eval_nat_numeral)
  then show ?thesis using d c(3) by auto
qed

section \<open>A pop interrupted before it sets the flag\<close>

lemma cb_contents_single:
  assumes "cb_inv b" and "cb_contents b = [y]" and "2 \<le> buffer_max_size b"
  shows "arr_get (buffer b) (read_index b) = Inr y" and "\<not> buffer_is_empty b"
    and "write_index b = (read_index b + 1) mod buffer_max_size b" and "write_index b \<noteq> read_index b"
proof -
  have n: "2 \<le> unat (buffer_max_size b)" using assms(3) by (simp add: word_le_nat_alt)
  have c: "cb_count b = 1" using arg_cong [OF assms(2), of length] by (simp add: cb_contents_def)
  have "unat (write_index b) = unat ((read_index b + 1) mod buffer_max_size b)"
    using cb_write_index [OF assms(1)] c unat_Suc_mod_size [of "read_index b" "buffer_max_size b"] assms(1)
    by (simp add: cb_inv_def)
  then show w: "write_index b = (read_index b + 1) mod buffer_max_size b" by simp
  then show "write_index b \<noteq> read_index b"
    using Suc_mod_neq assms(1,3) by (auto simp: cb_inv_def)
  then show "\<not> buffer_is_empty b" using cb_invD(4) [OF assms(1)] by auto
  show "arr_get (buffer b) (read_index b) = Inr y"
    using cb.pop_step [OF assms(1,2), of 0]
    by (auto simp: circular_buffer_pop_byte_def Let_def split: if_splits)
qed

lemma take_before_same:
  assumes "arr_get (buffer b) (read_index b) = Inr y" and "write_index b \<noteq> read_index b"
    and "circular_buffer_get_count (Some b) = Inr n" "n \<noteq> 0"
  shows "take_steps ord (if read_index b < write_index b then 8 else 10) b Take_gt1
    = Inr (b\<lparr>read_index := (read_index b + 1) mod buffer_max_size b\<rparr>, Take_same1 y, None)"
  using assms
  by (cases "read_index b" "write_index b" rule: linorder_cases)
     (auto simp: circular_buffer_get_count_def both_indices_first take_counted_def eval_nat_numeral)

lemma interrupted_pop_empty:
  assumes "cb_inv b" and "cb_contents b = [y]" and "2 \<le> buffer_max_size b"
  shows "\<exists>k b'. interrupted_pop ord k b x = Inr (Some (Popped ERR_NONE y), ERR_NONE, b')
    \<and> cb_inv b' \<and> cb_contents b' = []"
proof -
  note one = cb_contents_single [OF assms]
  let ?n = "buffer_max_size b" and ?w = "write_index b"
  obtain xs where xs: "buffer b = Some xs" "unat ?w < length xs"
    using assms(1) cb_invD(1,3) [OF assms(1)] by fastforce
  define b1 where "b1 = b\<lparr>read_index := ?w\<rparr>"
  have steps: "take_steps ord (if read_index b < ?w then 8 else 10) b Take_gt1 = Inr (b1, Take_same1 y, None)"
    using take_before_same [OF one(1,4)] cb.count_eq [OF assms(1)] assms(2) one(3)
    by (fastforce simp: b1_def)
  define b2 where "b2 = b1\<lparr>buffer := Some (xs[unat ?w := x]), read_index := (?w + 1) mod ?n,
    write_index := (?w + 1) mod ?n, buffer_is_empty := False\<rparr>"
  have push: "circular_buffer_push_byte (Some b1) x = Inr (ERR_NONE, b2)"
    using xs one(2) cb_invD(5) [OF assms(1)]
    by (simp add: circular_buffer_push_byte_def b1_def b2_def arr_set_def Let_def)
  have "take_steps ord 20 b2 (Take_same1 y)
    = Inr (b2\<lparr>buffer_is_empty := True\<rparr>, Take_idle, Some (Popped ERR_NONE y))"
    by (simp add: b2_def both_indices_def first_index_def eval_nat_numeral split: operand_order.split)
  then have "interrupted_pop ord (if read_index b < ?w then 8 else 10) b x
      = Inr (Some (Popped ERR_NONE y), ERR_NONE, b2\<lparr>buffer_is_empty := True\<rparr>)"
    using steps push by (simp add: interrupted_pop_def)
  moreover have inv: "cb_inv (b2\<lparr>buffer_is_empty := True\<rparr>)"
    using assms(1) xs Suc_mod_less [of ?w ?n] by (simp add: cb_inv_def cb_cells_def b1_def b2_def)
  moreover have "cb_contents (b2\<lparr>buffer_is_empty := True\<rparr>) = []"
    using cb_contents_Nil_iff [OF inv] by (simp add: b2_def)
  ultimately show ?thesis by blast
qed

section \<open>Properties\<close>

text \<open>
  The steps are those of the functions: a push and a pop that are not interrupted return what
  \<open>circular_buffer_push_byte\<close> and \<open>circular_buffer_pop_byte\<close> return, whatever the state of the buffer, and
  leave the buffer as they do; when the function faults, so do the steps.
\<close>

theorem sharing_steps_are_calls:
  "put_steps ord 12 b (Put_enter x) =
     r_bind (circular_buffer_push_byte (Some b) x) (\<lambda>(e, b'). Inr (b', Put_idle, Some e))
   \<and> take_steps ord 16 b Take_gt1 =
     r_bind (circular_buffer_pop_byte (Some b) (Some 0)) (\<lambda>(e, b', v). Inr (b', Take_idle, Some (Popped e v)))"
  by (rule conjI [OF put_steps_call take_steps_call])

text \<open>
  C37. A push that is interrupted by a pop before it clears the flag makes the empty buffer full. For
  every empty buffer of at least two cells and every byte, the push returns \<open>ERR_NONE\<close> and the pop returns the
  byte; nothing is left, but the buffer then reports its whole size, and the next pop returns
  \<open>ERR_NONE\<close> and a byte although every byte pushed has already been popped.
\<close>

theorem interrupted_push_phantom:
  assumes "cb_inv b" and "cb_contents b = []" and "2 \<le> buffer_max_size b"
  shows "\<exists>k b' b'' z. interrupted_push ord k b x = Inr (Some ERR_NONE, Popped ERR_NONE x, b')
    \<and> circular_buffer_get_count (Some b') = Inr (buffer_max_size b)
    \<and> circular_buffer_pop_byte (Some b') (Some 0) = Inr (ERR_NONE, b'', z)"
proof -
  obtain c where c: "interrupted_push ord 8 b x
      = Inr (Some ERR_NONE, Popped ERR_NONE x, c\<lparr>buffer_is_empty := False\<rparr>)"
      "cb_inv c" "cb_contents c = []" "buffer_max_size c = buffer_max_size b"
    using interrupted_push_full [OF assms] by blast
  let ?b = "c\<lparr>buffer_is_empty := False\<rparr>"
  have inv: "cb_inv ?b" and count: "circular_buffer_get_count (Some ?b) = Inr (buffer_max_size b)"
    using false_full [OF c(2,3)] c(4) by auto
  have "cb_contents ?b \<noteq> []" using cb_contents_Nil_iff [OF inv] by simp
  then obtain z q where "cb_contents ?b = z # q" by (cases "cb_contents ?b") auto
  then show ?thesis using cb.pop_step [OF inv, of z q 0] c(1) count by blast
qed

theorem interrupted_push_phantom_witness:
  "\<exists>k b' b'' z. interrupted_push Write_first k
      \<lparr>buffer = Some [5, 6], buffer_max_size = 2, read_index = 0, write_index = 0, buffer_is_empty = True\<rparr> 9
      = Inr (Some ERR_NONE, Popped ERR_NONE 9, b')
    \<and> circular_buffer_get_count (Some b') = Inr 2
    \<and> circular_buffer_pop_byte (Some b') (Some 0) = Inr (ERR_NONE, b'', z)"
  using interrupted_push_phantom [of
      "\<lparr>buffer = Some [5, 6], buffer_max_size = 2, read_index = 0, write_index = 0, buffer_is_empty = True\<rparr>"
      Write_first 9]
  by (simp add: cb_inv_def cb_contents_def cb_cells_def cb_count_def)

text \<open>
  A pop that takes the last byte and is interrupted by a push before it compares the indices loses
  the new byte: both calls return \<open>ERR_NONE\<close>, and the buffer is empty.
\<close>

theorem interrupted_pop_loses_byte:
  assumes "cb_inv b" and "cb_contents b = [y]" and "2 \<le> buffer_max_size b"
  shows "\<exists>k b'. interrupted_pop ord k b x = Inr (Some (Popped ERR_NONE y), ERR_NONE, b')
    \<and> circular_buffer_get_count (Some b') = Inr 0 \<and> cb_contents b' = []"
proof -
  obtain k b' where b': "interrupted_pop ord k b x = Inr (Some (Popped ERR_NONE y), ERR_NONE, b')"
      "cb_inv b'" "cb_contents b' = []"
    using interrupted_pop_empty [OF assms, of ord x] by blast
  then have "circular_buffer_get_count (Some b') = Inr 0"
    using cb.count_eq [OF b'(2)] by auto
  then show ?thesis using b' by blast
qed

theorem interrupted_pop_loses_byte_witness:
  "\<exists>k b'. interrupted_pop Read_first k
      \<lparr>buffer = Some [5, 6], buffer_max_size = 2, read_index = 1, write_index = 0, buffer_is_empty = False\<rparr> 9
      = Inr (Some (Popped ERR_NONE 6), ERR_NONE, b')
    \<and> circular_buffer_get_count (Some b') = Inr 0 \<and> cb_contents b' = []"
  using interrupted_pop_loses_byte [of
      "\<lparr>buffer = Some [5, 6], buffer_max_size = 2, read_index = 1, write_index = 0, buffer_is_empty = False\<rparr>"
      6 Read_first 9]
  by (simp add: cb_inv_def cb_contents_def cb_cells_def cb_count_def ring_list_def)

end
