(* ===== verification/Spsc_Watermark.thy ===== *)
theory Spsc_Watermark
  imports Spsc_Circular_Buffer
begin

text \<open>
  When the circular buffer of \<open>src/collections/circular_buffer.c\<close> can be shared after all. The calls of the
  two sides only disturb each other through the flag \<open>buffer_is_empty\<close>, and the flag is only looked at
  when the indices are equal. If the producer leaves two cells free before it starts a push and the consumer
  leaves a byte behind when it starts a pop, the indices are never equal, and the buffer is a first-in
  first-out queue under every interleaving of the accesses, in the sense of \<open>put_step\<close> and \<open>take_step\<close>. An idle
  side polls \<open>circular_buffer_get_count\<close> in one step before it starts a call.
\<close>

section \<open>Two sides that keep to the watermarks\<close>

definition count_of :: "CircularBuffer \<Rightarrow> nat" where
  "count_of b = (case circular_buffer_get_count (Some b) of Inl _ \<Rightarrow> 0 | Inr n \<Rightarrow> unat n)"

text \<open>
  The argument of the push under way is kept with the producer; \<open>to_put\<close>, \<open>done_put\<close> and \<open>taken\<close> are the bytes
  still to be pushed, the bytes whose push has returned and the replies of the pops.
\<close>

record marked =
  ring :: CircularBuffer
  putter :: put_pc
  taker :: take_pc
  argument :: "uint8_t list"
  to_put :: "uint8_t list"
  done_put :: "uint8_t list"
  taken :: "ring_reply list"

definition marked_start :: "CircularBuffer \<Rightarrow> uint8_t list \<Rightarrow> marked" where
  "marked_start b bs = \<lparr>ring = b, putter = Put_idle, taker = Take_idle, argument = [], to_put = bs,
     done_put = [], taken = []\<rparr>"

definition begin_put :: "marked \<Rightarrow> marked" where
  "begin_put s = (case to_put s of [] \<Rightarrow> s
     | x # xs \<Rightarrow> if count_of (ring s) + 2 \<le> unat (buffer_max_size (ring s))
         then s\<lparr>putter := Put_enter x, argument := [x], to_put := xs\<rparr> else s)"

definition begin_take :: "marked \<Rightarrow> marked" where
  "begin_take s = (if 2 \<le> count_of (ring s) then s\<lparr>taker := Take_gt1\<rparr> else s)"

fun marked_step :: "operand_order \<Rightarrow> side \<Rightarrow> marked \<Rightarrow> marked result" where
  "marked_step ord Producer s =
     (if putter s = Put_idle then Inr (begin_put s)
      else r_bind (put_step ord (ring s) (putter s)) (\<lambda>(b, pc, ret).
        Inr (s\<lparr>ring := b, putter := pc, done_put := done_put s @ (if ret = None then [] else argument s),
               argument := (if ret = None then argument s else [])\<rparr>)))"
| "marked_step ord Consumer s =
     (if taker s = Take_idle then Inr (begin_take s)
      else r_bind (take_step ord (ring s) (taker s)) (\<lambda>(b, pc, ret).
        Inr (s\<lparr>ring := b, taker := pc, taken := taken s @ (case ret of None \<Rightarrow> [] | Some r \<Rightarrow> [r])\<rparr>)))"

fun marked_run :: "operand_order \<Rightarrow> marked \<Rightarrow> side list \<Rightarrow> marked result" where
  "marked_run ord s [] = Inr s"
| "marked_run ord s (t # ts) = r_bind (marked_step ord t s) (\<lambda>s'. marked_run ord s' ts)"

section \<open>Buffers whose indices differ\<close>

definition apart :: "CircularBuffer \<Rightarrow> bool" where
  "apart b \<longleftrightarrow> cb_inv b \<and> read_index b \<noteq> write_index b"

lemma length_cb_contents [simp]: "length (cb_contents b) = cb_count b"
  by (simp add: cb_contents_def)

lemma cb_count_buffer [simp]: "cb_count (b\<lparr>buffer := c\<rparr>) = cb_count b"
  by (simp add: cb_count_def Let_def)

lemma apartD:
  assumes "apart b"
  shows "cb_inv b" and "read_index b \<noteq> write_index b" and "\<not> buffer_is_empty b"
    and "0 < cb_count b" and "cb_count b < unat (buffer_max_size b)"
proof -
  show inv: "cb_inv b" and ne: "read_index b \<noteq> write_index b" using assms by (auto simp: apart_def)
  then show "\<not> buffer_is_empty b" by (auto simp: cb_inv_def)
  show "0 < cb_count b" using cb_contents_Nil_iff [OF inv] ne length_cb_contents [of b] by (metis length_greater_0_conv)
  show "cb_count b < unat (buffer_max_size b)"
    using cb_count_full [OF inv] cb_count_le [OF inv] ne by (simp add: le_less)
qed

lemma apart_iff:
  assumes "cb_inv b"
  shows "apart b \<longleftrightarrow> 0 < cb_count b \<and> cb_count b < unat (buffer_max_size b)"
proof -
  have "cb_count b = 0 \<or> cb_count b = unat (buffer_max_size b)" if "read_index b = write_index b"
    using that by (simp add: cb_count_def)
  then show ?thesis using apartD(4,5) [of b] assms by (fastforce simp: apart_def)
qed

lemma count_of_eq: "cb_inv b \<Longrightarrow> count_of b = cb_count b"
  using circular_buffer_get_count_eq [of b] by (auto simp: count_of_def)

lemma apart_store:
  assumes "apart b"
  shows "\<exists>xs. buffer b = Some xs \<and> unat (write_index b) < length xs
    \<and> arr_set (buffer b) (write_index b) x = Inr (Some (xs[unat (write_index b) := x]))
    \<and> apart (b\<lparr>buffer := Some (xs[unat (write_index b) := x])\<rparr>)
    \<and> cb_contents (b\<lparr>buffer := Some (xs[unat (write_index b) := x])\<rparr>) = cb_contents b"
proof -
  let ?n = "unat (buffer_max_size b)" and ?r = "unat (read_index b)" and ?w = "unat (write_index b)"
  note inv = apartD(1) [OF assms]
  obtain xs where xs: "buffer b = Some xs" "cb_cells b = xs" "?n \<le> length xs" using cb_invD(1) [OF inv] by blast
  have w: "?w < length xs" "?w = (?r + cb_count b) mod ?n"
    using cb_invD(3) [OF inv] xs(3) cb_write_index [OF inv] by auto
  have "ring_list (xs[?w := x]) ?n ?r (cb_count b) = ring_list xs ?n ?r (cb_count b)"
    using add_mod_neq [OF _ apartD(5) [OF assms], of _ ?r]
    by (fastforce simp: ring_list_def w(2) nth_list_update)
  then show ?thesis
    using xs w(1) assms
    by (auto simp: apart_def cb_inv_def cb_contents_def cb_cells_def arr_set_def)
qed

lemma apart_advance_write:
  assumes "apart b" and "cb_count b + 2 \<le> unat (buffer_max_size b)" and "cb_cells b ! unat (write_index b) = x"
  defines "b' \<equiv> b\<lparr>write_index := (write_index b + 1) mod buffer_max_size b\<rparr>"
  shows "apart b'" and "cb_contents b' = cb_contents b @ [x]"
    and "write_index b < read_index b \<Longrightarrow> write_index b' < read_index b"
proof -
  note inv = apartD(1) [OF assms(1)]
  obtain xs where xs: "buffer b = Some xs" "cb_cells b = xs" "unat (write_index b) < length xs"
    using cb_invD(1,3) [OF inv] by fastforce
  then have "circular_buffer_push_byte (Some b) x = Inr (ERR_NONE, b')"
    using assms(3) cb_invD(5) [OF inv] apartD(2,3) [OF assms(1)]
    by (simp add: circular_buffer_push_byte_def b'_def arr_set_def Let_def list_update_id [of xs]) auto
  then have b': "cb_inv b'" "cb_contents b' = cb_contents b @ [x]" "buffer_max_size b' = buffer_max_size b"
    using circular_buffer_push_byte_step [OF inv, of x] apartD(5) [OF assms(1)] by (auto simp: ring_push_def)
  then show "cb_contents b' = cb_contents b @ [x]" by simp
  have "cb_count b' = Suc (cb_count b)" using arg_cong [OF b'(2), of length] by simp
  then show a: "apart b'" using apart_iff [OF b'(1)] assms(2) b'(3) by simp
  show "write_index b' < read_index b" if less: "write_index b < read_index b"
  proof -
    have "unat (write_index b') \<noteq> unat (read_index b)" using apartD(2) [OF a] by (auto simp: b'_def)
    moreover have "unat (write_index b') = Suc (unat (write_index b)) mod unat (buffer_max_size b)"
      using unat_Suc_mod_size [of "write_index b"] inv by (simp add: b'_def cb_inv_def)
    ultimately show ?thesis using less cb_invD(2) [OF inv] by (simp add: word_less_nat_alt)
  qed
qed

lemma apart_take:
  assumes "apart b" and "cb_contents b = x # q" and "q \<noteq> []"
  defines "b' \<equiv> b\<lparr>read_index := (read_index b + 1) mod buffer_max_size b\<rparr>"
  shows "arr_get (buffer b) (read_index b) = Inr x" and "apart b'" and "cb_contents b' = q"
proof -
  note inv = apartD(1) [OF assms(1)]
  let ?f = "(read_index b + 1) mod buffer_max_size b = write_index b"
  obtain c where c: "circular_buffer_pop_byte (Some b) (Some 0) = Inr (ERR_NONE, c, x)" "cb_inv c"
      "cb_contents c = q" "buffer_max_size c = buffer_max_size b"
    using circular_buffer_pop_byte_step [OF inv assms(2), of 0] by blast
  then have eq: "arr_get (buffer b) (read_index b) = Inr x" "c = b'\<lparr>buffer_is_empty := ?f\<rparr>"
    by (auto simp: circular_buffer_pop_byte_def b'_def Let_def split: if_splits)
  have "cb_count c < cb_count b" using arg_cong [OF assms(2), of length] arg_cong [OF c(3), of length] by simp
  then have a: "apart c"
    using apart_iff [OF c(2)] c(3,4) assms(3) apartD(5) [OF assms(1)] length_cb_contents [of c]
    by (metis length_greater_0_conv order_less_trans)
  then have "c = b'" using eq(2) apartD(2,3) [OF a] apartD(3) [OF assms(1)] by (simp add: b'_def)
  then show "arr_get (buffer b) (read_index b) = Inr x" "apart b'" "cb_contents b' = q"
    using eq(1) a c(3) by auto
qed

section \<open>The invariant\<close>

text \<open>
  What each side may rely on at each point of its call. A value loaded from the other side's index may be
  out of date; it was never equal to the own index, and a write index below the read index stays below it.
\<close>

definition two_free :: "CircularBuffer \<Rightarrow> bool" where
  "two_free b \<longleftrightarrow> cb_count b + 2 \<le> unat (buffer_max_size b)"

definition stored_at_write :: "CircularBuffer \<Rightarrow> uint8_t \<Rightarrow> bool" where
  "stored_at_write b x \<longleftrightarrow> cb_cells b ! unat (write_index b) = x"

fun put_ok :: "operand_order \<Rightarrow> CircularBuffer \<Rightarrow> uint8_t list \<Rightarrow> put_pc \<Rightarrow> bool" where
  "put_ok ord b a Put_idle = (a = [])"
| "put_ok ord b a (Put_enter x) = (a = [x] \<and> two_free b)"
| "put_ok ord b a (Put_slot x) = (a = [x] \<and> two_free b)"
| "put_ok ord b a (Put_store x w) = (a = [x] \<and> two_free b \<and> w = write_index b)"
| "put_ok ord b a Put_same1 = (\<exists>x. a = [x] \<and> two_free b \<and> stored_at_write b x)"
| "put_ok ord b a (Put_same2 v) = ((\<exists>x. a = [x] \<and> two_free b \<and> stored_at_write b x) \<and>
     (case ord of Write_first \<Rightarrow> v = write_index b | Read_first \<Rightarrow> v \<noteq> write_index b))"
| "put_ok ord b a Put_flag = False"
| "put_ok ord b a Put_full = False"
| "put_ok ord b a (Put_drop r) = False"
| "put_ok ord b a Put_next = (\<exists>x. a = [x] \<and> two_free b \<and> stored_at_write b x)"
| "put_ok ord b a (Put_advance w) = ((\<exists>x. a = [x] \<and> two_free b \<and> stored_at_write b x) \<and> w = write_index b)"
| "put_ok ord b a Put_mark = (\<exists>x. a = [x])"

definition two_held :: "CircularBuffer \<Rightarrow> bool" where
  "two_held b \<longleftrightarrow> 2 \<le> length (cb_contents b)"

definition below :: "CircularBuffer \<Rightarrow> bool" where
  "below b \<longleftrightarrow> write_index b < read_index b"

fun take_ok :: "operand_order \<Rightarrow> CircularBuffer \<Rightarrow> take_pc \<Rightarrow> bool" where
  "take_ok ord b Take_idle = True"
| "take_ok ord b Take_gt1 = two_held b"
| "take_ok ord b (Take_gt2 v) = (two_held b \<and> (case ord of
     Write_first \<Rightarrow> v \<noteq> read_index b \<and> (v < read_index b \<longrightarrow> below b) | Read_first \<Rightarrow> v = read_index b))"
| "take_ok ord b Take_diff1 = two_held b"
| "take_ok ord b (Take_diff2 v) = (two_held b \<and> (case ord of
     Write_first \<Rightarrow> v \<noteq> read_index b | Read_first \<Rightarrow> v = read_index b))"
| "take_ok ord b Take_lt1 = (two_held b \<and> below b)"
| "take_ok ord b (Take_lt2 v) = (two_held b \<and> below b \<and> (case ord of
     Write_first \<Rightarrow> v < read_index b | Read_first \<Rightarrow> v = read_index b))"
| "take_ok ord b Take_wrap1 = (two_held b \<and> below b)"
| "take_ok ord b (Take_wrap2 v) = (two_held b \<and> below b \<and> (case ord of
     Write_first \<Rightarrow> v < read_index b | Read_first \<Rightarrow> v = read_index b))"
| "take_ok ord b Take_flag = False"
| "take_ok ord b Take_slot = two_held b"
| "take_ok ord b (Take_load r) = (two_held b \<and> r = read_index b)"
| "take_ok ord b (Take_next x) = (two_held b \<and> x = hd (cb_contents b))"
| "take_ok ord b (Take_advance x r) = (two_held b \<and> x = hd (cb_contents b) \<and> r = read_index b)"
| "take_ok ord b (Take_same1 x) = True"
| "take_ok ord b (Take_same2 x v) = (case ord of
     Write_first \<Rightarrow> v \<noteq> read_index b | Read_first \<Rightarrow> v = read_index b)"
| "take_ok ord b (Take_mark x e) = (\<not> e)"

text \<open>
  A push puts its byte in when it stores the write index, and returns a step later; a pop takes its byte
  out when it stores the read index. Between the two the byte is in neither list.
\<close>

definition put_done :: "uint8_t list \<Rightarrow> put_pc \<Rightarrow> uint8_t list" where
  "put_done a pc = (if pc = Put_mark then a else [])"

fun take_done :: "take_pc \<Rightarrow> uint8_t list" where
  "take_done (Take_same1 x) = [x]"
| "take_done (Take_same2 x v) = [x]"
| "take_done (Take_mark x e) = [x]"
| "take_done _ = []"

text \<open>The steps of one side keep what the other relies on.\<close>

lemma take_ok_append:
  assumes "take_ok ord b pc" and "read_index b' = read_index b" and "cb_contents b' = cb_contents b @ ys"
    and "below b \<Longrightarrow> below b'"
  shows "take_ok ord b' pc"
proof -
  have "two_held b \<Longrightarrow> two_held b' \<and> hd (cb_contents b') = hd (cb_contents b)"
    using assms(3) by (auto simp: two_held_def simp del: length_cb_contents intro!: hd_append2)
  then show ?thesis using assms by (cases pc) (auto split: operand_order.splits)
qed

lemma put_ok_fewer:
  assumes "put_ok ord b a pc" and "write_index b' = write_index b" "buffer b' = buffer b"
    and "buffer_max_size b' = buffer_max_size b" and "cb_count b' \<le> cb_count b"
  shows "put_ok ord b' a pc"
proof -
  have "two_free b \<Longrightarrow> two_free b'" and "stored_at_write b x \<Longrightarrow> stored_at_write b' x" for x
    using assms by (auto simp: two_free_def stored_at_write_def cb_cells_def)
  then show ?thesis using assms by (cases pc) (auto split: operand_order.splits)
qed

definition put_progress ::
    "operand_order \<Rightarrow> CircularBuffer \<Rightarrow> uint8_t list \<Rightarrow> put_pc \<Rightarrow> CircularBuffer \<Rightarrow> put_pc \<Rightarrow> ErrorCodes option \<Rightarrow> bool" where
  "put_progress ord b a pc b' pc' ret \<longleftrightarrow>
     apart b' \<and> put_ok ord b' (if ret = None then a else []) pc'
     \<and> read_index b' = read_index b \<and> buffer_max_size b' = buffer_max_size b \<and> (below b \<longrightarrow> below b')
     \<and> (\<exists>ys. cb_contents b' = cb_contents b @ ys
          \<and> put_done a pc @ ys = (if ret = None then put_done a pc' else a))"

definition take_progress ::
    "operand_order \<Rightarrow> CircularBuffer \<Rightarrow> take_pc \<Rightarrow> CircularBuffer \<Rightarrow> take_pc \<Rightarrow> ring_reply option \<Rightarrow> bool" where
  "take_progress ord b pc b' pc' ret \<longleftrightarrow>
     apart b' \<and> take_ok ord b' pc'
     \<and> write_index b' = write_index b \<and> buffer b' = buffer b \<and> buffer_max_size b' = buffer_max_size b
     \<and> (\<exists>ys. cb_contents b = ys @ cb_contents b'
          \<and> (case ret of None \<Rightarrow> take_done pc' = take_done pc @ ys
             | Some r \<Rightarrow> ys = [] \<and> take_done pc' = [] \<and> (\<exists>x. take_done pc = [x] \<and> r = Popped ERR_NONE x)))"

text \<open>A step that only loads.\<close>

lemma quiet_put:
  "apart b \<Longrightarrow> put_ok ord b a pc' \<Longrightarrow> pc \<noteq> Put_mark \<Longrightarrow> pc' \<noteq> Put_mark \<Longrightarrow> put_progress ord b a pc b pc' None"
  by (simp add: put_progress_def put_done_def)

lemma quiet_take:
  "apart b \<Longrightarrow> take_ok ord b pc' \<Longrightarrow> take_done pc' = take_done pc \<Longrightarrow> take_progress ord b pc b pc' None"
  by (simp add: take_progress_def)

lemma put_step_ok:
  assumes "apart b" and "put_ok ord b a pc" and "pc \<noteq> Put_idle"
  shows "\<exists>b' pc' ret. put_step ord b pc = Inr (b', pc', ret) \<and> put_progress ord b a pc b' pc' ret"
  using assms
proof (cases pc)
  case (Put_store x w)
  then obtain xs where "buffer b = Some xs" "unat (write_index b) < length xs"
      "arr_set (buffer b) (write_index b) x = Inr (Some (xs[unat (write_index b) := x]))"
      "apart (b\<lparr>buffer := Some (xs[unat (write_index b) := x])\<rparr>)"
      "cb_contents (b\<lparr>buffer := Some (xs[unat (write_index b) := x])\<rparr>) = cb_contents b"
    using apart_store [OF assms(1)] by blast
  then show ?thesis
    using Put_store assms(2)
    by (auto simp: two_free_def stored_at_write_def cb_cells_def below_def put_done_def put_progress_def)
next
  case (Put_advance w)
  then obtain x where x: "a = [x]" "two_free b" "stored_at_write b x" "w = write_index b"
    using assms(2) by auto
  let ?b = "b\<lparr>write_index := (w + 1) mod buffer_max_size b\<rparr>"
  have "apart ?b" "cb_contents ?b = cb_contents b @ [x]" "below b \<longrightarrow> below ?b"
    using apart_advance_write [OF assms(1), of x] x by (auto simp: two_free_def stored_at_write_def below_def)
  then show ?thesis using Put_advance x by (auto simp: put_done_def put_progress_def)
next
  case Put_mark
  have "b\<lparr>buffer_is_empty := False\<rparr> = b" using apartD(3) [OF assms(1)] by simp
  then show ?thesis using Put_mark assms by (auto simp: put_done_def put_progress_def)
qed (use apartD(2) [OF assms(1)] cb_invD(5) [OF apartD(1) [OF assms(1)]] in
      \<open>auto simp: first_index_def both_indices_def intro!: quiet_put split: operand_order.splits\<close>)

lemma wrapped_count:
  assumes "cb_inv b" and "v < read_index b"
  shows "buffer_max_size b - read_index b + v \<noteq> 0"
proof -
  let ?n = "unat (buffer_max_size b)" and ?r = "unat (read_index b)"
  have r: "?r < ?n" "unat v < ?r" using assms cb_invD(2) by (auto simp: word_less_nat_alt)
  then have "unat (buffer_max_size b - read_index b) = ?n - ?r" by (simp add: unat_sub_size)
  moreover have "?n - ?r + unat v < 18446744073709551616"
    using r unat_size_lt [of "buffer_max_size b"] by (simp del: unat_size_lt)
  ultimately have "unat (buffer_max_size b - read_index b + v) = ?n - ?r + unat v"
    by (simp add: unat_word_ariths(1))
  then show ?thesis using r by (metis add_is_0 diff_is_0_eq not_le unat_0)
qed

lemma two_heldE:
  assumes "two_held b"
  obtains x q where "cb_contents b = x # q" "q \<noteq> []"
  using assms by (cases "cb_contents b"; cases "tl (cb_contents b)")
    (auto simp: two_held_def simp del: length_cb_contents)

lemma take_step_ok:
  assumes "apart b" and "take_ok ord b pc" and "pc \<noteq> Take_idle"
  shows "\<exists>b' pc' ret. take_step ord b pc = Inr (b', pc', ret) \<and> take_progress ord b pc b' pc' ret"
  using assms
proof (cases pc)
  case (Take_load r)
  then obtain x q where q: "cb_contents b = x # q" "q \<noteq> []" using assms(2) by (auto elim: two_heldE)
  then show ?thesis using apart_take(1) [OF assms(1) q] Take_load assms by (auto intro!: quiet_take)
next
  case (Take_advance x r)
  then obtain q where q: "cb_contents b = x # q" "q \<noteq> []" using assms(2) by (auto elim: two_heldE)
  then show ?thesis
    using apart_take(2,3) [OF assms(1) q] Take_advance assms by (auto simp: take_progress_def)
next
  case (Take_mark x e)
  then have "b\<lparr>buffer_is_empty := e\<rparr> = b" using assms(2) apartD(3) [OF assms(1)] by simp
  then show ?thesis using Take_mark assms by (auto simp: take_progress_def)
qed (use apartD(2) [OF assms(1)] wrapped_count [OF apartD(1) [OF assms(1)]] in
      \<open>auto simp: first_index_def both_indices_def take_counted_def below_def intro!: quiet_take
        split: operand_order.splits\<close>)

text \<open>The whole system, with the account of the bytes.\<close>

definition marked_ok :: "operand_order \<Rightarrow> uint8_t list \<Rightarrow> uint8_t list \<Rightarrow> marked \<Rightarrow> bool" where
  "marked_ok ord q bs s \<longleftrightarrow>
     apart (ring s) \<and> put_ok ord (ring s) (argument s) (putter s) \<and> take_ok ord (ring s) (taker s)
     \<and> popped_bytes (taken s) @ take_done (taker s) @ cb_contents (ring s)
         = q @ done_put s @ put_done (argument s) (putter s)
     \<and> done_put s @ argument s @ to_put s = bs"

lemma begin_put_ok: "marked_ok ord q bs s \<Longrightarrow> putter s = Put_idle \<Longrightarrow> marked_ok ord q bs (begin_put s)"
  using count_of_eq [OF apartD(1), of "ring s"]
  by (auto simp: marked_ok_def begin_put_def two_free_def put_done_def split: list.split)

lemma begin_take_ok: "marked_ok ord q bs s \<Longrightarrow> taker s = Take_idle \<Longrightarrow> marked_ok ord q bs (begin_take s)"
  using count_of_eq [OF apartD(1), of "ring s"] by (auto simp: marked_ok_def begin_take_def two_held_def)

lemma put_marked_ok:
  assumes ok: "marked_ok ord q bs s" and "putter s \<noteq> Put_idle"
  shows "\<exists>s'. marked_step ord Producer s = Inr s' \<and> marked_ok ord q bs s'
    \<and> buffer_max_size (ring s') = buffer_max_size (ring s)"
proof -
  obtain b pc ret where step: "put_step ord (ring s) (putter s) = Inr (b, pc, ret)"
      and p: "put_progress ord (ring s) (argument s) (putter s) b pc ret"
    using put_step_ok [of "ring s" ord "argument s" "putter s"] assms by (auto simp: marked_ok_def)
  obtain ys where ys: "cb_contents b = cb_contents (ring s) @ ys"
      "put_done (argument s) (putter s) @ ys = (if ret = None then put_done (argument s) pc else argument s)"
    using p by (auto simp: put_progress_def)
  have take: "take_ok ord b (taker s)"
    using take_ok_append [OF _ _ ys(1)] p ok by (auto simp: put_progress_def marked_ok_def)
  have "popped_bytes (taken s) @ take_done (taker s) @ cb_contents b
      = q @ done_put s @ put_done (argument s) (putter s) @ ys"
    using ok ys(1) by (auto simp: marked_ok_def)
  then show ?thesis
    using assms step p take ys(2) by (auto simp: marked_ok_def put_progress_def put_done_def)
qed

lemma take_marked_ok:
  assumes ok: "marked_ok ord q bs s" and "taker s \<noteq> Take_idle"
  shows "\<exists>s'. marked_step ord Consumer s = Inr s' \<and> marked_ok ord q bs s'
    \<and> buffer_max_size (ring s') = buffer_max_size (ring s)"
proof -
  obtain b pc ret where step: "take_step ord (ring s) (taker s) = Inr (b, pc, ret)"
      and p: "take_progress ord (ring s) (taker s) b pc ret"
    using take_step_ok [of "ring s" ord "taker s"] assms by (auto simp: marked_ok_def)
  obtain ys where ys: "cb_contents (ring s) = ys @ cb_contents b"
      "popped_bytes (case ret of None \<Rightarrow> [] | Some r \<Rightarrow> [r]) @ take_done pc = take_done (taker s) @ ys"
    using p by (cases ret) (auto simp: take_progress_def)
  have "cb_count b \<le> cb_count (ring s)" using arg_cong [OF ys(1), of length] by simp
  then have put: "put_ok ord b (argument s) (putter s)"
    using put_ok_fewer [of ord "ring s"] p ok by (auto simp: take_progress_def marked_ok_def)
  have "popped_bytes (taken s) @ popped_bytes (case ret of None \<Rightarrow> [] | Some r \<Rightarrow> [r]) @ take_done pc @ cb_contents b
      = q @ done_put s @ put_done (argument s) (putter s)"
    using ok ys by (metis append.assoc marked_ok_def)
  then show ?thesis
    using assms step p put by (auto simp: marked_ok_def take_progress_def)
qed

lemma marked_step_ok:
  assumes "marked_ok ord q bs s"
  shows "\<exists>s'. marked_step ord t s = Inr s' \<and> marked_ok ord q bs s'
    \<and> buffer_max_size (ring s') = buffer_max_size (ring s)"
proof (cases t)
  case Producer
  then show ?thesis
    using put_marked_ok [OF assms] begin_put_ok [OF assms]
    by (cases "putter s = Put_idle") (auto simp: begin_put_def split: list.splits)
next
  case Consumer
  then show ?thesis
    using take_marked_ok [OF assms] begin_take_ok [OF assms]
    by (cases "taker s = Take_idle") (auto simp: begin_take_def)
qed

lemma marked_run_ok:
  assumes "marked_ok ord q bs s"
  shows "\<exists>s'. marked_run ord s sched = Inr s' \<and> marked_ok ord q bs s'
    \<and> buffer_max_size (ring s') = buffer_max_size (ring s)"
  using assms
proof (induction sched arbitrary: s)
  case (Cons t sched)
  then show ?case using marked_step_ok [OF Cons.prems, of t] by fastforce
qed simp

section \<open>Properties\<close>

text \<open>
  C13. A circular buffer that is neither empty nor full is a first-in first-out queue for one producer and one
  consumer under every interleaving of their loads and stores, when the producer starts a push only with
  two cells free and the consumer a pop only with two bytes held: no access faults, the buffer never
  becomes empty or full, and the bytes popped, those under way and those held are the bytes held at the start
  and those pushed, in order.
\<close>

theorem watermarks_make_sharing_safe:
  assumes "cb_inv b" and "0 < length (cb_contents b)" and "length (cb_contents b) < unat (buffer_max_size b)"
  shows "\<exists>s. marked_run ord (marked_start b bs) sched = Inr s \<and> cb_inv (ring s)
    \<and> 0 < length (cb_contents (ring s)) \<and> length (cb_contents (ring s)) < unat (buffer_max_size b)
    \<and> popped_bytes (taken s) @ take_done (taker s) @ cb_contents (ring s)
        = cb_contents b @ done_put s @ put_done (argument s) (putter s)
    \<and> done_put s @ argument s @ to_put s = bs"
proof -
  have "marked_ok ord (cb_contents b) bs (marked_start b bs)"
    using assms apart_iff [OF assms(1)] by (simp add: marked_ok_def marked_start_def put_done_def)
  then obtain s where "marked_run ord (marked_start b bs) sched = Inr s" "marked_ok ord (cb_contents b) bs s"
      "buffer_max_size (ring s) = buffer_max_size b"
    using marked_run_ok [of ord "cb_contents b" bs "marked_start b bs" sched] by (auto simp: marked_start_def)
  then show ?thesis using apartD(1,4,5) [of "ring s"] by (auto simp: marked_ok_def)
qed

theorem watermarks_make_sharing_safe_witness:
  "\<exists>s. marked_run Read_first (marked_start \<lparr>buffer = Some [5, 0, 0, 0], buffer_max_size = 4, read_index = 0,
        write_index = 1, buffer_is_empty = False\<rparr> [7, 8])
        (replicate 11 Producer @ replicate 6 Consumer @ replicate 9 Producer @ replicate 9 Consumer) = Inr s
     \<and> popped_bytes (taken s) @ take_done (taker s) @ cb_contents (ring s)
         = [5] @ done_put s @ put_done (argument s) (putter s)"
  using watermarks_make_sharing_safe [of "\<lparr>buffer = Some [5, 0, 0, 0], buffer_max_size = 4, read_index = 0,
        write_index = 1, buffer_is_empty = False\<rparr>" Read_first "[7, 8]"
      "replicate 11 Producer @ replicate 6 Consumer @ replicate 9 Producer @ replicate 9 Consumer"]
  by (auto simp: cb_inv_def cb_contents_def cb_cells_def cb_count_def ring_list_def
      simp del: marked_run.simps marked_step.simps)

end
