(* ===== verification/Bounded_Heap.thy ===== *)
theory Bounded_Heap
  imports Error_Codes "HOL-Library.Multiset"
begin

text \<open>
  The array heap of \<open>src/collections/bounded_heap.c\<close>: pointers in a caller-provided array,
  ordered by a caller-provided comparison that says when a parent has to be swapped with a
  child. The loop that repairs the heap after a pop has no bound of its own; it is a partial
  function, and that it always comes back is a theorem.

  What a comparison has to satisfy for the order to mean anything is the locale
  \<open>heap_compare\<close> (a strict weak order); it is interpreted on the comparison of the
  repository's own heap, the largest-first order of \<open>tests/test_bounded_heap.c\<close>.
\<close>

section \<open>Model\<close>

type_synonym compare_func = "ptr \<Rightarrow> ptr \<Rightarrow> bool"

record BoundedHeapConfig =
  heap_storage :: "ptr list option"
  element_count :: size_t
  compare :: "compare_func option"

record BoundedHeap =
  config :: BoundedHeapConfig
  items_in_heap :: size_t
  heap_max_size :: size_t

definition bounded_heap_validate_config :: "BoundedHeapConfig \<Rightarrow> ErrorCodes result" where
  "bounded_heap_validate_config cfg =
     r_bind (assert_ptr (heap_storage cfg)) (\<lambda>_.
     r_bind (assert_ptr (compare cfg)) (\<lambda>_.
       if element_count cfg = 0 then Inr ERR_INVALID_ARG else Inr ERR_NONE))"

definition bounded_heap_get_next_empty_index :: "BoundedHeap \<Rightarrow> size_t" where
  "bounded_heap_get_next_empty_index heap = items_in_heap heap"

definition bounded_heap_get_index_of_parent :: "size_t \<Rightarrow> size_t" where
  "bounded_heap_get_index_of_parent index = (index - 1) div 2"

definition bounded_heap_get_index_of_left_child :: "size_t \<Rightarrow> size_t" where
  "bounded_heap_get_index_of_left_child index = 2 * index + 1"

definition bounded_heap_get_index_of_right_child :: "size_t \<Rightarrow> size_t" where
  "bounded_heap_get_index_of_right_child index = 2 * index + 2"

definition set_heap_storage :: "BoundedHeap \<Rightarrow> ptr list option \<Rightarrow> BoundedHeap" where
  "set_heap_storage heap s = heap\<lparr>config := (config heap)\<lparr>heap_storage := s\<rparr>\<rparr>"

definition bounded_heap_get_value_at :: "BoundedHeap \<Rightarrow> size_t \<Rightarrow> ptr result" where
  "bounded_heap_get_value_at heap index = arr_get (heap_storage (config heap)) index"

definition bounded_heap_swap_values_at_index ::
    "BoundedHeap \<Rightarrow> size_t \<Rightarrow> size_t \<Rightarrow> BoundedHeap result" where
  "bounded_heap_swap_values_at_index heap index_a index_b =
     r_bind (arr_get (heap_storage (config heap)) index_a) (\<lambda>tmp.
     r_bind (arr_get (heap_storage (config heap)) index_b) (\<lambda>v.
     r_bind (arr_set (heap_storage (config heap)) index_a v) (\<lambda>s1.
     r_bind (arr_set s1 index_b tmp) (\<lambda>s2.
       Inr (set_heap_storage heap s2)))))"

text \<open>\<open>heap->config.compare(value at a, value at b)\<close>.\<close>

definition heap_compare_at :: "BoundedHeap \<Rightarrow> size_t \<Rightarrow> size_t \<Rightarrow> bool result" where
  "heap_compare_at heap a b =
     r_bind (bounded_heap_get_value_at heap a) (\<lambda>x.
     r_bind (bounded_heap_get_value_at heap b) (\<lambda>y.
     r_bind (deref (compare (config heap))) (\<lambda>cmp.
       Inr (cmp x y))))"

definition bounded_heap_init ::
    "BoundedHeap option \<Rightarrow> BoundedHeapConfig option \<Rightarrow> (ErrorCodes \<times> BoundedHeap) result" where
  "bounded_heap_init heap cfg =
     r_bind (assert_ptr heap) (\<lambda>h.
     r_bind (assert_ptr cfg) (\<lambda>c.
     r_bind (bounded_heap_validate_config c) (\<lambda>ret.
       if ret \<noteq> ERR_NONE then Inr (ret, h)
       else Inr (ret, h\<lparr>config := c, heap_max_size := element_count c, items_in_heap := 0\<rparr>))))"

definition bounded_heap_deinit :: "BoundedHeap option \<Rightarrow> BoundedHeap result" where
  "bounded_heap_deinit heap =
     r_bind (assert_ptr heap) (\<lambda>h. Inr (h\<lparr>items_in_heap := 0, heap_max_size := 0\<rparr>))"

definition bounded_heap_get_remaining :: "BoundedHeap option \<Rightarrow> size_t result" where
  "bounded_heap_get_remaining heap =
     r_bind (assert_ptr heap) (\<lambda>h. Inr (heap_max_size h - items_in_heap h))"

definition bounded_heap_get_size :: "BoundedHeap option \<Rightarrow> size_t result" where
  "bounded_heap_get_size heap = r_bind (assert_ptr heap) (\<lambda>h. Inr (items_in_heap h))"

text \<open>\<open>bounded_heap_peek\<close> writes through \<open>heap_item\<close> without an assertion.\<close>

definition bounded_heap_peek ::
    "BoundedHeap option \<Rightarrow> ptr option \<Rightarrow> (ErrorCodes \<times> ptr option) result" where
  "bounded_heap_peek heap heap_item =
     r_bind (assert_ptr heap) (\<lambda>h.
     r_bind (bounded_heap_get_size (Some h)) (\<lambda>n.
       if n = 0 then Inr (ERR_EMPTY, heap_item)
       else r_bind (arr_get (heap_storage (config h)) 0) (\<lambda>v.
            r_bind (deref heap_item) (\<lambda>_. Inr (ERR_NONE, Some v)))))"

text \<open>
  One round of the loop that moves the root down: Some index to go on with, or None when
  the loop is left (by \<open>break\<close> or by \<open>done\<close>).
\<close>

definition heapify_round :: "BoundedHeap \<Rightarrow> size_t \<Rightarrow> (BoundedHeap \<times> size_t option) result" where
  "heapify_round h parent_idx =
     (let left_child_idx = bounded_heap_get_index_of_left_child parent_idx;
          right_child_idx = bounded_heap_get_index_of_right_child parent_idx in
      if left_child_idx \<ge> items_in_heap h \<or> right_child_idx \<ge> items_in_heap h
      then Inr (h, None)
      else
        r_bind (heap_compare_at h parent_idx left_child_idx) (\<lambda>left_child_swap0.
        r_bind (heap_compare_at h parent_idx right_child_idx) (\<lambda>right_child_swap0.
        r_bind (if left_child_swap0 \<and> right_child_swap0
                then r_bind (heap_compare_at h left_child_idx right_child_idx)
                       (\<lambda>swap_with_right. Inr (\<not> swap_with_right, swap_with_right))
                else Inr (left_child_swap0, right_child_swap0))
          (\<lambda>(left_child_swap, right_child_swap).
             if left_child_swap
             then r_bind (bounded_heap_swap_values_at_index h parent_idx left_child_idx)
                    (\<lambda>h'. Inr (h', Some left_child_idx))
             else if right_child_swap
             then r_bind (bounded_heap_swap_values_at_index h parent_idx right_child_idx)
                    (\<lambda>h'. Inr (h', Some right_child_idx))
             else Inr (h, None)))))"

partial_function (option) heapify_loop :: "BoundedHeap \<Rightarrow> size_t \<Rightarrow> BoundedHeap result option" where
  "heapify_loop h parent_idx =
     (case heapify_round h parent_idx of
        Inl f \<Rightarrow> Some (Inl f)
      | Inr (h', None) \<Rightarrow> Some (Inr h')
      | Inr (h', Some idx) \<Rightarrow> heapify_loop h' idx)"

declare heapify_loop.simps [code]

definition bounded_heap_pop ::
    "BoundedHeap option \<Rightarrow> ptr option \<Rightarrow> (ErrorCodes \<times> BoundedHeap \<times> ptr) result" where
  "bounded_heap_pop heap heap_item =
     r_bind (assert_ptr heap) (\<lambda>h.
     r_bind (assert_ptr heap_item) (\<lambda>old.
     r_bind (bounded_heap_get_size (Some h)) (\<lambda>n.
       if n = 0 then Inr (ERR_EMPTY, h, old)
       else r_bind (arr_get (heap_storage (config h)) 0) (\<lambda>top.
         let h1 = h\<lparr>items_in_heap := items_in_heap h - 1\<rparr> in
         r_bind (bounded_heap_swap_values_at_index h1 0 (bounded_heap_get_next_empty_index h1)) (\<lambda>h2.
         r_bind (loop_result (heapify_loop h2 0)) (\<lambda>h3.
           Inr (ERR_NONE, h3, top)))))))"

lemma unat_parent:
  "i \<noteq> 0 \<Longrightarrow> unat (bounded_heap_get_index_of_parent i) = (unat i - 1) div 2"
  by (simp add: bounded_heap_get_index_of_parent_def unat_div unat_pred_size)

lemma unat_parent_less: "i \<noteq> 0 \<Longrightarrow> unat (bounded_heap_get_index_of_parent i) < unat i"
proof -
  assume "i \<noteq> 0"
  moreover from this have "0 < unat i" by (simp add: unat_gt_0)
  ultimately show ?thesis by (simp add: unat_parent)
qed

function bubble_up_loop :: "BoundedHeap \<Rightarrow> size_t \<Rightarrow> BoundedHeap result" where
  "bubble_up_loop h child_idx =
     (if child_idx = 0 then Inr h
      else let parent_idx = bounded_heap_get_index_of_parent child_idx in
        r_bind (heap_compare_at h parent_idx child_idx) (\<lambda>swap.
          if swap
          then r_bind (bounded_heap_swap_values_at_index h parent_idx child_idx)
                 (\<lambda>h'. bubble_up_loop h' parent_idx)
          else Inr h))"
  by pat_completeness auto

termination
  by (relation "measure (\<lambda>(h, c). unat c)") (auto simp: unat_parent_less)

definition bounded_heap_push :: "BoundedHeap option \<Rightarrow> ptr \<Rightarrow> (ErrorCodes \<times> BoundedHeap) result" where
  "bounded_heap_push heap heap_item =
     r_bind (assert_ptr heap) (\<lambda>h.
     r_bind (bounded_heap_get_remaining (Some h)) (\<lambda>n.
       if n = 0 then Inr (ERR_NO_MEM, h)
       else let child_idx = bounded_heap_get_next_empty_index h in
         r_bind (arr_set (heap_storage (config h)) child_idx heap_item) (\<lambda>s.
           let h1 = (set_heap_storage h s)\<lparr>items_in_heap := items_in_heap h + 1\<rparr> in
           r_bind (bounded_heap_get_size (Some h1)) (\<lambda>m.
           r_bind (if m = 1 then Inr h1 else bubble_up_loop h1 child_idx) (\<lambda>h2.
             Inr (ERR_NONE, h2))))))"

declare bubble_up_loop.simps [simp del]

text \<open>The order of \<open>tests/test_bounded_heap.c\<close>: a swap when the parent is the smaller number.\<close>

definition max_heap_compare :: compare_func where
  "max_heap_compare parent child \<longleftrightarrow> sint parent < sint child"

section \<open>Heap order on a list\<close>

abbreviation parent_of :: "nat \<Rightarrow> nat" where
  "parent_of i \<equiv> (i - 1) div 2"

definition heap_ordered :: "compare_func \<Rightarrow> ptr list \<Rightarrow> nat \<Rightarrow> bool" where
  "heap_ordered cmp xs n \<longleftrightarrow> (\<forall>i<n. 0 < i \<longrightarrow> \<not> cmp (xs ! parent_of i) (xs ! i))"

text \<open>Ordered but for one index, on its way up or on its way down.\<close>

definition ordered_except_up :: "compare_func \<Rightarrow> ptr list \<Rightarrow> nat \<Rightarrow> nat \<Rightarrow> bool" where
  "ordered_except_up cmp xs n k \<longleftrightarrow>
     (\<forall>i<n. 0 < i \<longrightarrow> i \<noteq> k \<longrightarrow> \<not> cmp (xs ! parent_of i) (xs ! i))
     \<and> (\<forall>i<n. 0 < i \<longrightarrow> 0 < k \<longrightarrow> parent_of i = k \<longrightarrow> \<not> cmp (xs ! parent_of k) (xs ! i))"

definition ordered_except_down :: "compare_func \<Rightarrow> ptr list \<Rightarrow> nat \<Rightarrow> nat \<Rightarrow> bool" where
  "ordered_except_down cmp xs n k \<longleftrightarrow>
     (\<forall>i<n. 0 < i \<longrightarrow> parent_of i \<noteq> k \<longrightarrow> \<not> cmp (xs ! parent_of i) (xs ! i))
     \<and> (\<forall>i<n. 0 < i \<longrightarrow> 0 < k \<longrightarrow> parent_of i = k \<longrightarrow> \<not> cmp (xs ! parent_of k) (xs ! i))"

definition swap_list :: "'a list \<Rightarrow> nat \<Rightarrow> nat \<Rightarrow> 'a list" where
  "swap_list xs i j = xs[i := xs ! j, j := xs ! i]"

lemma length_swap_list [simp]: "length (swap_list xs i j) = length xs"
  by (simp add: swap_list_def)

lemma nth_swap_list:
  "i < length xs \<Longrightarrow> j < length xs \<Longrightarrow>
   swap_list xs i j ! k = (if k = i then xs ! j else if k = j then xs ! i else xs ! k)"
  by (auto simp: swap_list_def nth_list_update)

lemma mset_take_swap_list:
  assumes "i < n" "j < n" "n \<le> length xs"
  shows "mset (take n (swap_list xs i j)) = mset (take n xs)"
proof -
  have "take n (swap_list xs i j) = (take n xs)[i := take n xs ! j, j := take n xs ! i]"
    using assms by (simp add: swap_list_def take_update_swap)
  then show ?thesis using assms mset_swap [of j "take n xs" i] by simp
qed

lemma mset_take_more:
  assumes "mset (take m ys) = mset (take m xs)" and "drop m ys = drop m xs" and "m \<le> n"
  shows "mset (take n ys) = mset (take n xs)"
proof -
  have "take n zs = take m zs @ take (n - m) (drop m zs)" for zs :: "'a list"
    using assms(3) by (metis le_add_diff_inverse take_add)
  then show ?thesis using assms(1,2) by (metis mset_append)
qed

lemma drop_swap_list: "i < n \<Longrightarrow> j < n \<Longrightarrow> drop n (swap_list xs i j) = drop n xs"
  by (simp add: swap_list_def drop_update_cancel)

locale heap_compare =
  fixes cmp :: compare_func
  assumes asym: "cmp a b \<Longrightarrow> \<not> cmp b a"
    and negtrans: "\<not> cmp a b \<Longrightarrow> \<not> cmp b c \<Longrightarrow> \<not> cmp a c"
begin

lemma root_is_top: "heap_ordered cmp xs n \<Longrightarrow> i < n \<Longrightarrow> \<not> cmp (xs ! 0) (xs ! i)"
proof (induction i rule: less_induct)
  case (less i)
  show ?case
  proof (cases "i = 0")
    case True
    then show ?thesis using asym by blast
  next
    case False
    then have "parent_of i < i" by auto
    then have "\<not> cmp (xs ! 0) (xs ! parent_of i)" using less by simp
    moreover have "\<not> cmp (xs ! parent_of i) (xs ! i)"
      using less.prems False by (simp add: heap_ordered_def)
    ultimately show ?thesis by (rule negtrans)
  qed
qed

lemma up_done:
  "ordered_except_up cmp xs n k \<Longrightarrow> k = 0 \<or> \<not> cmp (xs ! parent_of k) (xs ! k) \<Longrightarrow>
   heap_ordered cmp xs n"
  by (auto simp: ordered_except_up_def heap_ordered_def)

lemma up_step:
  assumes "ordered_except_up cmp xs n k" and "0 < k" "k < n" "n \<le> length xs"
    and "cmp (xs ! parent_of k) (xs ! k)"
  shows "ordered_except_up cmp (swap_list xs (parent_of k) k) n (parent_of k)"
proof -
  let ?p = "parent_of k" and ?ys = "swap_list xs (parent_of k) k"
  have pk: "?p < k" using assms(2) by auto
  have nth: "?ys ! i = (if i = ?p then xs ! k else if i = k then xs ! ?p else xs ! i)" for i
    using assms pk by (simp add: nth_swap_list)
  note up = assms(1) [unfolded ordered_except_up_def]
  have "\<not> cmp (?ys ! parent_of i) (?ys ! i)" if i: "i < n" "0 < i" "i \<noteq> ?p" for i
  proof -
    consider "i = k" | "i \<noteq> k" "parent_of i = k" | "i \<noteq> k" "parent_of i = ?p"
      | "i \<noteq> k" "parent_of i \<noteq> k" "parent_of i \<noteq> ?p" by blast
    then show ?thesis
    proof cases
      case 1 then show ?thesis using nth pk asym [OF assms(5)] by simp
    next
      case 2 then show ?thesis using nth pk i up assms(2) by simp
    next
      case 3
      then have "\<not> cmp (xs ! ?p) (xs ! i)" using up i by metis
      then show ?thesis using nth 3 i negtrans [OF asym [OF assms(5)]] by simp
    next
      case 4 then show ?thesis using nth i up by simp
    qed
  qed
  moreover have "\<not> cmp (?ys ! parent_of ?p) (?ys ! i)"
    if i: "i < n" "0 < i" "0 < ?p" "parent_of i = ?p" for i
  proof -
    have g: "parent_of ?p < ?p" using i(3) by auto
    have top: "\<not> cmp (xs ! parent_of ?p) (xs ! ?p)" using up i(3) pk assms(3) by simp
    have "i \<noteq> ?p" using i by auto
    show ?thesis
    proof (cases "i = k")
      case True then show ?thesis using nth g pk top by simp
    next
      case False
      then have "\<not> cmp (xs ! ?p) (xs ! i)" using up i by metis
      then show ?thesis using nth g pk False \<open>i \<noteq> ?p\<close> negtrans [OF top] by simp
    qed
  qed
  ultimately show ?thesis unfolding ordered_except_up_def by blast
qed

lemma down_done:
  "ordered_except_down cmp xs n k \<Longrightarrow>
   (\<And>i. i < n \<Longrightarrow> 0 < i \<Longrightarrow> parent_of i = k \<Longrightarrow> \<not> cmp (xs ! k) (xs ! i)) \<Longrightarrow>
   heap_ordered cmp xs n"
  unfolding ordered_except_down_def heap_ordered_def by metis

lemma down_step:
  assumes "ordered_except_down cmp xs n k" and c: "0 < c" "c < n" "parent_of c = k"
    and "n \<le> length xs" and swap: "cmp (xs ! k) (xs ! c)"
    and dom: "\<And>i. i < n \<Longrightarrow> 0 < i \<Longrightarrow> parent_of i = k \<Longrightarrow> \<not> cmp (xs ! c) (xs ! i)"
  shows "ordered_except_down cmp (swap_list xs k c) n c"
proof -
  let ?ys = "swap_list xs k c"
  have kc: "k < c" using c by auto
  have nth: "?ys ! i = (if i = k then xs ! c else if i = c then xs ! k else xs ! i)" for i
    using assms kc by (simp add: nth_swap_list)
  note down = assms(1) [unfolded ordered_except_down_def]
  have "\<not> cmp (?ys ! parent_of i) (?ys ! i)" if i: "i < n" "0 < i" "parent_of i \<noteq> c" for i
  proof -
    consider "i = c" | "i \<noteq> c" "parent_of i = k" | "i = k" | "i \<noteq> c" "i \<noteq> k" "parent_of i \<noteq> k" by blast
    then show ?thesis
    proof cases
      case 1 then show ?thesis using nth kc c asym [OF swap] by simp
    next
      case 2
      then have "i \<noteq> k" using i(2) by auto
      with 2 show ?thesis using nth i dom by simp
    next
      case 3
      then have "parent_of k \<noteq> k" "parent_of k \<noteq> c" using i kc by auto
      moreover have "\<not> cmp (xs ! parent_of k) (xs ! c)" using down c i 3 by blast
      ultimately show ?thesis using nth 3 by simp
    next
      case 4 then show ?thesis using nth i down by simp
    qed
  qed
  moreover have "\<not> cmp (?ys ! parent_of c) (?ys ! i)" if i: "i < n" "0 < i" "parent_of i = c" for i
  proof -
    have "i \<noteq> c" "i \<noteq> k" using i kc by auto
    moreover have "\<not> cmp (xs ! c) (xs ! i)" using down i kc by (metis less_irrefl)
    ultimately show ?thesis using nth c(3) by simp
  qed
  ultimately show ?thesis unfolding ordered_except_down_def by blast
qed

end

section \<open>One round of the repair loop\<close>

text \<open>The child the loop swaps index \<open>k\<close> with, on the list of cells.\<close>

definition pick_child :: "compare_func \<Rightarrow> ptr list \<Rightarrow> nat \<Rightarrow> nat \<Rightarrow> nat option" where
  "pick_child cmp xs n k =
     (if n \<le> 2 * k + 2 then None
      else if cmp (xs ! k) (xs ! (2 * k + 1))
           \<and> \<not> (cmp (xs ! k) (xs ! (2 * k + 2)) \<and> cmp (xs ! (2 * k + 1)) (xs ! (2 * k + 2)))
      then Some (2 * k + 1)
      else if cmp (xs ! k) (xs ! (2 * k + 2)) then Some (2 * k + 2)
      else None)"

text \<open>
  The loop looks at a node only when it has two children, so it repairs the order on the
  longest prefix of odd length.
\<close>

definition odd_prefix :: "nat \<Rightarrow> nat" where
  "odd_prefix n = (if even n then n - 1 else n)"

lemma odd_prefix_two: "2 * k + 2 < n \<Longrightarrow> 2 * k + 2 < odd_prefix n"
  unfolding odd_prefix_def by presburger

lemma odd_prefix_leaf: "n \<le> 2 * k + 2 \<Longrightarrow> odd_prefix n \<le> 2 * k + 1"
  unfolding odd_prefix_def by presburger

lemma odd_prefix_le: "odd_prefix n \<le> n"
  by (simp add: odd_prefix_def)

lemma pick_child_bounds:
  "pick_child cmp xs n k = Some c \<Longrightarrow>
   k < c \<and> c < n \<and> 0 < c \<and> c < odd_prefix n \<and> parent_of c = k \<and> cmp (xs ! k) (xs ! c)"
  using odd_prefix_two [of k n] by (auto simp: pick_child_def split: if_splits)

lemma children_of: "0 < i \<Longrightarrow> parent_of i = k \<Longrightarrow> i = 2 * k + 1 \<or> i = 2 * k + 2"
  by presburger

context heap_compare
begin

lemma pick_child_dominates:
  assumes "pick_child cmp xs n k = Some c" "0 < i" "parent_of i = k"
  shows "\<not> cmp (xs ! c) (xs ! i)"
proof -
  let ?l = "xs ! (2 * k + 1)" and ?r = "xs ! (2 * k + 2)"
  have irrefl: "\<not> cmp x x" for x using asym by blast
  have i: "xs ! i = ?l \<or> xs ! i = ?r" using children_of [OF assms(2,3)] by auto
  from assms(1) consider "c = 2 * k + 1" "cmp (xs ! k) ?l" "\<not> (cmp (xs ! k) ?r \<and> cmp ?l ?r)"
    | "c = 2 * k + 2" "cmp (xs ! k) ?r" "\<not> cmp (xs ! k) ?l \<or> cmp ?l ?r"
    by (auto simp: pick_child_def split: if_splits)
  then show ?thesis
  proof cases
    case 1
    then have "\<not> cmp ?l ?r" using negtrans [OF asym [OF 1(2)]] by blast
    then show ?thesis using 1 i irrefl by auto
  next
    case 2
    then have "\<not> cmp ?r ?l" using negtrans [OF asym [OF 2(2)]] asym by blast
    then show ?thesis using 2 i irrefl by auto
  qed
qed

lemma pick_child_None:
  assumes "pick_child cmp xs n k = None" "i < odd_prefix n" "0 < i" "parent_of i = k"
  shows "\<not> cmp (xs ! k) (xs ! i)"
proof -
  have "\<not> n \<le> 2 * k + 2"
    using assms(2) children_of [OF assms(3,4)] odd_prefix_leaf [of n k] by auto
  then show ?thesis
    using assms(1) children_of [OF assms(3,4)] by (auto simp: pick_child_def split: if_splits)
qed

lemma heapify_step_order:
  assumes "ordered_except_down cmp xs (odd_prefix n) k" and "n \<le> length xs"
  shows "pick_child cmp xs n k = None \<Longrightarrow> heap_ordered cmp xs (odd_prefix n)"
    and "pick_child cmp xs n k = Some c \<Longrightarrow>
         ordered_except_down cmp (swap_list xs k c) (odd_prefix n) c"
proof -
  show "heap_ordered cmp xs (odd_prefix n)" if "pick_child cmp xs n k = None"
    using down_done [OF assms(1)] pick_child_None [OF that] by blast
  show "ordered_except_down cmp (swap_list xs k c) (odd_prefix n) c"
    if pick: "pick_child cmp xs n k = Some c"
  proof (rule down_step [OF assms(1)])
    show "odd_prefix n \<le> length xs" using assms(2) by (auto simp: odd_prefix_def)
  qed (use pick_child_bounds [OF pick] pick_child_dominates [OF pick] in auto)
qed

end

interpretation max_order: heap_compare max_heap_compare
  by unfold_locales (auto simp: max_heap_compare_def)

section \<open>The C loops on the cells\<close>

text \<open>
  A heap over the cells \<open>xs\<close> ordered by \<open>cmp\<close>. An array of 8-byte pointers has fewer than
  \<open>2 ^ 61\<close> cells, so the index arithmetic of the code stays below \<open>2 ^ 64\<close>.
\<close>

definition heap_over :: "BoundedHeap \<Rightarrow> compare_func \<Rightarrow> ptr list \<Rightarrow> bool" where
  "heap_over h cmp xs \<longleftrightarrow> heap_storage (config h) = Some xs \<and> compare (config h) = Some cmp
     \<and> unat (items_in_heap h) \<le> length xs \<and> length xs < 2 ^ 61"

lemma unat_children:
  assumes "unat i < 2 ^ 61"
  shows "unat (bounded_heap_get_index_of_left_child i) = 2 * unat i + 1"
    and "unat (bounded_heap_get_index_of_right_child i) = 2 * unat i + 2"
  using assms
  by (simp_all add: bounded_heap_get_index_of_left_child_def
      bounded_heap_get_index_of_right_child_def unat_word_ariths)

lemma heap_over_items [simp]: "items_in_heap (set_heap_storage h s) = items_in_heap h"
  and heap_over_max [simp]: "heap_max_size (set_heap_storage h s) = heap_max_size h"
  and set_heap_storage_twice [simp]: "set_heap_storage (set_heap_storage h s) t = set_heap_storage h t"
  by (simp_all add: set_heap_storage_def)

lemma heap_over_set:
  "heap_over h cmp xs \<Longrightarrow> length ys = length xs \<Longrightarrow> heap_over (set_heap_storage h (Some ys)) cmp ys"
  by (simp add: heap_over_def set_heap_storage_def)

lemma heap_compare_at_eq:
  "heap_over h cmp xs \<Longrightarrow> unat a < length xs \<Longrightarrow> unat b < length xs \<Longrightarrow>
   heap_compare_at h a b = Inr (cmp (xs ! unat a) (xs ! unat b))"
  by (simp add: heap_over_def heap_compare_at_def bounded_heap_get_value_at_def c_simps)

lemma heap_swap_eq:
  "heap_over h cmp xs \<Longrightarrow> unat a < length xs \<Longrightarrow> unat b < length xs \<Longrightarrow>
   bounded_heap_swap_values_at_index h a b =
     Inr (set_heap_storage h (Some (swap_list xs (unat a) (unat b))))"
  by (simp add: heap_over_def bounded_heap_swap_values_at_index_def swap_list_def c_simps)

lemma heapify_round_eq:
  assumes over: "heap_over h cmp xs" and p: "unat p \<le> unat (items_in_heap h)"
  shows "heapify_round h p =
    (case pick_child cmp xs (unat (items_in_heap h)) (unat p) of
       None \<Rightarrow> Inr (h, None)
     | Some c \<Rightarrow> Inr (set_heap_storage h (Some (swap_list xs (unat p) c)), Some (word_of_nat c)))"
proof -
  let ?n = "unat (items_in_heap h)" and ?k = "unat p"
  have n: "?n \<le> length xs" "length xs < 2 ^ 61" using over by (simp_all add: heap_over_def)
  then have k: "?k < 2 ^ 61" using p by linarith
  note kids = unat_children [OF k]
  have l: "bounded_heap_get_index_of_left_child p = word_of_nat (2 * ?k + 1)"
    and r: "bounded_heap_get_index_of_right_child p = word_of_nat (2 * ?k + 2)"
    by (metis kids of_nat_unat ucast_id)+
  show ?thesis
  proof (cases "?n \<le> 2 * ?k + 2")
    case True
    then show ?thesis
      using kids by (simp add: heapify_round_def pick_child_def word_le_nat_alt Let_def)
  next
    case False
    then have "2 * ?k + 1 < length xs" "2 * ?k + 2 < length xs" "?k < length xs"
      using n by linarith+
    then show ?thesis
      using False kids l r
      by (auto simp: heapify_round_def pick_child_def word_le_nat_alt Let_def
          heap_compare_at_eq [OF over] heap_swap_eq [OF over])
  qed
qed

text \<open>
  The repair loop comes back, permutes the longest prefix of odd length, restores the order on it
  and leaves the cells behind it as they are.
\<close>

lemma heapify_loop_eq:
  assumes "heap_over h cmp xs" and "unat p \<le> unat (items_in_heap h)"
    and "n = unat (items_in_heap h)"
  shows "\<exists>ys. heapify_loop h p = Some (Inr (set_heap_storage h (Some ys)))
           \<and> length ys = length xs \<and> mset (take (odd_prefix n) ys) = mset (take (odd_prefix n) xs)
           \<and> drop (odd_prefix n) ys = drop (odd_prefix n) xs
           \<and> (heap_compare cmp \<longrightarrow> ordered_except_down cmp xs (odd_prefix n) (unat p)
                \<longrightarrow> heap_ordered cmp ys (odd_prefix n))"
  using assms
proof (induction "n - unat p" arbitrary: h p xs rule: less_induct)
  case less
  note over = less.prems(1) and n = less.prems(3)
  have len: "n \<le> length xs" "length xs < 2 ^ 61" using over n by (simp_all add: heap_over_def)
  note round = heapify_round_eq [OF less.prems(1,2), folded n]
  show ?case
  proof (cases "pick_child cmp xs n (unat p)")
    case None
    have "set_heap_storage h (Some xs) = h"
      using over by (simp add: heap_over_def set_heap_storage_def)
    moreover have "heap_ordered cmp xs (odd_prefix n)"
      if "heap_compare cmp" "ordered_except_down cmp xs (odd_prefix n) (unat p)"
      using heap_compare.heapify_step_order(1) [OF that len(1) None] .
    ultimately show ?thesis
      using round None by (intro exI [of _ xs]) (simp add: heapify_loop.simps [of h p])
  next
    case (Some c)
    note c = pick_child_bounds [OF Some]
    let ?zs = "swap_list xs (unat p) c"
    let ?h = "set_heap_storage h (Some ?zs)" and ?q = "word_of_nat c :: size_t"
    have "c < 18446744073709551616" using c len by simp
    then have q: "unat ?q = c" by (simp add: unat_of_nat)
    have dec: "n - unat ?q < n - unat p" using q c by linarith
    have over': "heap_over ?h cmp ?zs" by (rule heap_over_set [OF over]) simp
    have step: "heapify_loop h p = heapify_loop ?h ?q"
      using round Some by (simp add: heapify_loop.simps [of h p])
    obtain ys where ys: "heapify_loop ?h ?q = Some (Inr (set_heap_storage ?h (Some ys)))"
        "length ys = length ?zs" "mset (take (odd_prefix n) ys) = mset (take (odd_prefix n) ?zs)"
        "drop (odd_prefix n) ys = drop (odd_prefix n) ?zs"
        "heap_compare cmp \<Longrightarrow> ordered_except_down cmp ?zs (odd_prefix n) c \<Longrightarrow>
         heap_ordered cmp ys (odd_prefix n)"
      using less.hyps [OF dec over'] q c n by auto
    have "heap_ordered cmp ys (odd_prefix n)"
      if "heap_compare cmp" "ordered_except_down cmp xs (odd_prefix n) (unat p)"
      using ys(5) [OF that(1) heap_compare.heapify_step_order(2) [OF that len(1) Some]] .
    then show ?thesis
      using step ys c len odd_prefix_le [of n]
      by (intro exI [of _ ys]) (simp add: mset_take_swap_list drop_swap_list)
  qed
qed

lemma bubble_up_loop_eq:
  assumes "heap_over h cmp xs" and "unat c < unat (items_in_heap h)"
    and "n = unat (items_in_heap h)"
  shows "\<exists>ys. bubble_up_loop h c = Inr (set_heap_storage h (Some ys))
           \<and> length ys = length xs \<and> mset (take n ys) = mset (take n xs) \<and> drop n ys = drop n xs
           \<and> (heap_compare cmp \<longrightarrow> ordered_except_up cmp xs n (unat c) \<longrightarrow> heap_ordered cmp ys n)"
  using assms
proof (induction h c arbitrary: xs rule: bubble_up_loop.induct)
  case (1 h c)
  note over = "1.prems"(1) and n = "1.prems"(3)
  have len: "n \<le> length xs" "unat c < n" using over "1.prems" by (simp_all add: heap_over_def)
  have same: "set_heap_storage h (Some xs) = h"
    using over by (simp add: heap_over_def set_heap_storage_def)
  let ?p = "bounded_heap_get_index_of_parent c"
  show ?case
  proof (cases "c \<noteq> 0 \<and> cmp (xs ! unat ?p) (xs ! unat c)")
    case False
    have "bubble_up_loop h c = Inr h"
    proof (cases "c = 0")
      case True
      then show ?thesis by (simp add: bubble_up_loop.simps [of h 0])
    next
      case nz: False
      then have "heap_compare_at h ?p c = Inr False"
        using False heap_compare_at_eq [OF over, of ?p c] unat_parent_less [OF nz] len by simp
      then show ?thesis by (simp add: bubble_up_loop.simps [of h c] Let_def)
    qed
    moreover have "heap_ordered cmp xs n"
      if "heap_compare cmp" "ordered_except_up cmp xs n (unat c)"
      using heap_compare.up_done [OF that] False unat_parent [of c] by (cases "c = 0") auto
    ultimately show ?thesis using same by (intro exI [of _ xs]) simp
  next
    case True
    then have c: "c \<noteq> 0" "0 < unat c" "unat ?p = parent_of (unat c)" "unat ?p < unat c"
      using unat_parent_less [of c] by (auto simp: unat_parent unat_gt_0)
    let ?zs = "swap_list xs (unat ?p) (unat c)"
    let ?h = "set_heap_storage h (Some ?zs)"
    have cmp: "heap_compare_at h ?p c = Inr True"
      using True heap_compare_at_eq [OF over, of ?p c] c len by simp
    have swap: "bounded_heap_swap_values_at_index h ?p c = Inr ?h"
      using heap_swap_eq [OF over, of ?p c] c len by simp
    have step: "bubble_up_loop h c = bubble_up_loop ?h ?p"
      by (subst bubble_up_loop.simps) (use c cmp swap in \<open>simp add: Let_def\<close>)
    have over': "heap_over ?h cmp ?zs" by (rule heap_over_set [OF over]) simp
    obtain ys where ys: "bubble_up_loop ?h ?p = Inr (set_heap_storage ?h (Some ys))"
        "length ys = length ?zs" "mset (take n ys) = mset (take n ?zs)" "drop n ys = drop n ?zs"
        "heap_compare cmp \<Longrightarrow> ordered_except_up cmp ?zs n (unat ?p) \<Longrightarrow> heap_ordered cmp ys n"
      using "1.IH" [OF c(1) refl cmp TrueI swap over'] c(4) len(2) n by auto
    have "heap_ordered cmp ys n"
      if "heap_compare cmp" "ordered_except_up cmp xs n (unat c)"
      using ys(5) [OF that(1)] heap_compare.up_step [OF that c(2) len(2,1)] True c(3) by simp
    then show ?thesis
      using step ys c len by (intro exI [of _ ys]) (simp add: mset_take_swap_list drop_swap_list)
  qed
qed

section \<open>The operations\<close>

definition heap_cells :: "BoundedHeap \<Rightarrow> ptr list" where
  "heap_cells h = (case heap_storage (config h) of None \<Rightarrow> [] | Some xs \<Rightarrow> xs)"

definition heap_cmp :: "BoundedHeap \<Rightarrow> compare_func" where
  "heap_cmp h = (case compare (config h) of None \<Rightarrow> (\<lambda>_ _. False) | Some cmp \<Rightarrow> cmp)"

definition heap_count :: "BoundedHeap \<Rightarrow> nat" where
  "heap_count h = unat (items_in_heap h)"

text \<open>The pointers in the heap, and the invariant that needs no property of the comparison.\<close>

definition heap_items :: "BoundedHeap \<Rightarrow> ptr list" where
  "heap_items h = take (heap_count h) (heap_cells h)"

definition heap_inv :: "BoundedHeap \<Rightarrow> bool" where
  "heap_inv h \<longleftrightarrow> \<not> Option.is_none (heap_storage (config h)) \<and> \<not> Option.is_none (compare (config h))
     \<and> items_in_heap h \<le> heap_max_size h \<and> unat (heap_max_size h) \<le> length (heap_cells h)
     \<and> length (heap_cells h) < 2 ^ 61"

definition heap_in_order :: "BoundedHeap \<Rightarrow> bool" where
  "heap_in_order h \<longleftrightarrow> heap_ordered (heap_cmp h) (heap_cells h) (heap_count h)"

lemma heap_inv_over:
  assumes "heap_inv h"
  shows "heap_over h (heap_cmp h) (heap_cells h)"
  using assms
  by (auto simp: heap_inv_def heap_over_def heap_cells_def heap_cmp_def word_le_nat_alt
      Option.is_none_def split: option.splits)

lemma heap_fields_set [simp]:
  "heap_cells (set_heap_storage h (Some ys)) = ys"
  "heap_cmp (set_heap_storage h (Some ys)) = heap_cmp h"
  "heap_cells (h\<lparr>items_in_heap := k\<rparr>) = heap_cells h"
  "heap_cmp (h\<lparr>items_in_heap := k\<rparr>) = heap_cmp h"
  by (simp_all add: heap_cells_def heap_cmp_def set_heap_storage_def)

lemma heap_over_inv:
  "heap_over h cmp xs \<Longrightarrow> items_in_heap h \<le> heap_max_size h \<Longrightarrow> unat (heap_max_size h) \<le> length xs
   \<Longrightarrow> heap_inv h"
  by (simp add: heap_over_def heap_inv_def heap_cells_def)

lemma in_order_odd_prefix:
  "heap_in_order h \<Longrightarrow> heap_ordered (heap_cmp h) (heap_cells h) (odd_prefix (heap_count h))"
  using odd_prefix_le [of "heap_count h"] by (auto simp: heap_in_order_def heap_ordered_def)

lemma bounded_heap_push_step:
  assumes inv: "heap_inv h" and room: "heap_count h < unat (heap_max_size h)"
  shows "\<exists>h'. bounded_heap_push (Some h) x = Inr (ERR_NONE, h') \<and> heap_inv h'
           \<and> heap_max_size h' = heap_max_size h \<and> heap_cmp h' = heap_cmp h
           \<and> heap_count h' = Suc (heap_count h)
           \<and> mset (heap_items h') = add_mset x (mset (heap_items h))
           \<and> (heap_compare (heap_cmp h) \<longrightarrow> heap_in_order h \<longrightarrow> heap_in_order h')"
proof -
  let ?n = "heap_count h" and ?c = "items_in_heap h" and ?cmp = "heap_cmp h"
  let ?xs = "(heap_cells h)[heap_count h := x]"
  let ?h1 = "(set_heap_storage h (Some ?xs))\<lparr>items_in_heap := items_in_heap h + 1\<rparr>"
  note over = heap_inv_over [OF inv]
  have len: "?n < length (heap_cells h)"
    using room inv by (simp add: heap_inv_def)
  have n1: "unat (?c + 1) = Suc ?n"
    using unat_Suc_size [of ?c "heap_max_size h"] room by (simp add: heap_count_def)
  have over1: "heap_over ?h1 ?cmp ?xs"
    using over len n1 by (simp add: heap_over_def set_heap_storage_def)
  obtain ys where ys: "bubble_up_loop ?h1 ?c = Inr (set_heap_storage ?h1 (Some ys))"
      "length ys = length ?xs" "mset (take (Suc ?n) ys) = mset (take (Suc ?n) ?xs)"
      "heap_compare ?cmp \<Longrightarrow> ordered_except_up ?cmp ?xs (Suc ?n) ?n \<Longrightarrow> heap_ordered ?cmp ys (Suc ?n)"
    using bubble_up_loop_eq [OF over1, of ?c "Suc ?n"] n1 by (auto simp: heap_count_def)
  let ?h' = "set_heap_storage ?h1 (Some ys)"
  have "?c + 1 = 1 \<longrightarrow> bubble_up_loop ?h1 ?c = Inr ?h1"
    by (simp add: bubble_up_loop.simps [of _ 0])
  moreover have "heap_storage (config h) = Some (heap_cells h)" "heap_max_size h \<noteq> ?c"
    using over room by (auto simp: heap_over_def heap_count_def)
  ultimately have run: "bounded_heap_push (Some h) x = Inr (ERR_NONE, ?h')"
    using ys(1) len
    by (auto simp: bounded_heap_push_def bounded_heap_get_remaining_def bounded_heap_get_size_def
        bounded_heap_get_next_empty_index_def heap_count_def c_simps Let_def)
  have count: "heap_count ?h' = Suc ?n" using n1 by (simp add: heap_count_def)
  have "heap_inv ?h'"
  proof (rule heap_over_inv)
    show "heap_over ?h' ?cmp ys" by (rule heap_over_set [OF over1 ys(2)])
  qed (use n1 room inv ys(2) in \<open>simp_all add: heap_inv_def heap_count_def word_le_nat_alt\<close>)
  moreover have "mset (heap_items ?h') = add_mset x (mset (heap_items h))"
    using ys(3) count len by (simp add: heap_items_def take_Suc_conv_app_nth)
  moreover have "heap_in_order ?h'" if "heap_compare ?cmp" "heap_in_order h"
  proof -
    have "ordered_except_up ?cmp ?xs (Suc ?n) ?n"
      using that(2) by (auto simp: heap_in_order_def heap_ordered_def ordered_except_up_def nth_list_update)
    then show ?thesis using ys(4) that(1) count by (simp add: heap_in_order_def)
  qed
  ultimately show ?thesis using run count by auto
qed

lemma bounded_heap_pop_step:
  assumes inv: "heap_inv h" and ne: "0 < heap_count h"
  shows "\<exists>h'. bounded_heap_pop (Some h) (Some old) = Inr (ERR_NONE, h', heap_cells h ! 0)
           \<and> heap_inv h' \<and> heap_max_size h' = heap_max_size h \<and> heap_cmp h' = heap_cmp h
           \<and> heap_count h' = heap_count h - 1
           \<and> mset (heap_items h) = add_mset (heap_cells h ! 0) (mset (heap_items h'))
           \<and> (\<forall>i. odd_prefix (heap_count h') \<le> i \<longrightarrow> i < heap_count h' \<longrightarrow> heap_cells h' ! i = heap_cells h ! i)
           \<and> (heap_compare (heap_cmp h)
                \<longrightarrow> heap_ordered (heap_cmp h) (heap_cells h) (odd_prefix (heap_count h))
                \<longrightarrow> heap_ordered (heap_cmp h) (heap_cells h') (odd_prefix (heap_count h')))"
proof -
  let ?xs = "heap_cells h" and ?cmp = "heap_cmp h" and ?c = "items_in_heap h - 1"
  let ?h1 = "h\<lparr>items_in_heap := ?c\<rparr>"
  obtain n where n: "heap_count h = Suc n" using ne by (cases "heap_count h") auto
  have nz: "items_in_heap h \<noteq> 0" using ne by (auto simp: heap_count_def)
  have c: "unat ?c = n" using unat_pred_size [OF nz] n by (simp add: heap_count_def)
  note over = heap_inv_over [OF inv]
  have len: "n < length ?xs" "heap_storage (config h) = Some ?xs"
    using over n by (simp_all add: heap_over_def heap_count_def)
  then have ne0: "?xs \<noteq> []" by auto
  have over1: "heap_over ?h1 ?cmp ?xs"
    using over n c len by (simp add: heap_over_def)
  let ?zs = "swap_list ?xs 0 n"
  let ?h2 = "set_heap_storage ?h1 (Some ?zs)"
  have over2: "heap_over ?h2 ?cmp ?zs" by (rule heap_over_set [OF over1]) simp
  have swap: "bounded_heap_swap_values_at_index ?h1 0 ?c = Inr ?h2"
    using heap_swap_eq [OF over1, of 0 ?c] len c ne0 by simp
  obtain ys where ys: "heapify_loop ?h2 0 = Some (Inr (set_heap_storage ?h2 (Some ys)))"
      "length ys = length ?zs" "mset (take (odd_prefix n) ys) = mset (take (odd_prefix n) ?zs)"
      "drop (odd_prefix n) ys = drop (odd_prefix n) ?zs"
      "heap_compare ?cmp \<Longrightarrow> ordered_except_down ?cmp ?zs (odd_prefix n) 0 \<Longrightarrow>
       heap_ordered ?cmp ys (odd_prefix n)"
    using heapify_loop_eq [OF over2, of 0 n] c by auto
  let ?h' = "set_heap_storage ?h2 (Some ys)"
  have run: "bounded_heap_pop (Some h) (Some old) = Inr (ERR_NONE, ?h', ?xs ! 0)"
    using swap ys(1) nz len ne0
    by (simp add: bounded_heap_pop_def bounded_heap_get_size_def
        bounded_heap_get_next_empty_index_def c_simps Let_def)
  have count: "heap_count ?h' = n" using c by (simp add: heap_count_def)
  have "heap_inv ?h'"
  proof (rule heap_over_inv)
    show "heap_over ?h' ?cmp ys" by (rule heap_over_set [OF over2 ys(2)])
  qed (use c n inv ys(2) in \<open>simp_all add: heap_inv_def heap_count_def word_le_nat_alt\<close>)
  moreover have "mset (heap_items h) = add_mset (?xs ! 0) (mset (heap_items ?h'))"
  proof -
    have "mset (take (Suc n) ?xs) = mset (take (Suc n) ?zs)"
      using len by (simp add: mset_take_swap_list)
    also have "\<dots> = add_mset (?zs ! n) (mset (take n ?zs))"
      using len by (simp add: take_Suc_conv_app_nth)
    also have "?zs ! n = ?xs ! 0" using len ne0 by (simp add: nth_swap_list)
    finally show ?thesis
      using mset_take_more [OF ys(3,4) odd_prefix_le] n count by (simp add: heap_items_def)
  qed
  moreover have "ys ! i = ?xs ! i" if "odd_prefix n \<le> i" "i < n" for i
  proof -
    have "0 < i" using that unfolding odd_prefix_def by presburger
    moreover have "ys ! i = ?zs ! i"
      using that ys(2) arg_cong [OF ys(4), of "\<lambda>l. l ! (i - odd_prefix n)"] len by simp
    ultimately show ?thesis using that(2) len ne0 by (simp add: nth_swap_list)
  qed
  moreover have "heap_ordered ?cmp ys (odd_prefix n)"
    if "heap_compare ?cmp" "heap_ordered ?cmp ?xs (odd_prefix (Suc n))"
  proof (rule ys(5) [OF that(1)])
    have "odd_prefix n \<le> n" "odd_prefix n \<le> odd_prefix (Suc n)" by (auto simp: odd_prefix_def)
    then show "ordered_except_down ?cmp ?zs (odd_prefix n) 0"
      using that(2) len ne0
      by (auto simp: ordered_except_down_def heap_ordered_def nth_swap_list)
  qed
  ultimately show ?thesis using run count n by auto
qed

section \<open>The heap as a bag\<close>

text \<open>
  What the heap promises whatever the comparison: pointers go in and come out, none lost,
  none made up. The order in which they come out is a separate matter.
\<close>

fun push_items :: "('h \<Rightarrow> 'a \<Rightarrow> (ErrorCodes \<times> 'h) result) \<Rightarrow> 'h \<Rightarrow> 'a list \<Rightarrow> 'h result" where
  "push_items push h [] = Inr h"
| "push_items push h (x # xs) = r_bind (push h x) (\<lambda>(_, h'). push_items push h' xs)"

fun pop_items ::
    "('h \<Rightarrow> (ErrorCodes \<times> 'h \<times> 'a) result) \<Rightarrow> 'h \<Rightarrow> nat \<Rightarrow> ('a list \<times> 'h) result" where
  "pop_items pop h 0 = Inr ([], h)"
| "pop_items pop h (Suc n) =
     r_bind (pop h) (\<lambda>(_, h', x). r_bind (pop_items pop h' n) (\<lambda>(xs, h''). Inr (x # xs, h'')))"

locale bounded_bag =
  fixes push :: "'h \<Rightarrow> 'a \<Rightarrow> (ErrorCodes \<times> 'h) result"
    and pop :: "'h \<Rightarrow> (ErrorCodes \<times> 'h \<times> 'a) result"
    and inv :: "'h \<Rightarrow> bool"
    and capacity :: "'h \<Rightarrow> nat"
    and bag :: "'h \<Rightarrow> 'a multiset"
  assumes push_step: "inv h \<Longrightarrow> size (bag h) < capacity h \<Longrightarrow>
        \<exists>h'. push h x = Inr (ERR_NONE, h') \<and> inv h' \<and> capacity h' = capacity h
             \<and> bag h' = add_mset x (bag h)"
    and pop_step: "inv h \<Longrightarrow> bag h \<noteq> {#} \<Longrightarrow>
        \<exists>h' x. pop h = Inr (ERR_NONE, h', x) \<and> inv h' \<and> capacity h' = capacity h
             \<and> bag h = add_mset x (bag h')"
begin

lemma push_items_bag:
  assumes "inv h" and "size (bag h) + length xs \<le> capacity h"
  shows "\<exists>h'. push_items push h xs = Inr h' \<and> inv h' \<and> bag h' = bag h + mset xs"
  using assms
proof (induction xs arbitrary: h)
  case Nil
  then show ?case by simp
next
  case (Cons x xs)
  then obtain h1 where "push h x = Inr (ERR_NONE, h1)" "inv h1" "capacity h1 = capacity h"
    "bag h1 = add_mset x (bag h)"
    using push_step [of h x] by auto
  then show ?case using Cons.IH [of h1] Cons.prems by auto
qed

lemma pop_items_bag:
  assumes "inv h" and "size (bag h) = n"
  shows "\<exists>xs h'. pop_items pop h n = Inr (xs, h') \<and> mset xs = bag h \<and> bag h' = {#}"
  using assms
proof (induction n arbitrary: h)
  case 0
  then show ?case by simp
next
  case (Suc n)
  then obtain h1 x where h1: "pop h = Inr (ERR_NONE, h1, x)" "inv h1" "bag h = add_mset x (bag h1)"
    using pop_step [of h] by fastforce
  then show ?case using Suc.IH [of h1] Suc.prems by auto
qed

lemma drain_permutation:
  assumes "inv h" and "bag h = {#}" and "length xs \<le> capacity h"
  shows "\<exists>h' ys h''. push_items push h xs = Inr h' \<and> pop_items pop h' (length xs) = Inr (ys, h'')
           \<and> mset ys = mset xs \<and> bag h'' = {#}"
  using push_items_bag [of h xs] pop_items_bag [of _ "length xs"] assms by fastforce

end

lemma size_heap_items: "heap_inv h \<Longrightarrow> length (heap_items h) = heap_count h"
  using heap_inv_over [of h] by (simp add: heap_items_def heap_over_def heap_count_def)

interpretation bh: bounded_bag
  "\<lambda>h. bounded_heap_push (Some h)" "\<lambda>h. bounded_heap_pop (Some h) (Some 0)"
  heap_inv "\<lambda>h. unat (heap_max_size h)" "\<lambda>h. mset (heap_items h)"
proof unfold_locales
  fix h x
  assume inv: "heap_inv h"
  show "\<exists>h'. bounded_heap_push (Some h) x = Inr (ERR_NONE, h') \<and> heap_inv h'
      \<and> unat (heap_max_size h') = unat (heap_max_size h)
      \<and> mset (heap_items h') = add_mset x (mset (heap_items h))"
    if "size (mset (heap_items h)) < unat (heap_max_size h)"
    using bounded_heap_push_step [OF inv, of x] that size_heap_items [OF inv] by auto
  show "\<exists>h' x. bounded_heap_pop (Some h) (Some 0) = Inr (ERR_NONE, h', x) \<and> heap_inv h'
      \<and> unat (heap_max_size h') = unat (heap_max_size h)
      \<and> mset (heap_items h) = add_mset x (mset (heap_items h'))"
    if "mset (heap_items h) \<noteq> {#}"
  proof -
    have "0 < heap_count h"
      using that size_heap_items [OF inv] by (metis length_greater_0_conv mset_zero_iff)
    then show ?thesis using bounded_heap_pop_step [OF inv, of 0] by auto
  qed
qed

lemma bounded_heap_init_state:
  assumes "heap_storage cfg = Some xs" and "compare cfg = Some cmp" and "element_count cfg \<noteq> 0"
    and "unat (element_count cfg) \<le> length xs" and "length xs < 2 ^ 61"
  shows "\<exists>h. bounded_heap_init (Some junk) (Some cfg) = Inr (ERR_NONE, h) \<and> heap_inv h
           \<and> heap_max_size h = element_count cfg \<and> heap_cmp h = cmp \<and> heap_items h = []
           \<and> heap_in_order h"
  using assms
  by (simp add: bounded_heap_init_def bounded_heap_validate_config_def heap_inv_def heap_cells_def
      heap_cmp_def heap_items_def heap_count_def heap_in_order_def heap_ordered_def)

section \<open>Properties\<close>

text \<open>
  C26. From initialisation, whatever the comparison, any number of pointers up to the capacity go
  in and the same pointers come out (as a multiset): nothing is lost, nothing faults, and the
  repair loop after a pop always ends.
\<close>

theorem bounded_heap_drain:
  assumes "heap_storage cfg = Some xs" and "compare cfg = Some cmp" and "element_count cfg \<noteq> 0"
    and "unat (element_count cfg) \<le> length xs" and "length xs < 2 ^ 61"
    and "length vs \<le> unat (element_count cfg)"
  shows "\<exists>h h' ys h''. bounded_heap_init (Some junk) (Some cfg) = Inr (ERR_NONE, h)
    \<and> push_items (\<lambda>h. bounded_heap_push (Some h)) h vs = Inr h'
    \<and> pop_items (\<lambda>h. bounded_heap_pop (Some h) (Some 0)) h' (length vs) = Inr (ys, h'')
    \<and> mset ys = mset vs \<and> heap_items h'' = []"
  using bounded_heap_init_state [OF assms(1-5), of junk] bh.drain_permutation [of _ vs] assms(6)
  by fastforce

theorem bounded_heap_drain_witness:
  "\<exists>h h' ys h''. bounded_heap_init
       (Some \<lparr>config = \<lparr>heap_storage = None, element_count = 0, compare = None\<rparr>,
              items_in_heap = 0, heap_max_size = 0\<rparr>)
       (Some \<lparr>heap_storage = Some [0, 0, 0], element_count = 3, compare = Some max_heap_compare\<rparr>)
       = Inr (ERR_NONE, h)
    \<and> push_items (\<lambda>h. bounded_heap_push (Some h)) h [5, 9] = Inr h'
    \<and> pop_items (\<lambda>h. bounded_heap_pop (Some h) (Some 0)) h' (length [5, 9 :: ptr]) = Inr (ys, h'')
    \<and> mset ys = mset [5, 9] \<and> heap_items h'' = []"
  by (rule bounded_heap_drain [where xs = "[0, 0, 0]" and cmp = max_heap_compare]) simp_all

text \<open>
  With a comparison that is a strict weak order, a push into a heap that is in order and not
  full adds the pointer and leaves the heap in order.
\<close>

theorem bounded_heap_push_keeps_order:
  assumes "heap_inv h" and "heap_count h < unat (heap_max_size h)"
    and "heap_compare (heap_cmp h)" and "heap_in_order h"
  shows "\<exists>h'. bounded_heap_push (Some h) x = Inr (ERR_NONE, h') \<and> heap_inv h' \<and> heap_in_order h'
    \<and> mset (heap_items h') = add_mset x (mset (heap_items h))"
  using bounded_heap_push_step [OF assms(1,2), of x] assms(3,4) by auto

theorem bounded_heap_push_keeps_order_witness:
  "\<exists>h'. bounded_heap_push (Some \<lparr>config = \<lparr>heap_storage = Some [7, 3, 0, 0], element_count = 4,
        compare = Some max_heap_compare\<rparr>, items_in_heap = 2, heap_max_size = 4\<rparr>) 9
      = Inr (ERR_NONE, h') \<and> heap_in_order h'"
proof -
  define h where "h = \<lparr>config = \<lparr>heap_storage = Some [7, 3, 0, 0], element_count = 4,
    compare = Some max_heap_compare\<rparr>, items_in_heap = 2, heap_max_size = 4\<rparr>"
  have "heap_inv h" by (simp add: h_def heap_inv_def heap_cells_def)
  moreover have "heap_count h = 2" "heap_cmp h = max_heap_compare" "heap_max_size h = 4"
    by (simp_all add: h_def heap_count_def heap_cmp_def)
  moreover have "heap_in_order h"
    by (auto simp: h_def heap_in_order_def heap_ordered_def heap_cells_def heap_count_def heap_cmp_def
        max_heap_compare_def less_2_cases_iff)
  ultimately show ?thesis
    using bounded_heap_push_keeps_order [of h 9] max_order.heap_compare_axioms
    unfolding h_def [symmetric] by auto
qed

text \<open>
  With a strict weak order, a pop from a heap in order returns a pointer that no other is to be
  preferred to and removes exactly it; the heap stays in order when the number of pointers left
  is odd (with an even number left, all but the last are in order).
\<close>

theorem bounded_heap_pop_top:
  assumes "heap_inv h" and "0 < heap_count h"
    and "heap_compare (heap_cmp h)" and "heap_in_order h"
  shows "\<exists>h' x. bounded_heap_pop (Some h) (Some old) = Inr (ERR_NONE, h', x)
    \<and> (\<forall>y \<in> set (heap_items h). \<not> heap_cmp h x y)
    \<and> mset (heap_items h) = add_mset x (mset (heap_items h')) \<and> heap_inv h'
    \<and> heap_ordered (heap_cmp h) (heap_cells h') (odd_prefix (heap_count h'))
    \<and> (odd (heap_count h') \<longrightarrow> heap_in_order h')"
proof -
  obtain h' where h': "bounded_heap_pop (Some h) (Some old) = Inr (ERR_NONE, h', heap_cells h ! 0)"
      "heap_inv h'" "heap_cmp h' = heap_cmp h"
      "mset (heap_items h) = add_mset (heap_cells h ! 0) (mset (heap_items h'))"
      "heap_ordered (heap_cmp h) (heap_cells h') (odd_prefix (heap_count h'))"
    using bounded_heap_pop_step [OF assms(1,2), of old] assms(3) in_order_odd_prefix [OF assms(4)] by blast
  have "\<not> heap_cmp h (heap_cells h ! 0) y" if "y \<in> set (heap_items h)" for y
    using that heap_compare.root_is_top [OF assms(3)] assms(4)
    by (auto simp: heap_items_def heap_in_order_def in_set_conv_nth)
  then show ?thesis
    using h' by (auto simp: heap_in_order_def odd_prefix_def)
qed

theorem bounded_heap_pop_top_witness:
  "\<exists>h' x. bounded_heap_pop (Some \<lparr>config = \<lparr>heap_storage = Some [7, 3], element_count = 2,
        compare = Some max_heap_compare\<rparr>, items_in_heap = 2, heap_max_size = 2\<rparr>) (Some 0)
      = Inr (ERR_NONE, h', x) \<and> heap_inv h'"
proof -
  define h where "h = \<lparr>config = \<lparr>heap_storage = Some [7, 3], element_count = 2,
    compare = Some max_heap_compare\<rparr>, items_in_heap = 2, heap_max_size = 2\<rparr>"
  have "heap_inv h" by (simp add: h_def heap_inv_def heap_cells_def)
  moreover have "heap_count h = 2" "heap_cmp h = max_heap_compare"
    by (simp_all add: h_def heap_count_def heap_cmp_def)
  moreover have "heap_in_order h"
    by (auto simp: h_def heap_in_order_def heap_ordered_def heap_cells_def heap_count_def heap_cmp_def
        max_heap_compare_def less_2_cases_iff)
  ultimately show ?thesis
    using bounded_heap_pop_top [of h 0] max_order.heap_compare_axioms
    unfolding h_def [symmetric] by auto
qed

text \<open>
  A heap of three numbers does not come out in order: with the largest-first comparison of the
  repository's tests, 3, 2 and 1 are pushed and 3, 1 and 2 popped. After the first pop the root
  has a left child only, and the repair loop stops without comparing the two.
\<close>

theorem bounded_heap_pop_out_of_order:
  "r_bind (bounded_heap_init
       (Some \<lparr>config = \<lparr>heap_storage = None, element_count = 0, compare = None\<rparr>,
              items_in_heap = 0, heap_max_size = 0\<rparr>)
       (Some \<lparr>heap_storage = Some [0, 0, 0], element_count = 3, compare = Some max_heap_compare\<rparr>))
     (\<lambda>(_, h). r_bind (push_items (\<lambda>h. bounded_heap_push (Some h)) h [3, 2, 1]) (\<lambda>h.
        r_bind (pop_items (\<lambda>h. bounded_heap_pop (Some h) (Some 0)) h 3) (\<lambda>(ys, _). Inr ys)))
   = Inr [3, 1, 2]"
  by code_simp

end
