(* ===== verification/Heap_Drain.thy ===== *)
theory Heap_Drain
  imports Bounded_Heap
begin

text \<open>
  In which order the heap of \<open>src/collections/bounded_heap.c\<close> gives back what was put in. The repair
  loop of a pop never looks at a node that has a left child only, so with an even number of pointers left
  the last one may be out of order; the next pop takes that pointer to the root, and the order is
  complete again. What a pop returns is therefore the pointer to be preferred, except when two are left:
  only then is the node out of order the root itself. This theory states it for whole sessions, and for a
  heap that is filled and drained, as a contract on the operations that the heap is shown to meet.
\<close>

section \<open>Sessions of pushes and pops\<close>

text \<open>What the calls of a session return; a pop is given a variable that holds 0.\<close>

datatype 'a bag_op = Bag_push 'a | Bag_pop

fun run_bag_session ::
    "('h \<Rightarrow> 'a \<Rightarrow> (ErrorCodes \<times> 'h) result) \<Rightarrow> ('h \<Rightarrow> (ErrorCodes \<times> 'h \<times> 'a) result) \<Rightarrow> 'h \<Rightarrow> 'a bag_op list
     \<Rightarrow> (ErrorCodes \<times> 'a option) list result" where
  "run_bag_session push pop h [] = Inr []"
| "run_bag_session push pop h (Bag_push x # ops) =
     r_bind (push h x) (\<lambda>(e, h'). r_bind (run_bag_session push pop h' ops) (\<lambda>rs. Inr ((e, None) # rs)))"
| "run_bag_session push pop h (Bag_pop # ops) =
     r_bind (pop h) (\<lambda>(e, h', x). r_bind (run_bag_session push pop h' ops) (\<lambda>rs. Inr ((e, Some x) # rs)))"

text \<open>
  The replies of a priority queue for \<open>cap\<close> elements: a push is accepted, or refused when there are \<open>cap\<close> elements
  already; a pop returns an element that no other is to be preferred to, or reports that there is none.
\<close>

fun priority_replies ::
    "('a \<Rightarrow> 'a \<Rightarrow> bool) \<Rightarrow> nat \<Rightarrow> 'a multiset \<Rightarrow> 'a bag_op list \<Rightarrow> (ErrorCodes \<times> 'a option) list \<Rightarrow> bool" where
  "priority_replies cmp cap M [] rs = (rs = [])"
| "priority_replies cmp cap M (Bag_push x # ops) rs =
     (case rs of [] \<Rightarrow> False | (e, _) # rs' \<Rightarrow>
        if size M < cap then e = ERR_NONE \<and> priority_replies cmp cap (add_mset x M) ops rs'
        else e = ERR_NO_MEM \<and> priority_replies cmp cap M ops rs')"
| "priority_replies cmp cap M (Bag_pop # ops) rs =
     (case rs of (e, Some y) # rs' \<Rightarrow>
        if M = {#} then e = ERR_EMPTY \<and> priority_replies cmp cap M ops rs'
        else e = ERR_NONE \<and> y \<in># M \<and> (\<forall>z \<in># M. \<not> cmp y z) \<and> priority_replies cmp cap (M - {#y#}) ops rs'
      | _ \<Rightarrow> False)"

text \<open>
  Sessions that never rely on an order that a pop has left incomplete, with \<open>n\<close> elements at the start and
  \<open>whole\<close> saying that their order is complete: it is after a push, and after a pop that leaves an odd number or
  none. A push that is accepted needs it, and so does a pop when there are two; a push into a full bag is refused and
  changes nothing.
\<close>

fun careful_session :: "nat \<Rightarrow> nat \<Rightarrow> bool \<Rightarrow> 'a bag_op list \<Rightarrow> bool" where
  "careful_session cap n whole [] = True"
| "careful_session cap n whole (Bag_push x # ops) =
     (if n < cap then whole \<and> careful_session cap (Suc n) True ops else careful_session cap n whole ops)"
| "careful_session cap n whole (Bag_pop # ops) =
     (if n = 0 then careful_session cap 0 whole ops
      else (n = 2 \<longrightarrow> whole) \<and> careful_session cap (n - 1) (odd (n - 1) \<or> n = 1) ops)"

section \<open>Draining\<close>

text \<open>
  A bag whose pop gives the pointer to be preferred, except when two are left. \<open>ready\<close> is what a pop
  needs for it and keeps; \<open>ordered\<close> is what a push needs and keeps.
\<close>

locale draining_bag = bounded_bag +
  fixes cmp :: "'b \<Rightarrow> 'b \<Rightarrow> bool"
    and ready :: "'a \<Rightarrow> bool"
    and ordered :: "'a \<Rightarrow> bool"
  assumes ordered_ready: "inv h \<Longrightarrow> ordered h \<Longrightarrow> ready h"
    and push_ordered: "inv h \<Longrightarrow> ordered h \<Longrightarrow> size (bag h) < capacity h \<Longrightarrow> push h x = Inr (e, h') \<Longrightarrow> ordered h'"
    and push_full: "inv h \<Longrightarrow> \<not> size (bag h) < capacity h \<Longrightarrow> push h x = Inr (ERR_NO_MEM, h)"
    and ready_odd: "inv h \<Longrightarrow> ready h \<Longrightarrow> odd (size (bag h)) \<or> bag h = {#} \<Longrightarrow> ordered h"
    and pop_none: "inv h \<Longrightarrow> bag h = {#} \<Longrightarrow> \<exists>x. pop h = Inr (ERR_EMPTY, h, x)"
    and pop_ready: "inv h \<Longrightarrow> ready h \<Longrightarrow> bag h \<noteq> {#} \<Longrightarrow> pop h = Inr (e, h', x) \<Longrightarrow>
      ready h' \<and> (size (bag h) \<noteq> 2 \<or> ordered h \<longrightarrow> (\<forall>y \<in># bag h. \<not> cmp x y))"
begin

lemma push_items_ordered:
  assumes "inv h" and "ordered h" and "size (bag h) + length xs \<le> capacity h"
    and "push_items push h xs = Inr h'"
  shows "ordered h'"
  using assms
proof (induction xs arbitrary: h)
  case (Cons x xs)
  then have room: "size (bag h) < capacity h" by simp
  then obtain h1 where h1: "push h x = Inr (ERR_NONE, h1)" "inv h1" "capacity h1 = capacity h"
      "bag h1 = add_mset x (bag h)"
    using push_step [of h x] Cons.prems(1) by auto
  then have "ordered h1" using push_ordered [OF Cons.prems(1,2) room] by blast
  then show ?case using Cons.IH [OF h1(2)] Cons.prems(3,4) h1 by auto
qed simp

lemma pop_items_sorted:
  assumes "inv h" and "ready h" and "size (bag h) = n"
  shows "\<exists>ys h'. pop_items pop h n = Inr (ys, h') \<and> mset ys = bag h
    \<and> (\<forall>i j. i < j \<longrightarrow> j < n \<longrightarrow> i + 2 \<noteq> n \<longrightarrow> \<not> cmp (ys ! i) (ys ! j))"
  using assms
proof (induction n arbitrary: h)
  case 0
  then show ?case by simp
next
  case (Suc n)
  then have ne: "bag h \<noteq> {#}" by auto
  obtain h1 x where h1: "pop h = Inr (ERR_NONE, h1, x)" "inv h1" "bag h = add_mset x (bag h1)"
    using pop_step [OF Suc.prems(1) ne] by blast
  note top = pop_ready [OF Suc.prems(1,2) ne h1(1)]
  obtain ys h' where ys: "pop_items pop h1 n = Inr (ys, h')" "mset ys = bag h1"
      "\<forall>i j. i < j \<longrightarrow> j < n \<longrightarrow> i + 2 \<noteq> n \<longrightarrow> \<not> cmp (ys ! i) (ys ! j)"
    using Suc.IH [OF h1(2)] top Suc.prems(3) h1(3) by auto
  have len: "length ys = n" using ys(2) h1(3) Suc.prems(3) by (metis size_add_mset size_mset Suc_inject)
  have "\<not> cmp ((x # ys) ! i) ((x # ys) ! j)" if ij: "i < j" "j < Suc n" "i + 2 \<noteq> Suc n" for i j
  proof (cases i)
    case 0
    then have "(x # ys) ! j \<in> set ys" using ij len by (auto simp: nth_Cons split: nat.split)
    then have "(x # ys) ! j \<in># bag h" using ys(2) h1(3) by (metis insert_iff set_mset_add_mset_insert set_mset_mset)
    then show ?thesis using top ij 0 Suc.prems(3) by simp
  next
    case (Suc k)
    then show ?thesis using ij ys(3) by (cases j) auto
  qed
  then show ?case using h1 ys by auto
qed

lemma careful_session_priority:
  assumes "inv h" and "ready h" and "whole \<Longrightarrow> ordered h" and "careful_session (capacity h) (size (bag h)) whole ops"
  shows "\<exists>rs. run_bag_session push pop h ops = Inr rs \<and> priority_replies cmp (capacity h) (bag h) ops rs"
  using assms
proof (induction ops arbitrary: h whole)
  case (Cons op ops)
  show ?case
  proof (cases op)
    case push: (Bag_push x)
    show ?thesis
    proof (cases "size (bag h) < capacity h")
      case False
      then obtain rs where "run_bag_session push pop h ops = Inr rs" "priority_replies cmp (capacity h) (bag h) ops rs"
        using Cons.IH [OF Cons.prems(1-3)] Cons.prems(4) push by auto
      then show ?thesis using push_full [OF Cons.prems(1) False] False push by auto
    next
      case room: True
      then have c: "ordered h" "careful_session (capacity h) (Suc (size (bag h))) True ops"
        using Cons.prems(3,4) push by auto
      obtain h1 where h1: "push h x = Inr (ERR_NONE, h1)" "inv h1" "capacity h1 = capacity h" "bag h1 = add_mset x (bag h)"
        using push_step [OF Cons.prems(1) room] by blast
      have "ordered h1" using push_ordered [OF Cons.prems(1) c(1) room h1(1)] .
      then show ?thesis using Cons.IH [OF h1(2), of True] ordered_ready [OF h1(2)] c(2) h1 room push by auto
    qed
  next
    case Bag_pop
    show ?thesis
    proof (cases "bag h = {#}")
      case True
      then have "careful_session (capacity h) (size (bag h)) whole ops" using Cons.prems(4) Bag_pop by simp
      then obtain rs where "run_bag_session push pop h ops = Inr rs" "priority_replies cmp (capacity h) (bag h) ops rs"
        using Cons.IH [OF Cons.prems(1-3)] by blast
      then show ?thesis using pop_none [OF Cons.prems(1) True] True Bag_pop by auto
    next
      case False
      obtain h1 x where h1: "pop h = Inr (ERR_NONE, h1, x)" "inv h1" "capacity h1 = capacity h" "bag h = add_mset x (bag h1)"
        using pop_step [OF Cons.prems(1) False] by blast
      note top = pop_ready [OF Cons.prems(1,2) False h1(1)]
      let ?n = "size (bag h1)"
      have c: "Suc ?n = 2 \<longrightarrow> whole" "careful_session (capacity h1) ?n (odd ?n \<or> ?n = 0) ops"
        using Cons.prems(4) False Bag_pop h1(3,4) by (auto simp: size_eq_0_iff_empty)
      have "ordered h1" if "odd ?n \<or> ?n = 0" using ready_odd [OF h1(2)] top that by auto
      then obtain rs where "run_bag_session push pop h1 ops = Inr rs" "priority_replies cmp (capacity h1) (bag h1) ops rs"
        using Cons.IH [OF h1(2) _ _ c(2)] top by blast
      moreover have "\<forall>y \<in># bag h. \<not> cmp x y" using top c(1) Cons.prems(3) h1(4) by auto
      ultimately show ?thesis using h1 False Bag_pop by auto
    qed
  qed
qed simp

lemma drain_sorted:
  assumes "inv h" and "ordered h" and "bag h = {#}" and "length xs \<le> capacity h"
  shows "\<exists>h' ys h''. push_items push h xs = Inr h' \<and> pop_items pop h' (length xs) = Inr (ys, h'')
    \<and> mset ys = mset xs
    \<and> (\<forall>i j. i < j \<longrightarrow> j < length xs \<longrightarrow> i + 2 \<noteq> length xs \<longrightarrow> \<not> cmp (ys ! i) (ys ! j))"
proof -
  obtain h' where h': "push_items push h xs = Inr h'" "inv h'" "bag h' = mset xs"
    using push_items_bag [OF assms(1), of xs] assms(3,4) by auto
  have "ready h'"
    using ordered_ready [OF h'(2)] push_items_ordered [OF assms(1,2) _ h'(1)] assms(3,4) by simp
  then show ?thesis using pop_items_sorted [OF h'(2), of "length xs"] h' by auto
qed

end

section \<open>The heap\<close>

text \<open>
  The order on the longest prefix of odd length, and the root on top of all pointers unless there are two.
\<close>

definition heap_ready :: "BoundedHeap \<Rightarrow> bool" where
  "heap_ready h \<longleftrightarrow> heap_ordered (heap_cmp h) (heap_cells h) (odd_prefix (heap_count h))
     \<and> (heap_count h \<noteq> 2 \<longrightarrow> (\<forall>y \<in> set (heap_items h). \<not> heap_cmp h (heap_cells h ! 0) y))"

lemma root_is_top_items:
  assumes "heap_compare (heap_cmp h)" and "heap_ordered (heap_cmp h) (heap_cells h) n"
    and "y \<in> set (take n (heap_cells h))"
  shows "\<not> heap_cmp h (heap_cells h ! 0) y"
  using assms(3) heap_compare.root_is_top [OF assms(1,2)] by (auto simp: in_set_conv_nth)

lemma in_order_ready: "heap_compare (heap_cmp h) \<Longrightarrow> heap_in_order h \<Longrightarrow> heap_ready h"
  using root_is_top_items [of h "heap_count h"] in_order_odd_prefix [of h]
  by (auto simp: heap_ready_def heap_in_order_def heap_items_def)

text \<open>
  The last of an even number of pointers, at least four, stands below a pointer other than the old
  root, and this one is still in the prefix that the loop has put in order.
\<close>

lemma pop_even_top:
  assumes inv: "heap_inv h" "heap_inv h'" and cmp: "heap_compare (heap_cmp h)" "heap_cmp h' = heap_cmp h"
    and ord: "heap_ordered (heap_cmp h) (heap_cells h) (Suc n)" "heap_ordered (heap_cmp h) (heap_cells h') (n - 1)"
    and n: "even n" "2 < n" "heap_count h = Suc n" "heap_count h' = n"
    and keep: "heap_cells h' ! (n - 1) = heap_cells h ! (n - 1)"
    and bag: "mset (heap_items h) = add_mset (heap_cells h ! 0) (mset (heap_items h'))"
    and y: "y \<in> set (heap_items h')"
  shows "\<not> heap_cmp h (heap_cells h' ! 0) y"
proof -
  let ?xs = "heap_cells h" and ?ys = "heap_cells h'" and ?p = "parent_of (n - 1)"
  have len: "n < length ?xs" "n \<le> length ?ys"
    using size_heap_items [OF inv(1)] size_heap_items [OF inv(2)] n by (simp_all add: heap_items_def)
  have p: "0 < ?p" "?p < n - 1" using n(1,2) by presburger+
  note top = root_is_top_items [of h' "n - 1"]
  have items: "mset (take n ?ys) = add_mset (?ys ! (n - 1)) (mset (take (n - 1) ?ys))"
    using take_Suc_conv_app_nth [of "n - 1" ?ys] len n(2) by simp
  have "?xs ! ?p \<in># mset (take (n - 1) ?ys)"
  proof -
    obtain m where m: "n = Suc (Suc m)" using n(2) by (metis Suc_1 add_2_eq_Suc less_imp_add_positive)
    have "take (Suc n) ?xs = take (Suc m) ?xs @ [?xs ! (n - 1), ?xs ! n]"
      using len m by (simp add: take_Suc_conv_app_nth)
    moreover have "take (Suc m) ?xs = ?xs ! 0 # take m (tl ?xs)"
      using len by (cases ?xs) auto
    ultimately have "mset (take (n - 1) ?ys) = add_mset (?xs ! n) (mset (take m (tl ?xs)))"
      using bag items keep n by (simp add: heap_items_def)
    moreover have "?xs ! ?p \<in> set (take m (tl ?xs))"
      using p len m by (auto simp: in_set_conv_nth nth_tl intro!: exI [of _ "?p - 1"])
    ultimately show ?thesis by simp
  qed
  then have "\<not> heap_cmp h (?ys ! 0) (?xs ! ?p)" using top cmp ord(2) by simp
  moreover have "\<not> heap_cmp h (?xs ! ?p) (?xs ! (n - 1))"
    using ord(1) [unfolded heap_ordered_def, rule_format, of "n - 1"] n(2) by simp
  ultimately have "\<not> heap_cmp h (?ys ! 0) (?ys ! (n - 1))"
    using heap_compare.negtrans [OF cmp(1)] keep by metis
  moreover have "set (heap_items h') = insert (?ys ! (n - 1)) (set (take (n - 1) ?ys))"
    using arg_cong [OF items, of set_mset] n by (simp add: heap_items_def)
  ultimately show ?thesis using y top cmp ord(2) by auto
qed

lemma bounded_heap_pop_ready:
  assumes inv: "heap_inv h" and cmp: "heap_compare (heap_cmp h)" and ready: "heap_ready h" and ne: "0 < heap_count h"
  shows "\<exists>h'. bounded_heap_pop (Some h) (Some old) = Inr (ERR_NONE, h', heap_cells h ! 0)
    \<and> heap_inv h' \<and> heap_cmp h' = heap_cmp h \<and> heap_ready h'
    \<and> mset (heap_items h) = add_mset (heap_cells h ! 0) (mset (heap_items h'))"
proof -
  obtain h' where h': "bounded_heap_pop (Some h) (Some old) = Inr (ERR_NONE, h', heap_cells h ! 0)"
      "heap_inv h'" "heap_cmp h' = heap_cmp h" "heap_count h' = heap_count h - 1"
      "mset (heap_items h) = add_mset (heap_cells h ! 0) (mset (heap_items h'))"
      "\<forall>i. odd_prefix (heap_count h') \<le> i \<longrightarrow> i < heap_count h' \<longrightarrow> heap_cells h' ! i = heap_cells h ! i"
      "heap_ordered (heap_cmp h) (heap_cells h') (odd_prefix (heap_count h'))"
    using bounded_heap_pop_step [OF inv ne, of old] cmp ready unfolding heap_ready_def by blast
  define n where "n = heap_count h'"
  have n: "heap_count h = Suc n" using h'(4) ne by (simp add: n_def)
  have "\<not> heap_cmp h' (heap_cells h' ! 0) y" if y: "y \<in> set (heap_items h')" "n \<noteq> 2" for y
  proof (cases "odd n")
    case True
    then show ?thesis
      using y(1) h'(3,7) cmp root_is_top_items [of h' n y] by (simp add: heap_items_def odd_prefix_def flip: n_def)
  next
    case False
    moreover have "n \<noteq> 0" using y(1) by (metis empty_iff empty_set heap_items_def n_def take0)
    ultimately have "2 < n" "odd_prefix n = n - 1" "odd_prefix (Suc n) = Suc n"
      using y(2) by (auto simp: odd_prefix_def elim!: evenE)
    then show ?thesis
      using pop_even_top [OF inv h'(2) cmp h'(3), of n y] h' False n ready y(1)
      by (auto simp: heap_ready_def simp flip: n_def)
  qed
  then have "heap_ready h'" using h'(3,7) by (auto simp: heap_ready_def simp flip: n_def)
  then show ?thesis using h' by blast
qed

interpretation dh: draining_bag
  "\<lambda>h. bounded_heap_push (Some h)" "\<lambda>h. bounded_heap_pop (Some h) (Some 0)"
  "\<lambda>h. heap_inv h \<and> heap_cmp h = cmp \<and> heap_compare cmp" "\<lambda>h. unat (heap_max_size h)"
  "\<lambda>h. mset (heap_items h)" cmp heap_ready heap_in_order
  for cmp
proof unfold_locales
  fix h
  assume "heap_inv h \<and> heap_cmp h = cmp \<and> heap_compare cmp"
  then have inv: "heap_inv h" and cmp: "heap_cmp h = cmp" "heap_compare (heap_cmp h)" by auto
  have count: "size (mset (heap_items h)) = heap_count h" using size_heap_items [OF inv] by simp
  note push = bounded_heap_push_step [OF inv]
  show "\<exists>h'. bounded_heap_push (Some h) x = Inr (ERR_NONE, h')
      \<and> (heap_inv h' \<and> heap_cmp h' = cmp \<and> heap_compare cmp)
      \<and> unat (heap_max_size h') = unat (heap_max_size h) \<and> mset (heap_items h') = add_mset x (mset (heap_items h))"
    if "size (mset (heap_items h)) < unat (heap_max_size h)" for x
    using push [of x] that count cmp by auto
  show "heap_in_order h'" if "heap_in_order h" "size (mset (heap_items h)) < unat (heap_max_size h)"
      "bounded_heap_push (Some h) x = Inr (e, h')" for x e h'
    using push [of x] that count cmp by auto
  show "bounded_heap_push (Some h) x = Inr (ERR_NO_MEM, h)"
    if "\<not> size (mset (heap_items h)) < unat (heap_max_size h)" for x
  proof -
    have "items_in_heap h = heap_max_size h"
      using that count inv by (simp add: heap_inv_def heap_count_def word_le_nat_alt)
    then show ?thesis by (simp add: bounded_heap_push_def bounded_heap_get_remaining_def)
  qed
  show "heap_ready h" if "heap_in_order h" using in_order_ready [OF cmp(2) that] .
  show "heap_in_order h" if "heap_ready h" "odd (size (mset (heap_items h))) \<or> mset (heap_items h) = {#}"
    using that count by (auto simp: heap_ready_def heap_in_order_def odd_prefix_def heap_ordered_def)
  show "\<exists>x. bounded_heap_pop (Some h) (Some 0) = Inr (ERR_EMPTY, h, x)" if "mset (heap_items h) = {#}"
    using that count by (auto simp: bounded_heap_pop_def bounded_heap_get_size_def heap_count_def)
  assume "mset (heap_items h) \<noteq> {#}"
  then have ne: "0 < heap_count h" using count by (metis size_eq_0_iff_empty gr0I)
  show "\<exists>h' x. bounded_heap_pop (Some h) (Some 0) = Inr (ERR_NONE, h', x)
      \<and> (heap_inv h' \<and> heap_cmp h' = cmp \<and> heap_compare cmp)
      \<and> unat (heap_max_size h') = unat (heap_max_size h) \<and> mset (heap_items h) = add_mset x (mset (heap_items h'))"
    using bounded_heap_pop_step [OF inv ne, of 0] cmp by auto
  show "heap_ready h' \<and> (size (mset (heap_items h)) \<noteq> 2 \<or> heap_in_order h \<longrightarrow> (\<forall>y \<in># mset (heap_items h). \<not> cmp x y))"
    if ready: "heap_ready h" and pop: "bounded_heap_pop (Some h) (Some 0) = Inr (e, h', x)" for e h' x
  proof -
    have "heap_ready h'" "x = heap_cells h ! 0"
      using bounded_heap_pop_ready [OF inv cmp(2) ready ne, of 0] pop by auto
    moreover have "\<forall>y \<in> set (heap_items h). \<not> cmp (heap_cells h ! 0) y" if "heap_in_order h"
      using root_is_top_items [OF cmp(2)] that cmp(1) by (simp add: heap_in_order_def heap_items_def)
    ultimately show ?thesis using ready count cmp(1) by (auto simp: heap_ready_def)
  qed
qed

section \<open>Properties\<close>

text \<open>
  C4. With a comparison that is a strict weak order, the heap is a priority queue for every session of pushes and pops that
  takes the incomplete repair into account: when nothing is pushed while an even number of pointers is left by a
  pop, unless the heap is full, and two pointers left by a pop are not popped, every pop returns a pointer that no other is to be
  preferred to, a pop from an empty heap reports \<open>ERR_EMPTY\<close>, a push into a full heap reports \<open>ERR_NO_MEM\<close> and
  changes nothing, and no call faults.
\<close>

theorem bounded_heap_priority_session:
  assumes "heap_storage cfg = Some xs" and "compare cfg = Some cmp" and "element_count cfg \<noteq> 0"
    and "unat (element_count cfg) \<le> length xs" and "length xs < 2 ^ 61" and "heap_compare cmp"
    and "careful_session (unat (element_count cfg)) 0 True ops"
  shows "\<exists>h rs. bounded_heap_init (Some junk) (Some cfg) = Inr (ERR_NONE, h)
    \<and> run_bag_session (\<lambda>h. bounded_heap_push (Some h)) (\<lambda>h. bounded_heap_pop (Some h) (Some 0)) h ops = Inr rs
    \<and> priority_replies cmp (unat (element_count cfg)) {#} ops rs"
proof -
  obtain h where h: "bounded_heap_init (Some junk) (Some cfg) = Inr (ERR_NONE, h)" "heap_inv h"
      "heap_max_size h = element_count cfg" "heap_cmp h = cmp" "heap_items h = []" "heap_in_order h"
    using bounded_heap_init_state [OF assms(1-5), of junk] by blast
  then show ?thesis
    using dh.careful_session_priority [of h cmp True ops] in_order_ready [of h] assms(6,7) by simp
qed

theorem bounded_heap_priority_session_witness:
  "\<exists>h rs. bounded_heap_init
       (Some \<lparr>config = \<lparr>heap_storage = None, element_count = 0, compare = None\<rparr>,
              items_in_heap = 0, heap_max_size = 0\<rparr>)
       (Some \<lparr>heap_storage = Some [0, 0, 0, 0], element_count = 4, compare = Some max_heap_compare\<rparr>)
       = Inr (ERR_NONE, h)
    \<and> run_bag_session (\<lambda>h. bounded_heap_push (Some h)) (\<lambda>h. bounded_heap_pop (Some h) (Some 0)) h
        [Bag_push 4, Bag_push 7, Bag_pop, Bag_push 9, Bag_push 5, Bag_push 6, Bag_push 1, Bag_pop, Bag_push 8] = Inr rs
    \<and> priority_replies max_heap_compare 4 {#}
        [Bag_push 4, Bag_push 7, Bag_pop, Bag_push 9, Bag_push 5, Bag_push 6, Bag_push 1, Bag_pop, Bag_push 8] rs"
  using bounded_heap_priority_session [of "\<lparr>heap_storage = Some [0, 0, 0, 0], element_count = 4,
        compare = Some max_heap_compare\<rparr>" "[0, 0, 0, 0]" max_heap_compare
      "[Bag_push 4, Bag_push 7, Bag_pop, Bag_push 9, Bag_push 5, Bag_push 6, Bag_push 1, Bag_pop, Bag_push 8]"]
  by (simp add: max_order.heap_compare_axioms del: run_bag_session.simps priority_replies.simps)

text \<open>
  C5. A heap sorts, but for its last two pointers. With a strict weak order, pointers pushed into an initialised
  heap are popped, all of them, such that no pointer is to be preferred to one that was popped before it, the
  pair of the last two excepted.
\<close>

theorem bounded_heap_drain_sorted:
  assumes "heap_storage cfg = Some xs" and "compare cfg = Some cmp" and "element_count cfg \<noteq> 0"
    and "unat (element_count cfg) \<le> length xs" and "length xs < 2 ^ 61"
    and "length vs \<le> unat (element_count cfg)" and "heap_compare cmp"
  shows "\<exists>h h' ys h''. bounded_heap_init (Some junk) (Some cfg) = Inr (ERR_NONE, h)
    \<and> push_items (\<lambda>h. bounded_heap_push (Some h)) h vs = Inr h'
    \<and> pop_items (\<lambda>h. bounded_heap_pop (Some h) (Some 0)) h' (length vs) = Inr (ys, h'')
    \<and> mset ys = mset vs
    \<and> (\<forall>i j. i < j \<longrightarrow> j < length vs \<longrightarrow> i + 2 \<noteq> length vs \<longrightarrow> \<not> cmp (ys ! i) (ys ! j))"
proof -
  obtain h where h: "bounded_heap_init (Some junk) (Some cfg) = Inr (ERR_NONE, h)" "heap_inv h"
      "heap_max_size h = element_count cfg" "heap_cmp h = cmp" "heap_items h = []" "heap_in_order h"
    using bounded_heap_init_state [OF assms(1-5), of junk] by blast
  then show ?thesis using dh.drain_sorted [of h cmp vs] assms(6,7) by simp
qed

theorem bounded_heap_drain_sorted_witness:
  "\<exists>h h' ys h''. bounded_heap_init
       (Some \<lparr>config = \<lparr>heap_storage = None, element_count = 0, compare = None\<rparr>,
              items_in_heap = 0, heap_max_size = 0\<rparr>)
       (Some \<lparr>heap_storage = Some [0, 0, 0, 0], element_count = 4, compare = Some max_heap_compare\<rparr>)
       = Inr (ERR_NONE, h)
    \<and> push_items (\<lambda>h. bounded_heap_push (Some h)) h [5, 9, 7, 8] = Inr h'
    \<and> pop_items (\<lambda>h. bounded_heap_pop (Some h) (Some 0)) h' (length [5, 9, 7, 8 :: ptr]) = Inr (ys, h'')
    \<and> mset ys = mset [5, 9, 7, 8]
    \<and> (\<forall>i j. i < j \<longrightarrow> j < length [5, 9, 7, 8 :: ptr] \<longrightarrow> i + 2 \<noteq> length [5, 9, 7, 8 :: ptr]
         \<longrightarrow> \<not> max_heap_compare (ys ! i) (ys ! j))"
  by (rule bounded_heap_drain_sorted [where xs = "[0, 0, 0, 0]"])
     (simp_all add: max_order.heap_compare_axioms)

end
