(* ===== verification/Ptr_Stack.thy ===== *)
theory Ptr_Stack
  imports Error_Codes
begin

text \<open>
  The stack of pointers of \<open>src/collections/ptr_stack.c\<close>: a caller-provided array of
  pointers, its declared length and the index of the next free slot. The pool allocator
  keeps its free blocks on it.

  The interface the pool relies on is the locale \<open>bounded_stack\<close>: a stack with a
  capacity, whose contents (top first) a push extends, a pop shortens, and neither
  changes when it reports an error. It is interpreted on the model of the C functions.
\<close>

section \<open>Model\<close>

record PtrStack =
  stack :: "ptr list option"
  max_item_count :: size_t
  stack_top :: size_t

definition ptr_stack_init ::
    "PtrStack option \<Rightarrow> ptr list option \<Rightarrow> size_t \<Rightarrow> (ErrorCodes \<times> PtrStack) result" where
  "ptr_stack_init stk stack_buffer stack_item_count =
     r_bind (assert_ptr stk) (\<lambda>s.
     r_bind (assert_ptr stack_buffer) (\<lambda>_.
       if stack_item_count = 0 then Inr (ERR_INVALID_ARG, s)
       else Inr (ERR_NONE,
                 s\<lparr>stack := stack_buffer, max_item_count := stack_item_count, stack_top := 0\<rparr>)))"

definition ptr_stack_deinit :: "PtrStack option \<Rightarrow> PtrStack result" where
  "ptr_stack_deinit stk =
     r_bind (assert_ptr stk) (\<lambda>s. Inr (s\<lparr>max_item_count := 0, stack_top := 0\<rparr>))"

definition ptr_stack_get_remaining_count :: "PtrStack option \<Rightarrow> size_t result" where
  "ptr_stack_get_remaining_count stk =
     r_bind (assert_ptr stk) (\<lambda>s. Inr (max_item_count s - stack_top s))"

definition ptr_stack_push :: "PtrStack option \<Rightarrow> ptr \<Rightarrow> (ErrorCodes \<times> PtrStack) result" where
  "ptr_stack_push stk v =
     r_bind (assert_ptr stk) (\<lambda>s.
     r_bind (ptr_stack_get_remaining_count (Some s)) (\<lambda>n.
       if n = 0 then Inr (ERR_NO_MEM, s)
       else r_bind (arr_set (stack s) (stack_top s) v) (\<lambda>st.
              Inr (ERR_NONE, s\<lparr>stack := st, stack_top := stack_top s + 1\<rparr>))))"

text \<open>The last component is the value of the caller's variable after the call.\<close>

definition ptr_stack_pop ::
    "PtrStack option \<Rightarrow> ptr option \<Rightarrow> (ErrorCodes \<times> PtrStack \<times> ptr) result" where
  "ptr_stack_pop stk out =
     r_bind (assert_ptr stk) (\<lambda>s.
     r_bind (assert_ptr out) (\<lambda>old.
     r_bind (ptr_stack_get_remaining_count (Some s)) (\<lambda>n.
       if n = max_item_count s then Inr (ERR_EMPTY, s, old)
       else (let s' = s\<lparr>stack_top := stack_top s - 1\<rparr> in
             r_bind (arr_get (stack s') (stack_top s')) (\<lambda>v.
               Inr (ERR_NONE, s', v))))))"

text \<open>What the model keeps: the slots below the top are inside the array.\<close>

definition stack_inv :: "PtrStack \<Rightarrow> bool" where
  "stack_inv s \<longleftrightarrow>
     (case stack s of
        None \<Rightarrow> max_item_count s = 0 \<and> stack_top s = 0
      | Some xs \<Rightarrow> stack_top s \<le> max_item_count s \<and> unat (max_item_count s) \<le> length xs)"

definition stack_contents :: "PtrStack \<Rightarrow> ptr list" where
  "stack_contents s =
     (case stack s of None \<Rightarrow> [] | Some xs \<Rightarrow> rev (take (unat (stack_top s)) xs))"

section \<open>The interface\<close>

text \<open>A list of values pushed one after the other, and a number of pops.\<close>

fun stack_push_all :: "('s \<Rightarrow> 'a \<Rightarrow> (ErrorCodes \<times> 's) result) \<Rightarrow> 's \<Rightarrow> 'a list \<Rightarrow> 's result" where
  "stack_push_all push s [] = Inr s"
| "stack_push_all push s (v # vs) = r_bind (push s v) (\<lambda>(_, s'). stack_push_all push s' vs)"

fun stack_pop_all ::
    "('s \<Rightarrow> 'a \<Rightarrow> (ErrorCodes \<times> 's \<times> 'a) result) \<Rightarrow> 's \<Rightarrow> 'a \<Rightarrow> nat \<Rightarrow> ('a list \<times> 's) result" where
  "stack_pop_all pop s old 0 = Inr ([], s)"
| "stack_pop_all pop s old (Suc n) =
     r_bind (pop s old) (\<lambda>(_, s', v).
     r_bind (stack_pop_all pop s' old n) (\<lambda>(vs, s''). Inr (v # vs, s'')))"

locale bounded_stack =
  fixes push :: "'s \<Rightarrow> 'a \<Rightarrow> (ErrorCodes \<times> 's) result"
    and pop :: "'s \<Rightarrow> 'a \<Rightarrow> (ErrorCodes \<times> 's \<times> 'a) result"
    and remaining :: "'s \<Rightarrow> size_t result"
    and inv :: "'s \<Rightarrow> bool"
    and capacity :: "'s \<Rightarrow> nat"
    and contents :: "'s \<Rightarrow> 'a list"
  assumes contents_bound: "inv s \<Longrightarrow> length (contents s) \<le> capacity s"
    and remaining_eq: "inv s \<Longrightarrow>
          \<exists>n. remaining s = Inr n \<and> unat n = capacity s - length (contents s)"
    and push_full: "inv s \<Longrightarrow> length (contents s) = capacity s \<Longrightarrow>
          push s v = Inr (ERR_NO_MEM, s)"
    and push_room: "inv s \<Longrightarrow> length (contents s) < capacity s \<Longrightarrow>
          \<exists>s'. push s v = Inr (ERR_NONE, s') \<and> inv s' \<and> capacity s' = capacity s
                \<and> contents s' = v # contents s"
    and pop_empty: "inv s \<Longrightarrow> contents s = [] \<Longrightarrow> pop s old = Inr (ERR_EMPTY, s, old)"
    and pop_some: "inv s \<Longrightarrow> contents s = v # vs \<Longrightarrow>
          \<exists>s'. pop s old = Inr (ERR_NONE, s', v) \<and> inv s' \<and> capacity s' = capacity s
                \<and> contents s' = vs"
begin

text \<open>A push that finds room is undone by the next pop, whatever the pop's variable held.\<close>

lemma push_pop:
  assumes "inv s" and "length (contents s) < capacity s"
  shows "\<exists>s' s''. push s v = Inr (ERR_NONE, s') \<and> pop s' old = Inr (ERR_NONE, s'', v)
           \<and> inv s'' \<and> contents s'' = contents s"
  using push_room [OF assms, of v] pop_some by metis

lemma push_all_contents:
  assumes "inv s" and "length (contents s) + length vs \<le> capacity s"
  shows "\<exists>s'. stack_push_all push s vs = Inr s' \<and> inv s' \<and> capacity s' = capacity s
           \<and> contents s' = rev vs @ contents s"
  using assms
proof (induction vs arbitrary: s)
  case Nil
  then show ?case by simp
next
  case (Cons v vs)
  then obtain s1 where s1: "push s v = Inr (ERR_NONE, s1)" "inv s1" "capacity s1 = capacity s"
    "contents s1 = v # contents s"
    using push_room [of s v] by auto
  then show ?case using Cons.IH [OF s1(2)] Cons.prems by auto
qed

lemma pop_all_contents:
  assumes "inv s" and "contents s = vs @ ws"
  shows "\<exists>s'. stack_pop_all pop s old (length vs) = Inr (vs, s') \<and> inv s' \<and> contents s' = ws"
  using assms
proof (induction vs arbitrary: s)
  case Nil
  then show ?case by simp
next
  case (Cons v vs)
  then obtain s1 where s1: "pop s old = Inr (ERR_NONE, s1, v)" "inv s1" "contents s1 = vs @ ws"
    using pop_some [of s v "vs @ ws" old] by auto
  then show ?case using Cons.IH [OF s1(2)] by auto
qed

text \<open>Values come out in the reverse of the order they went in.\<close>

lemma lifo_order:
  assumes "inv s" and "length (contents s) + length vs \<le> capacity s"
  shows "\<exists>s' s''. stack_push_all push s vs = Inr s'
           \<and> stack_pop_all pop s' old (length vs) = Inr (rev vs, s'') \<and> contents s'' = contents s"
  using push_all_contents [OF assms] pop_all_contents [of _ "rev vs" "contents s" old]
  by fastforce

end

section \<open>The C functions satisfy it\<close>

lemma stack_inv_Some:
  "stack_inv s \<Longrightarrow> max_item_count s \<noteq> 0 \<Longrightarrow>
   \<exists>xs. stack s = Some xs \<and> unat (stack_top s) \<le> unat (max_item_count s)
        \<and> unat (max_item_count s) \<le> length xs"
  by (auto simp: stack_inv_def word_le_nat_alt split: option.splits)

lemma length_stack_contents:
  "stack_inv s \<Longrightarrow> length (stack_contents s) = unat (stack_top s)"
  by (auto simp: stack_inv_def stack_contents_def word_le_nat_alt split: option.splits)

lemma stack_top_le: "stack_inv s \<Longrightarrow> unat (stack_top s) \<le> unat (max_item_count s)"
  by (auto simp: stack_inv_def word_le_nat_alt split: option.splits)

lemma ptr_stack_push_room:
  assumes inv: "stack_inv s" and room: "unat (stack_top s) < unat (max_item_count s)"
  shows "\<exists>s'. ptr_stack_push (Some s) v = Inr (ERR_NONE, s') \<and> stack_inv s'
           \<and> max_item_count s' = max_item_count s \<and> stack_contents s' = v # stack_contents s"
proof -
  from room have nz: "max_item_count s \<noteq> 0" and ne: "max_item_count s \<noteq> stack_top s" by auto
  obtain xs where xs: "stack s = Some xs" "unat (max_item_count s) \<le> length xs"
    using stack_inv_Some [OF inv nz] by blast
  from room xs(2) have lt: "unat (stack_top s) < length xs" by simp
  have top: "unat (stack_top s + 1) = Suc (unat (stack_top s))"
    by (rule unat_Suc_size [OF room])
  have contents: "take (Suc (unat (stack_top s))) (xs[unat (stack_top s) := v])
      = take (unat (stack_top s)) xs @ [v]"
    using lt by (simp add: take_Suc_conv_app_nth)
  let ?s' = "s\<lparr>stack := Some (xs[unat (stack_top s) := v]), stack_top := stack_top s + 1\<rparr>"
  have "ptr_stack_push (Some s) v = Inr (ERR_NONE, ?s')"
    using xs(1) lt ne
    by (simp add: ptr_stack_push_def ptr_stack_get_remaining_count_def c_simps)
  moreover have "stack_inv ?s'"
    using xs room top by (simp add: stack_inv_def word_le_nat_alt)
  moreover have "stack_contents ?s' = v # stack_contents s"
    using xs(1) by (simp add: stack_contents_def top contents)
  ultimately show ?thesis by auto
qed

lemma ptr_stack_pop_some:
  assumes inv: "stack_inv s" and cons: "stack_contents s = v # vs"
  shows "\<exists>s'. ptr_stack_pop (Some s) (Some old) = Inr (ERR_NONE, s', v) \<and> stack_inv s'
           \<and> max_item_count s' = max_item_count s \<and> stack_contents s' = vs"
proof -
  have pos: "0 < unat (stack_top s)"
    using length_stack_contents [OF inv] cons by simp
  then have nz: "stack_top s \<noteq> 0" by auto
  have mnz: "max_item_count s \<noteq> 0" using stack_top_le [OF inv] pos by auto
  obtain xs where xs: "stack s = Some xs" "unat (max_item_count s) \<le> length xs"
    using stack_inv_Some [OF inv mnz] by blast
  define t where "t = unat (stack_top s) - 1"
  have t: "unat (stack_top s - 1) = t" "unat (stack_top s) = Suc t" "t < length xs"
    using pos nz xs(2) stack_top_le [OF inv] by (auto simp: t_def unat_pred_size)
  have "rev (take (Suc t) xs) = xs ! t # rev (take t xs)"
    using t(3) by (simp add: take_Suc_conv_app_nth)
  with cons xs(1) t(2) have v: "v = xs ! t" "vs = rev (take t xs)"
    by (auto simp: stack_contents_def)
  let ?s' = "s\<lparr>stack_top := stack_top s - 1\<rparr>"
  have "ptr_stack_pop (Some s) (Some old) = Inr (ERR_NONE, ?s', v)"
    using xs(1) t nz v(1)
    by (simp add: ptr_stack_pop_def ptr_stack_get_remaining_count_def c_simps Let_def)
  moreover have "stack_inv ?s'"
    using xs t stack_top_le [OF inv] by (simp add: stack_inv_def word_le_nat_alt)
  moreover have "stack_contents ?s' = vs"
    using xs(1) t(1) v(2) by (simp add: stack_contents_def)
  ultimately show ?thesis by auto
qed

interpretation ps: bounded_stack
  "\<lambda>s. ptr_stack_push (Some s)" "\<lambda>s old. ptr_stack_pop (Some s) (Some old)"
  "\<lambda>s. ptr_stack_get_remaining_count (Some s)" stack_inv
  "\<lambda>s. unat (max_item_count s)" stack_contents
proof unfold_locales
  fix s v old
  assume inv: "stack_inv s"
  note len = length_stack_contents [OF inv] and le = stack_top_le [OF inv]
  show "length (stack_contents s) \<le> unat (max_item_count s)"
    using len le by simp
  show "\<exists>n. ptr_stack_get_remaining_count (Some s) = Inr n
          \<and> unat n = unat (max_item_count s) - length (stack_contents s)"
    using len le by (simp add: ptr_stack_get_remaining_count_def unat_sub_size)
  show "ptr_stack_push (Some s) v = Inr (ERR_NO_MEM, s)"
    if "length (stack_contents s) = unat (max_item_count s)"
    using that len by (simp add: ptr_stack_push_def ptr_stack_get_remaining_count_def)
  show "\<exists>s'. ptr_stack_push (Some s) v = Inr (ERR_NONE, s') \<and> stack_inv s'
          \<and> unat (max_item_count s') = unat (max_item_count s)
          \<and> stack_contents s' = v # stack_contents s"
    if "length (stack_contents s) < unat (max_item_count s)"
    using ptr_stack_push_room [OF inv, of v] that len by auto
  show "ptr_stack_pop (Some s) (Some old) = Inr (ERR_EMPTY, s, old)"
    if "stack_contents s = []"
    using that len by (simp add: ptr_stack_pop_def ptr_stack_get_remaining_count_def)
  show "\<exists>s'. ptr_stack_pop (Some s) (Some old) = Inr (ERR_NONE, s', v) \<and> stack_inv s'
          \<and> unat (max_item_count s') = unat (max_item_count s) \<and> stack_contents s' = vs"
    if "stack_contents s = v # vs" for vs
    using ptr_stack_pop_some [OF inv that] by auto
qed

lemma ptr_stack_init_state:
  assumes "n \<noteq> 0" and "unat n \<le> length xs"
  shows "\<exists>s. ptr_stack_init (Some junk) (Some xs) n = Inr (ERR_NONE, s) \<and> stack_inv s
           \<and> max_item_count s = n \<and> stack_contents s = []"
  using assms by (simp add: ptr_stack_init_def stack_inv_def stack_contents_def)

section \<open>Properties\<close>

text \<open>
  A stack initialised on an array of at least \<open>n\<close> slots takes any \<open>n\<close> or fewer pointers,
  gives them back in reverse order, and no call faults.
\<close>

theorem ptr_stack_lifo:
  assumes "n \<noteq> 0" and "unat n \<le> length xs" and "length vs \<le> unat n"
  shows "\<exists>s s' s''. ptr_stack_init (Some junk) (Some xs) n = Inr (ERR_NONE, s)
    \<and> stack_push_all (\<lambda>s. ptr_stack_push (Some s)) s vs = Inr s'
    \<and> stack_pop_all (\<lambda>s old. ptr_stack_pop (Some s) (Some old)) s' old (length vs) = Inr (rev vs, s'')
    \<and> stack_contents s'' = []"
  using ptr_stack_init_state [OF assms(1,2), of junk] ps.lifo_order [of _ vs old] assms(3) by fastforce

theorem ptr_stack_lifo_witness:
  "\<exists>s s' s''. ptr_stack_init (Some \<lparr>stack = None, max_item_count = 0, stack_top = 0\<rparr>)
       (Some [0, 0, 0]) 3 = Inr (ERR_NONE, s)
    \<and> stack_push_all (\<lambda>s. ptr_stack_push (Some s)) s [16, 32, 48] = Inr s'
    \<and> stack_pop_all (\<lambda>s old. ptr_stack_pop (Some s) (Some old)) s' 7 (length [16, 32, 48 :: ptr])
        = Inr (rev [16, 32, 48], s'')
    \<and> stack_contents s'' = []"
  by (rule ptr_stack_lifo) simp_all

end
