(* ===== verification/I_Pool_Allocator.thy ===== *)
theory I_Pool_Allocator
  imports Error_Codes
begin

text \<open>
  The allocator interface of \<open>src/mem_alloc/i_pool_allocator.c\<close>: a context pointer and three
  function pointers, with helpers that pass the context first. The pool behind the context is
  shared with whoever else holds its address, so the functions act on a store: the type \<open>'m\<close>
  of the memory is a parameter, and \<open>'e\<close> is the code an implementation returns.

  What every allocator promises is the locale \<open>pool_allocator\<close>.
\<close>

section \<open>Model\<close>

type_synonym ('m, 'e) pool_func = "ptr \<Rightarrow> ptr option \<Rightarrow> 'm \<Rightarrow> ('e \<times> 'm \<times> ptr) result"

record ('m, 'e) IPoolAllocator =
  context_ptr :: ptr
  allocate :: "('m, 'e) pool_func option"
  deallocate :: "('m, 'e) pool_func option"
  get_available_count :: "(ptr \<Rightarrow> 'm \<Rightarrow> size_t result) option"

definition i_pool_allocator_allocate ::
    "('m, 'e) IPoolAllocator option \<Rightarrow> ptr option \<Rightarrow> 'm \<Rightarrow> ('e \<times> 'm \<times> ptr) result" where
  "i_pool_allocator_allocate interface object_ptr m =
     r_bind (assert_ptr interface) (\<lambda>i.
     r_bind (assert_ptr object_ptr) (\<lambda>_.
     r_bind (deref (allocate i)) (\<lambda>f. f (context_ptr i) object_ptr m)))"

definition i_pool_allocator_deallocate ::
    "('m, 'e) IPoolAllocator option \<Rightarrow> ptr option \<Rightarrow> 'm \<Rightarrow> ('e \<times> 'm \<times> ptr) result" where
  "i_pool_allocator_deallocate interface object_ptr m =
     r_bind (assert_ptr interface) (\<lambda>i.
     r_bind (assert_ptr object_ptr) (\<lambda>_.
     r_bind (deref (deallocate i)) (\<lambda>f. f (context_ptr i) object_ptr m)))"

definition i_pool_allocator_get_available_count ::
    "('m, 'e) IPoolAllocator option \<Rightarrow> 'm \<Rightarrow> size_t result" where
  "i_pool_allocator_get_available_count interface m =
     r_bind (assert_ptr interface) (\<lambda>i.
     r_bind (deref (get_available_count i)) (\<lambda>f. f (context_ptr i) m))"

section \<open>What an allocator promises\<close>

text \<open>Allocating a number of blocks one after the other.\<close>

fun allocate_many ::
    "('s \<Rightarrow> ptr \<Rightarrow> (ErrorCodes \<times> 's \<times> ptr) result) \<Rightarrow> 's \<Rightarrow> nat \<Rightarrow> (ptr list \<times> 's) result" where
  "allocate_many alloc s 0 = Inr ([], s)"
| "allocate_many alloc s (Suc n) =
     r_bind (alloc s 0) (\<lambda>(_, s', b).
     r_bind (allocate_many alloc s' n) (\<lambda>(bs, s''). Inr (b # bs, s'')))"

locale pool_allocator =
  fixes alloc :: "'s \<Rightarrow> ptr \<Rightarrow> (ErrorCodes \<times> 's \<times> ptr) result"
    and dealloc :: "'s \<Rightarrow> ptr \<Rightarrow> (ErrorCodes \<times> 's \<times> ptr) result"
    and available :: "'s \<Rightarrow> size_t result"
    and inv :: "'s \<Rightarrow> bool"
    and blocks :: "'s \<Rightarrow> ptr set"
    and free :: "'s \<Rightarrow> ptr list"
  assumes free_distinct: "inv s \<Longrightarrow> distinct (free s)"
    and free_blocks: "inv s \<Longrightarrow> set (free s) \<subseteq> blocks s"
    and null_no_block: "inv s \<Longrightarrow> NULL \<notin> blocks s"
    and available_eq: "inv s \<Longrightarrow> \<exists>n. available s = Inr n \<and> unat n = length (free s)"
    and alloc_none: "inv s \<Longrightarrow> free s = [] \<Longrightarrow> alloc s old = Inr (ERR_NO_MEM, s, old)"
    and alloc_some: "inv s \<Longrightarrow> free s = b # bs \<Longrightarrow> \<exists>s'. alloc s old = Inr (ERR_NONE, s', b)
          \<and> inv s' \<and> blocks s' = blocks s \<and> free s' = bs"
    and dealloc_null: "inv s \<Longrightarrow> dealloc s NULL = Inr (ERR_OUT_OF_BOUNDS, s, NULL)"
    and dealloc_block: "inv s \<Longrightarrow> b \<in> blocks s - set (free s) \<Longrightarrow>
          \<exists>s'. dealloc s b = Inr (ERR_NONE, s', NULL) \<and> inv s' \<and> blocks s' = blocks s
                \<and> free s' = b # free s"
begin

lemma allocate_many_distinct:
  assumes "inv s" and "n \<le> length (free s)"
  shows "\<exists>bs s'. allocate_many alloc s n = Inr (bs, s') \<and> inv s' \<and> length bs = n \<and> distinct bs
           \<and> set bs \<subseteq> blocks s \<and> set bs \<inter> set (free s') = {} \<and> free s' = drop n (free s)"
proof -
  have "\<exists>s'. allocate_many alloc s n = Inr (take n (free s), s') \<and> inv s' \<and> free s' = drop n (free s)"
    using assms
  proof (induction n arbitrary: s)
    case 0
    then show ?case by simp
  next
    case (Suc n)
    then obtain b bs where b: "free s = b # bs" by (cases "free s") auto
    then obtain s1 where s1: "alloc s 0 = Inr (ERR_NONE, s1, b)" "inv s1" "free s1 = bs"
      using alloc_some [OF Suc.prems(1) b, of 0] by blast
    then show ?case using Suc.IH [OF s1(2)] Suc.prems(2) b by auto
  qed
  then obtain s' where s': "allocate_many alloc s n = Inr (take n (free s), s')" "inv s'"
    "free s' = drop n (free s)" by blast
  have "set (take n (free s)) \<inter> set (drop n (free s)) = {}"
    using free_distinct [OF assms(1)] by (rule set_take_disj_set_drop_if_distinct) simp
  moreover have "set (take n (free s)) \<subseteq> blocks s"
    using free_blocks [OF assms(1)] set_take_subset [of n "free s"] by blast
  ultimately show ?thesis
    using s' assms(2) free_distinct [OF assms(1)] by (intro exI [of _ "take n (free s)"]) auto
qed

text \<open>A block given back is the next one handed out.\<close>

lemma dealloc_alloc:
  assumes "inv s" and "b \<in> blocks s - set (free s)"
  shows "\<exists>s' s''. dealloc s b = Inr (ERR_NONE, s', NULL) \<and> alloc s' old = Inr (ERR_NONE, s'', b)
           \<and> inv s'' \<and> free s'' = free s"
  using dealloc_block [OF assms] alloc_some by metis

end

end
