(* ===== verification/Static_Pool.thy ===== *)
theory Static_Pool
  imports Ptr_Stack I_Pool_Allocator
begin

text \<open>
  The fixed-size block allocator of \<open>src/mem_alloc/static_pool.c\<close>. It hands out addresses
  inside a caller-provided buffer and keeps the free ones on a pointer stack, which it uses
  only through the stack's functions; the proofs use the facts of the interpretation \<open>ps\<close>
  of \<open>bounded_stack\<close>. The pool never reads or writes the buffer itself, so the buffer is its
  address.
\<close>

section \<open>Model\<close>

record StaticPoolConfig =
  allocation_stack :: "ptr list option"
  pool_buffer :: ptr
  buffer_size :: size_t
  object_size :: size_t
  object_count :: size_t

record StaticPool =
  config :: StaticPoolConfig
  free_stack :: PtrStack

definition static_pool_validate_config :: "StaticPoolConfig \<Rightarrow> ErrorCodes result" where
  "static_pool_validate_config cfg =
     r_bind (r_assert (pool_buffer cfg \<noteq> NULL)) (\<lambda>_.
     r_bind (assert_ptr (allocation_stack cfg)) (\<lambda>_.
       if buffer_size cfg < object_size cfg * object_count cfg then Inr ERR_INVALID_ARG
       else Inr ERR_NONE))"

text \<open>The loop that puts every block on the free stack; results of the pushes are dropped.\<close>

function fill_free_stack :: "StaticPoolConfig \<Rightarrow> PtrStack \<Rightarrow> size_t \<Rightarrow> PtrStack result" where
  "fill_free_stack cfg s idx =
     (if idx < object_count cfg
      then r_bind (ptr_stack_push (Some s) (pool_buffer cfg + idx * object_size cfg)) (\<lambda>(_, s').
             fill_free_stack cfg s' (idx + 1))
      else Inr s)"
  by pat_completeness auto
termination
  by (relation "measure (\<lambda>(cfg, s, idx). unat (object_count cfg) - unat idx)")
     (auto simp: word_less_nat_alt unat_Suc_size)

declare fill_free_stack.simps [simp del]

definition static_pool_init ::
    "StaticPool option \<Rightarrow> StaticPoolConfig option \<Rightarrow> (ErrorCodes \<times> StaticPool) result" where
  "static_pool_init pool cfg =
     r_bind (assert_ptr pool) (\<lambda>p.
     r_bind (assert_ptr cfg) (\<lambda>c.
     r_bind (static_pool_validate_config c) (\<lambda>ret.
       if ret \<noteq> ERR_NONE then Inr (ret, p)
       else
         let p1 = p\<lparr>config := c\<rparr> in
         r_bind (ptr_stack_init (Some (free_stack p1)) (allocation_stack (config p1))
                   (object_count (config p1))) (\<lambda>(_, s0).
         r_bind (fill_free_stack (config p1) s0 0) (\<lambda>s1.
           Inr (ERR_NONE, p1\<lparr>free_stack := s1\<rparr>))))))"

definition static_pool_deinit :: "StaticPool option \<Rightarrow> StaticPool result" where
  "static_pool_deinit pool =
     r_bind (assert_ptr pool) (\<lambda>p.
     r_bind (ptr_stack_deinit (Some (free_stack p))) (\<lambda>s. Inr (p\<lparr>free_stack := s\<rparr>)))"

definition static_pool_allocate ::
    "StaticPool option \<Rightarrow> ptr option \<Rightarrow> (ErrorCodes \<times> StaticPool \<times> ptr) result" where
  "static_pool_allocate pool object_pointer =
     r_bind (assert_ptr pool) (\<lambda>p.
     r_bind (assert_ptr object_pointer) (\<lambda>old.
     r_bind (ptr_stack_pop (Some (free_stack p)) (Some NULL)) (\<lambda>(ret, s, temp_token).
       if ret = ERR_NONE then Inr (ERR_NONE, p\<lparr>free_stack := s\<rparr>, temp_token)
       else Inr (ERR_NO_MEM, p\<lparr>free_stack := s\<rparr>, old))))"

definition static_pool_deallocate ::
    "StaticPool option \<Rightarrow> ptr option \<Rightarrow> (ErrorCodes \<times> StaticPool \<times> ptr) result" where
  "static_pool_deallocate pool object_pointer =
     r_bind (assert_ptr pool) (\<lambda>p.
     r_bind (assert_ptr object_pointer) (\<lambda>obj.
       if obj = NULL then Inr (ERR_OUT_OF_BOUNDS, p, obj)
       else r_bind (ptr_stack_push (Some (free_stack p)) obj) (\<lambda>(_, s).
              Inr (ERR_NONE, p\<lparr>free_stack := s\<rparr>, NULL))))"

definition static_pool_get_available_count :: "StaticPool option \<Rightarrow> size_t result" where
  "static_pool_get_available_count pool =
     r_bind (assert_ptr pool) (\<lambda>p.
     r_bind (ptr_stack_get_remaining_count (Some (free_stack p))) (\<lambda>n.
       Inr (object_count (config p) - n)))"

text \<open>
  The function pointers the interface gets act on a store of pools by address: the cast to
  \<open>void *\<close> in the C code forgets the type of the context, not the object.
\<close>

type_synonym pool_store = "ptr \<rightharpoonup> StaticPool"

definition on_store ::
    "(StaticPool option \<Rightarrow> ptr option \<Rightarrow> (ErrorCodes \<times> StaticPool \<times> ptr) result)
     \<Rightarrow> (pool_store, ErrorCodes) pool_func" where
  "on_store f ctx obj m = r_bind (f (m ctx) obj) (\<lambda>(e, p, v). Inr (e, m(ctx \<mapsto> p), v))"

definition static_pool_as_i_pool_allocator ::
    "ptr \<Rightarrow> (pool_store, ErrorCodes) IPoolAllocator option
     \<Rightarrow> (ErrorCodes \<times> (pool_store, ErrorCodes) IPoolAllocator) result" where
  "static_pool_as_i_pool_allocator pool interface =
     r_bind (r_assert (pool \<noteq> NULL)) (\<lambda>_.
     r_bind (assert_ptr interface) (\<lambda>i.
       Inr (ERR_NONE,
            i\<lparr>context_ptr := pool,
              allocate := Some (on_store static_pool_allocate),
              deallocate := Some (on_store static_pool_deallocate),
              get_available_count := Some (\<lambda>ctx m. static_pool_get_available_count (m ctx))\<rparr>)))"

section \<open>Blocks\<close>

definition pool_block :: "StaticPoolConfig \<Rightarrow> nat \<Rightarrow> ptr" where
  "pool_block cfg i = pool_buffer cfg + word_of_nat i * object_size cfg"

definition pool_blocks :: "StaticPoolConfig \<Rightarrow> ptr list" where
  "pool_blocks cfg = map (pool_block cfg) [0..<unat (object_count cfg)]"

text \<open>
  A configuration the pool can work with: the buffer lies in the address space and has room
  for the objects, with the product taken exactly.
\<close>

definition pool_config_ok :: "StaticPoolConfig \<Rightarrow> bool" where
  "pool_config_ok cfg \<longleftrightarrow> pool_buffer cfg \<noteq> NULL \<and> object_size cfg \<noteq> 0 \<and> object_count cfg \<noteq> 0
     \<and> unat (object_size cfg) * unat (object_count cfg) \<le> unat (buffer_size cfg)
     \<and> unat (pool_buffer cfg) + unat (buffer_size cfg) \<le> 2 ^ 64
     \<and> (case allocation_stack cfg of None \<Rightarrow> False
        | Some xs \<Rightarrow> unat (object_count cfg) \<le> length xs)"

definition pool_inv :: "StaticPool \<Rightarrow> bool" where
  "pool_inv p \<longleftrightarrow> pool_config_ok (config p) \<and> stack_inv (free_stack p)
     \<and> max_item_count (free_stack p) = object_count (config p)
     \<and> distinct (stack_contents (free_stack p))
     \<and> set (stack_contents (free_stack p)) \<subseteq> set (pool_blocks (config p))"

lemma unat_pool_block:
  assumes ok: "pool_config_ok cfg" and i: "i < unat (object_count cfg)"
  shows "unat (pool_block cfg i) = unat (pool_buffer cfg) + i * unat (object_size cfg)"
    and "i * unat (object_size cfg) + unat (object_size cfg) \<le> unat (buffer_size cfg)"
proof -
  let ?sz = "unat (object_size cfg)"
  have "Suc i * ?sz \<le> unat (object_count cfg) * ?sz"
    using i by (intro mult_right_mono) auto
  then show le: "i * ?sz + ?sz \<le> unat (buffer_size cfg)"
    using ok by (simp add: pool_config_ok_def mult.commute)
  have "0 < ?sz" using ok by (simp add: pool_config_ok_def unat_gt_0)
  with le ok have lt: "unat (pool_buffer cfg) + i * ?sz < 18446744073709551616"
    by (simp add: pool_config_ok_def)
  have "i < 18446744073709551616" using i unat_size_lt [of "object_count cfg"] by linarith
  then have "unat (word_of_nat i :: size_t) = i" by (simp add: unat_of_nat)
  then show "unat (pool_block cfg i) = unat (pool_buffer cfg) + i * ?sz"
    using lt by (simp add: pool_block_def unat_word_ariths)
qed

lemma pool_block_inj:
  assumes "pool_config_ok cfg" "i < unat (object_count cfg)" "j < unat (object_count cfg)"
    and "pool_block cfg i = pool_block cfg j"
  shows "i = j"
proof -
  have "i * unat (object_size cfg) = j * unat (object_size cfg)"
    using assms unat_pool_block(1) [of cfg i] unat_pool_block(1) [of cfg j] by auto
  then show ?thesis using assms(1) by (simp add: pool_config_ok_def)
qed

lemma distinct_pool_blocks: "pool_config_ok cfg \<Longrightarrow> distinct (pool_blocks cfg)"
  unfolding pool_blocks_def distinct_map inj_on_def by simp (meson atLeastLessThan_iff pool_block_inj)

lemma null_not_pool_block: "pool_config_ok cfg \<Longrightarrow> NULL \<notin> set (pool_blocks cfg)"
proof
  assume ok: "pool_config_ok cfg" and "NULL \<in> set (pool_blocks cfg)"
  then obtain i where "i < unat (object_count cfg)" "pool_block cfg i = 0"
    by (auto simp: pool_blocks_def)
  then show False
    using unat_pool_block(1) [OF ok, of i] ok by (simp add: pool_config_ok_def)
qed

lemma length_pool_blocks [simp]: "length (pool_blocks cfg) = unat (object_count cfg)"
  by (simp add: pool_blocks_def)

section \<open>Initialisation\<close>

lemma fill_free_stack_eq:
  assumes "stack_inv s" and "max_item_count s = object_count cfg" and "idx \<le> object_count cfg"
    and "stack_contents s = rev (map (pool_block cfg) [0..<unat idx])"
  shows "\<exists>s'. fill_free_stack cfg s idx = Inr s' \<and> stack_inv s'
           \<and> max_item_count s' = object_count cfg \<and> stack_contents s' = rev (pool_blocks cfg)"
  using assms
proof (induction cfg s idx rule: fill_free_stack.induct)
  case (1 cfg s idx)
  let ?b = "pool_buffer cfg + idx * object_size cfg"
  show ?case
  proof (cases "idx < object_count cfg")
    case True
    then have lt: "unat idx < unat (object_count cfg)" by (simp add: word_less_nat_alt)
    have b: "?b = pool_block cfg (unat idx)" by (simp add: pool_block_def)
    have up: "unat (idx + 1) = Suc (unat idx)" by (rule unat_Suc_size [OF lt])
    obtain s1 where s1: "ptr_stack_push (Some s) ?b = Inr (ERR_NONE, s1)" "stack_inv s1"
        "max_item_count s1 = object_count cfg" "stack_contents s1 = ?b # stack_contents s"
      using ps.push_room [OF "1.prems"(1), of ?b] "1.prems" lt by auto
    have "fill_free_stack cfg s idx = fill_free_stack cfg s1 (idx + 1)"
      using True s1(1) by (simp add: fill_free_stack.simps [of cfg s])
    moreover have "idx + 1 \<le> object_count cfg" using lt up by (simp add: word_le_nat_alt)
    moreover have "stack_contents s1 = rev (map (pool_block cfg) [0..<unat (idx + 1)])"
      using s1(4) "1.prems"(4) b up by simp
    ultimately show ?thesis
      using "1.IH" [OF True s1(1) refl s1(2,3)] by simp
  next
    case False
    then have "idx = object_count cfg" using "1.prems"(3) by simp
    then show ?thesis
      using "1.prems" by (simp add: fill_free_stack.simps [of cfg s] pool_blocks_def)
  qed
qed

lemma static_pool_init_state:
  assumes "pool_config_ok cfg"
  shows "\<exists>p. static_pool_init (Some junk) (Some cfg) = Inr (ERR_NONE, p) \<and> pool_inv p
           \<and> config p = cfg \<and> stack_contents (free_stack p) = rev (pool_blocks cfg)"
proof -
  note ok = assms [unfolded pool_config_ok_def]
  obtain xs where xs: "allocation_stack cfg = Some xs" "unat (object_count cfg) \<le> length xs"
    using ok by (auto split: option.splits)
  let ?s0 = "(free_stack junk)\<lparr>stack := Some xs, max_item_count := object_count cfg, stack_top := 0\<rparr>"
  obtain s1 where s1: "fill_free_stack cfg ?s0 0 = Inr s1" "stack_inv s1"
      "max_item_count s1 = object_count cfg" "stack_contents s1 = rev (pool_blocks cfg)"
    using fill_free_stack_eq [of ?s0 cfg 0] xs by (auto simp: stack_inv_def stack_contents_def)
  have lt: "unat (object_size cfg) * unat (object_count cfg) < 18446744073709551616"
    using ok unat_size_lt [of "buffer_size cfg"] by linarith
  then have "\<not> buffer_size cfg < object_size cfg * object_count cfg"
    using ok by (simp add: word_less_nat_alt unat_word_ariths(2))
  then have "static_pool_init (Some junk) (Some cfg)
      = Inr (ERR_NONE, junk\<lparr>config := cfg, free_stack := s1\<rparr>)"
    using ok xs s1(1)
    by (simp add: static_pool_init_def static_pool_validate_config_def ptr_stack_init_def Let_def)
  then show ?thesis
    using assms s1 distinct_pool_blocks [OF assms] by (auto simp: pool_inv_def)
qed

section \<open>Allocation and release\<close>

abbreviation pool_free :: "StaticPool \<Rightarrow> ptr list" where
  "pool_free p \<equiv> stack_contents (free_stack p)"

lemma pool_invD:
  assumes "pool_inv p"
  shows "pool_config_ok (config p)" "stack_inv (free_stack p)"
    "max_item_count (free_stack p) = object_count (config p)"
    "distinct (pool_free p)" "set (pool_free p) \<subseteq> set (pool_blocks (config p))"
  using assms by (simp_all add: pool_inv_def)

lemma static_pool_allocate_none:
  "pool_inv p \<Longrightarrow> pool_free p = [] \<Longrightarrow>
   static_pool_allocate (Some p) (Some old) = Inr (ERR_NO_MEM, p, old)"
  using ps.pop_empty [OF pool_invD(2), of p NULL] by (simp add: static_pool_allocate_def)

lemma static_pool_allocate_some:
  assumes "pool_inv p" and "pool_free p = b # bs"
  shows "\<exists>p'. static_pool_allocate (Some p) (Some old) = Inr (ERR_NONE, p', b) \<and> pool_inv p'
           \<and> config p' = config p \<and> pool_free p' = bs"
proof -
  obtain s where s: "ptr_stack_pop (Some (free_stack p)) (Some NULL) = Inr (ERR_NONE, s, b)"
      "stack_inv s" "max_item_count s = max_item_count (free_stack p)" "stack_contents s = bs"
    using ps.pop_some [OF pool_invD(2) [OF assms(1)] assms(2), of NULL] by auto
  then show ?thesis
    using assms pool_invD [OF assms(1)]
    by (intro exI [of _ "p\<lparr>free_stack := s\<rparr>"]) (auto simp: static_pool_allocate_def pool_inv_def)
qed

lemma static_pool_deallocate_block:
  assumes inv: "pool_inv p" and b: "b \<in> set (pool_blocks (config p)) - set (pool_free p)"
  shows "\<exists>p'. static_pool_deallocate (Some p) (Some b) = Inr (ERR_NONE, p', NULL) \<and> pool_inv p'
           \<and> config p' = config p \<and> pool_free p' = b # pool_free p"
proof -
  note d = pool_invD [OF inv]
  have "card (set (pool_free p)) < card (set (pool_blocks (config p)))"
    using d(5) b by (intro psubset_card_mono) auto
  then have room: "length (pool_free p) < unat (max_item_count (free_stack p))"
    using d(3,4) distinct_pool_blocks [OF d(1)] by (simp add: distinct_card)
  obtain s where s: "ptr_stack_push (Some (free_stack p)) b = Inr (ERR_NONE, s)"
      "stack_inv s" "max_item_count s = max_item_count (free_stack p)"
      "stack_contents s = b # pool_free p"
    using ps.push_room [OF d(2) room, of b] by auto
  have "b \<noteq> NULL" using b null_not_pool_block [OF d(1)] by auto
  then show ?thesis
    using s d b
    by (intro exI [of _ "p\<lparr>free_stack := s\<rparr>"]) (auto simp: static_pool_deallocate_def pool_inv_def)
qed

lemma static_pool_available_eq:
  assumes "pool_inv p"
  shows "\<exists>n. static_pool_get_available_count (Some p) = Inr n \<and> unat n = length (pool_free p)"
proof -
  note d = pool_invD [OF assms]
  obtain r where r: "ptr_stack_get_remaining_count (Some (free_stack p)) = Inr r"
      "unat r = unat (max_item_count (free_stack p)) - length (pool_free p)"
    using ps.remaining_eq [OF d(2)] by auto
  have "length (pool_free p) \<le> unat (object_count (config p))"
    using ps.contents_bound [OF d(2)] d(3) by simp
  then show ?thesis
    using r d(3) by (simp add: static_pool_get_available_count_def unat_sub_size)
qed

interpretation sp: pool_allocator
  "\<lambda>p old. static_pool_allocate (Some p) (Some old)"
  "\<lambda>p b. static_pool_deallocate (Some p) (Some b)"
  "\<lambda>p. static_pool_get_available_count (Some p)"
  pool_inv "\<lambda>p. set (pool_blocks (config p))" pool_free
proof unfold_locales
  fix p old b bs
  assume inv: "pool_inv p"
  note d = pool_invD [OF inv]
  show "distinct (pool_free p)" by (rule d)
  show "set (pool_free p) \<subseteq> set (pool_blocks (config p))" by (rule d)
  show "NULL \<notin> set (pool_blocks (config p))" by (rule null_not_pool_block [OF d(1)])
  show "\<exists>n. static_pool_get_available_count (Some p) = Inr n \<and> unat n = length (pool_free p)"
    by (rule static_pool_available_eq [OF inv])
  show "static_pool_allocate (Some p) (Some old) = Inr (ERR_NO_MEM, p, old)"
    if "pool_free p = []"
    by (rule static_pool_allocate_none [OF inv that])
  show "\<exists>s'. static_pool_allocate (Some p) (Some old) = Inr (ERR_NONE, s', b) \<and> pool_inv s'
      \<and> set (pool_blocks (config s')) = set (pool_blocks (config p)) \<and> pool_free s' = bs"
    if "pool_free p = b # bs"
    using static_pool_allocate_some [OF inv that, of old] by auto
  show "static_pool_deallocate (Some p) (Some NULL) = Inr (ERR_OUT_OF_BOUNDS, p, NULL)"
    by (simp add: static_pool_deallocate_def)
  show "\<exists>s'. static_pool_deallocate (Some p) (Some b) = Inr (ERR_NONE, s', NULL) \<and> pool_inv s'
      \<and> set (pool_blocks (config s')) = set (pool_blocks (config p)) \<and> pool_free s' = b # pool_free p"
    if "b \<in> set (pool_blocks (config p)) - set (pool_free p)"
    using static_pool_deallocate_block [OF inv that] by auto
qed

section \<open>Through the interface\<close>

text \<open>
  The interface made for the pool at address \<open>a\<close>, used on any store in which a pool lives at
  that address, satisfies the same contract.
\<close>

definition pool_interface :: "ptr \<Rightarrow> (pool_store, ErrorCodes) IPoolAllocator" where
  "pool_interface a =
     \<lparr>context_ptr = a, allocate = Some (on_store static_pool_allocate),
      deallocate = Some (on_store static_pool_deallocate),
      get_available_count = Some (\<lambda>ctx m. static_pool_get_available_count (m ctx))\<rparr>"

lemma static_pool_as_i_pool_allocator_eq:
  "a \<noteq> NULL \<Longrightarrow> static_pool_as_i_pool_allocator a (Some i) = Inr (ERR_NONE, pool_interface a)"
  by (simp add: static_pool_as_i_pool_allocator_def pool_interface_def)

definition store_inv :: "ptr \<Rightarrow> pool_store \<Rightarrow> bool" where
  "store_inv a m \<longleftrightarrow> a \<noteq> NULL \<and> (case m a of None \<Rightarrow> False | Some p \<Rightarrow> pool_inv p)"

definition store_blocks :: "ptr \<Rightarrow> pool_store \<Rightarrow> ptr set" where
  "store_blocks a m = (case m a of None \<Rightarrow> {} | Some p \<Rightarrow> set (pool_blocks (config p)))"

definition store_free :: "ptr \<Rightarrow> pool_store \<Rightarrow> ptr list" where
  "store_free a m = (case m a of None \<Rightarrow> [] | Some p \<Rightarrow> pool_free p)"

lemma interface_eqs:
  "i_pool_allocator_allocate (Some (pool_interface a)) (Some old) m
     = r_bind (static_pool_allocate (m a) (Some old)) (\<lambda>(e, p, v). Inr (e, m(a \<mapsto> p), v))"
  "i_pool_allocator_deallocate (Some (pool_interface a)) (Some old) m
     = r_bind (static_pool_deallocate (m a) (Some old)) (\<lambda>(e, p, v). Inr (e, m(a \<mapsto> p), v))"
  "i_pool_allocator_get_available_count (Some (pool_interface a)) m
     = static_pool_get_available_count (m a)"
  by (simp_all add: i_pool_allocator_allocate_def i_pool_allocator_deallocate_def
      i_pool_allocator_get_available_count_def pool_interface_def on_store_def)

interpretation ip: pool_allocator
  "\<lambda>m old. i_pool_allocator_allocate (Some (pool_interface a)) (Some old) m"
  "\<lambda>m b. i_pool_allocator_deallocate (Some (pool_interface a)) (Some b) m"
  "\<lambda>m. i_pool_allocator_get_available_count (Some (pool_interface a)) m"
  "store_inv a" "store_blocks a" "store_free a"
  for a
proof unfold_locales
  fix m old b bs
  assume "store_inv a m"
  then obtain p where p: "m a = Some p" and inv: "pool_inv p"
    by (auto simp: store_inv_def split: option.splits)
  have eqs [simp]: "store_blocks a m = set (pool_blocks (config p))" "store_free a m = pool_free p"
    by (simp_all add: store_blocks_def store_free_def p)
  have upd [simp]: "store_inv a (m(a \<mapsto> q)) \<longleftrightarrow> pool_inv q"
    "store_blocks a (m(a \<mapsto> q)) = set (pool_blocks (config q))" "store_free a (m(a \<mapsto> q)) = pool_free q" for q
    using \<open>store_inv a m\<close> by (simp_all add: store_inv_def store_blocks_def store_free_def)
  have same: "m(a \<mapsto> p) = m" using p by (rule map_upd_triv)
  show "distinct (store_free a m)" using sp.free_distinct [OF inv] by simp
  show "set (store_free a m) \<subseteq> store_blocks a m" using sp.free_blocks [OF inv] by simp
  show "NULL \<notin> store_blocks a m" using sp.null_no_block [OF inv] by simp
  show "\<exists>n. i_pool_allocator_get_available_count (Some (pool_interface a)) m = Inr n
      \<and> unat n = length (store_free a m)"
    using sp.available_eq [OF inv] p by (simp add: interface_eqs)
  show "i_pool_allocator_allocate (Some (pool_interface a)) (Some old) m = Inr (ERR_NO_MEM, m, old)"
    if "store_free a m = []"
    using sp.alloc_none [OF inv, of old] that p same by (simp add: interface_eqs)
  show "\<exists>s'. i_pool_allocator_allocate (Some (pool_interface a)) (Some old) m = Inr (ERR_NONE, s', b)
      \<and> store_inv a s' \<and> store_blocks a s' = store_blocks a m \<and> store_free a s' = bs"
    if "store_free a m = b # bs"
    using sp.alloc_some [OF inv, of b bs old] that p by (auto simp: interface_eqs)
  show "i_pool_allocator_deallocate (Some (pool_interface a)) (Some NULL) m
      = Inr (ERR_OUT_OF_BOUNDS, m, NULL)"
    using sp.dealloc_null [OF inv] p same by (simp add: interface_eqs)
  show "\<exists>s'. i_pool_allocator_deallocate (Some (pool_interface a)) (Some b) m = Inr (ERR_NONE, s', NULL)
      \<and> store_inv a s' \<and> store_blocks a s' = store_blocks a m \<and> store_free a s' = b # store_free a m"
    if "b \<in> store_blocks a m - set (store_free a m)"
    using sp.dealloc_block [OF inv, of b] that p by (auto simp: interface_eqs)
qed

section \<open>Blocks in memory\<close>

text \<open>The bytes of the block at address \<open>b\<close>, and of the buffer, as natural numbers.\<close>

definition block_range :: "StaticPoolConfig \<Rightarrow> ptr \<Rightarrow> nat set" where
  "block_range cfg b = {unat b ..< unat b + unat (object_size cfg)}"

definition buffer_range :: "StaticPoolConfig \<Rightarrow> nat set" where
  "buffer_range cfg = {unat (pool_buffer cfg) ..< unat (pool_buffer cfg) + unat (buffer_size cfg)}"

lemma block_range_inside:
  assumes "pool_config_ok cfg" and "b \<in> set (pool_blocks cfg)"
  shows "block_range cfg b \<subseteq> buffer_range cfg"
proof -
  obtain i where "i < unat (object_count cfg)" "b = pool_block cfg i"
    using assms(2) by (auto simp: pool_blocks_def)
  then show ?thesis
    using unat_pool_block [OF assms(1), of i] by (auto simp: block_range_def buffer_range_def)
qed

lemma block_ranges_disjoint:
  assumes "pool_config_ok cfg" and "b \<in> set (pool_blocks cfg)" and "c \<in> set (pool_blocks cfg)"
    and "b \<noteq> c"
  shows "block_range cfg b \<inter> block_range cfg c = {}"
proof -
  obtain i where i: "i < unat (object_count cfg)" "b = pool_block cfg i"
    using assms(2) by (auto simp: pool_blocks_def)
  obtain j where j: "j < unat (object_count cfg)" "c = pool_block cfg j"
    using assms(3) by (auto simp: pool_blocks_def)
  have "i \<noteq> j" using i j assms(4) by auto
  then have "i * unat (object_size cfg) + unat (object_size cfg) \<le> j * unat (object_size cfg)
      \<or> j * unat (object_size cfg) + unat (object_size cfg) \<le> i * unat (object_size cfg)"
    using mult_le_mono1 [of "Suc i" j "unat (object_size cfg)"]
      mult_le_mono1 [of "Suc j" i "unat (object_size cfg)"]
    by (cases "i < j") (auto simp: add.commute Suc_le_eq)
  then show ?thesis
    using unat_pool_block(1) [OF assms(1) i(1)] unat_pool_block(1) [OF assms(1) j(1)] i(2) j(2)
    by (auto simp: block_range_def)
qed

section \<open>Properties\<close>

text \<open>
  C16. A pool initialised with a sound configuration hands out exactly \<open>object_count\<close> blocks: each
  lies inside the buffer, no two overlap, and the next request is refused with \<open>ERR_NO_MEM\<close> and
  leaves the caller's pointer alone.
\<close>

theorem static_pool_hands_out_disjoint_blocks:
  assumes "pool_config_ok cfg"
  shows "\<exists>p bs p'. static_pool_init (Some junk) (Some cfg) = Inr (ERR_NONE, p)
    \<and> allocate_many (\<lambda>p old. static_pool_allocate (Some p) (Some old)) p (unat (object_count cfg))
        = Inr (bs, p')
    \<and> length bs = unat (object_count cfg)
    \<and> (\<forall>b \<in> set bs. block_range cfg b \<subseteq> buffer_range cfg)
    \<and> pairwise (\<lambda>b c. block_range cfg b \<inter> block_range cfg c = {}) (set bs) \<and> distinct bs
    \<and> static_pool_allocate (Some p') (Some old) = Inr (ERR_NO_MEM, p', old)"
proof -
  obtain p where p: "static_pool_init (Some junk) (Some cfg) = Inr (ERR_NONE, p)" "pool_inv p"
      "config p = cfg" "pool_free p = rev (pool_blocks cfg)"
    using static_pool_init_state [OF assms] by blast
  obtain bs p' where bs: "allocate_many (\<lambda>p old. static_pool_allocate (Some p) (Some old)) p
        (unat (object_count cfg)) = Inr (bs, p')" "pool_inv p'" "length bs = unat (object_count cfg)"
      "distinct bs" "set bs \<subseteq> set (pool_blocks cfg)" "pool_free p' = []"
    using sp.allocate_many_distinct [OF p(2), of "unat (object_count cfg)"] p(3,4) by auto
  have "pairwise (\<lambda>b c. block_range cfg b \<inter> block_range cfg c = {}) (set bs)"
  proof (rule pairwiseI)
    show "block_range cfg b \<inter> block_range cfg c = {}" if "b \<in> set bs" "c \<in> set bs" "b \<noteq> c" for b c
      using that bs(5) by (intro block_ranges_disjoint [OF assms]) auto
  qed
  moreover have "\<forall>b \<in> set bs. block_range cfg b \<subseteq> buffer_range cfg"
    using block_range_inside [OF assms] bs(5) by blast
  ultimately show ?thesis
    using p(1) bs static_pool_allocate_none [OF bs(2,6), of old] by blast
qed

theorem static_pool_hands_out_disjoint_blocks_witness:
  "\<exists>p bs p'. static_pool_init
      (Some \<lparr>config = \<lparr>allocation_stack = None, pool_buffer = 0, buffer_size = 0, object_size = 0,
              object_count = 0\<rparr>, free_stack = \<lparr>stack = None, max_item_count = 0, stack_top = 0\<rparr>\<rparr>)
      (Some \<lparr>allocation_stack = Some [0, 0], pool_buffer = 4096, buffer_size = 16, object_size = 8,
              object_count = 2\<rparr>) = Inr (ERR_NONE, p)
    \<and> allocate_many (\<lambda>p old. static_pool_allocate (Some p) (Some old)) p 2 = Inr (bs, p')
    \<and> length bs = 2 \<and> distinct bs
    \<and> static_pool_allocate (Some p') (Some 77) = Inr (ERR_NO_MEM, p', 77)"
proof -
  define cfg where "cfg = \<lparr>allocation_stack = Some [0, 0], pool_buffer = 4096, buffer_size = 16,
    object_size = 8, object_count = 2\<rparr>"
  have "pool_config_ok cfg" "unat (object_count cfg) = 2"
    by (simp_all add: cfg_def pool_config_ok_def)
  then show ?thesis
    using static_pool_hands_out_disjoint_blocks [of cfg _ 77] unfolding cfg_def [symmetric] by metis
qed

text \<open>
  A block given back to the pool clears the caller's pointer, raises the available count by one
  and is the next block handed out.
\<close>

theorem static_pool_reuses_released_block:
  assumes "pool_inv p" and "b \<in> set (pool_blocks (config p))" and "b \<notin> set (pool_free p)"
  shows "\<exists>p' p'' n k. static_pool_deallocate (Some p) (Some b) = Inr (ERR_NONE, p', NULL)
    \<and> static_pool_get_available_count (Some p) = Inr n
    \<and> static_pool_get_available_count (Some p') = Inr k \<and> unat k = Suc (unat n)
    \<and> static_pool_allocate (Some p') (Some old) = Inr (ERR_NONE, p'', b)
    \<and> pool_inv p'' \<and> pool_free p'' = pool_free p"
proof -
  obtain p' where p': "static_pool_deallocate (Some p) (Some b) = Inr (ERR_NONE, p', NULL)"
      "pool_inv p'" "pool_free p' = b # pool_free p"
    using static_pool_deallocate_block [OF assms(1)] assms(2,3) by blast
  then show ?thesis
    using static_pool_available_eq [OF assms(1)] static_pool_available_eq [OF p'(2)]
      static_pool_allocate_some [OF p'(2,3), of old] by auto
qed

theorem static_pool_reuses_released_block_witness:
  "\<exists>p' p''. static_pool_deallocate (Some \<lparr>config = \<lparr>allocation_stack = Some [4096], pool_buffer = 4096,
        buffer_size = 8, object_size = 8, object_count = 1\<rparr>,
        free_stack = \<lparr>stack = Some [4096], max_item_count = 1, stack_top = 0\<rparr>\<rparr>) (Some 4096)
      = Inr (ERR_NONE, p', NULL)
    \<and> static_pool_allocate (Some p') (Some 0) = Inr (ERR_NONE, p'', 4096)"
proof -
  define p where "p = \<lparr>config = \<lparr>allocation_stack = Some [4096], pool_buffer = 4096,
    buffer_size = 8, object_size = 8, object_count = 1\<rparr>,
    free_stack = \<lparr>stack = Some [4096 :: ptr], max_item_count = 1, stack_top = 0\<rparr>\<rparr>"
  have "pool_inv p" "4096 \<in> set (pool_blocks (config p))" "4096 \<notin> set (pool_free p)"
    by (simp_all add: p_def pool_inv_def pool_config_ok_def stack_inv_def stack_contents_def
        pool_blocks_def pool_block_def)
  then show ?thesis
    using static_pool_reuses_released_block [of p 4096 0] unfolding p_def [symmetric] by blast
qed

text \<open>
  Using a pool through the allocator interface is using it directly: the interface made for the
  pool at address \<open>a\<close> performs the pool's own operation on the pool at \<open>a\<close>, with the same result,
  and leaves every other pool of the store as it was.
\<close>

theorem pool_interface_delegates:
  assumes "a \<noteq> NULL"
  shows "\<exists>i. static_pool_as_i_pool_allocator a (Some i0) = Inr (ERR_NONE, i)
    \<and> (\<forall>m obj. i_pool_allocator_allocate (Some i) (Some obj) m
         = r_bind (static_pool_allocate (m a) (Some obj)) (\<lambda>(e, p, v). Inr (e, m(a \<mapsto> p), v)))
    \<and> (\<forall>m obj. i_pool_allocator_deallocate (Some i) (Some obj) m
         = r_bind (static_pool_deallocate (m a) (Some obj)) (\<lambda>(e, p, v). Inr (e, m(a \<mapsto> p), v)))
    \<and> (\<forall>m. i_pool_allocator_get_available_count (Some i) m
         = static_pool_get_available_count (m a))"
  using static_pool_as_i_pool_allocator_eq [OF assms, of i0] by (simp add: interface_eqs)

theorem pool_interface_delegates_witness:
  "\<exists>i. static_pool_as_i_pool_allocator 64 (Some \<lparr>context_ptr = 0, allocate = None, deallocate = None,
       get_available_count = None\<rparr>) = Inr (ERR_NONE, i)
    \<and> i_pool_allocator_get_available_count (Some i) Map.empty = Inl Assertion_failed"
  using pool_interface_delegates [of 64 "\<lparr>context_ptr = 0, allocate = None, deallocate = None,
       get_available_count = None\<rparr>"]
  by (auto simp: static_pool_get_available_count_def)

text \<open>
  A client that knows only the interface gets as many distinct blocks as it asks for while there
  are free ones, all blocks of the pool behind it, and none of them is still on the free list.
\<close>

theorem pool_interface_allocates_distinct:
  assumes "store_inv a m" and "n \<le> length (store_free a m)"
  shows "\<exists>bs m'. allocate_many
        (\<lambda>m old. i_pool_allocator_allocate (Some (pool_interface a)) (Some old) m) m n = Inr (bs, m')
    \<and> length bs = n \<and> distinct bs \<and> set bs \<subseteq> store_blocks a m \<and> set bs \<inter> set (store_free a m') = {}
    \<and> store_inv a m'"
  using ip.allocate_many_distinct [OF assms] by blast

theorem pool_interface_allocates_distinct_witness:
  "\<exists>bs m'. allocate_many
        (\<lambda>m old. i_pool_allocator_allocate (Some (pool_interface 64)) (Some old) m)
        [64 \<mapsto> \<lparr>config = \<lparr>allocation_stack = Some [4096], pool_buffer = 4096, buffer_size = 8,
            object_size = 8, object_count = 1\<rparr>,
            free_stack = \<lparr>stack = Some [4096], max_item_count = 1, stack_top = 1\<rparr>\<rparr>] 1 = Inr (bs, m')
    \<and> length bs = 1 \<and> store_inv 64 m'"
proof -
  define p where "p = \<lparr>config = \<lparr>allocation_stack = Some [4096], pool_buffer = 4096,
    buffer_size = 8, object_size = 8, object_count = 1\<rparr>,
    free_stack = \<lparr>stack = Some [4096 :: ptr], max_item_count = 1, stack_top = 1\<rparr>\<rparr>"
  have "pool_inv p" "length (pool_free p) = 1"
    by (simp_all add: p_def pool_inv_def pool_config_ok_def stack_inv_def stack_contents_def
        pool_blocks_def pool_block_def)
  then have "store_inv 64 [64 \<mapsto> p]" "1 \<le> length (store_free 64 [64 \<mapsto> p])"
    by (simp_all add: store_inv_def store_free_def)
  then show ?thesis
    using pool_interface_allocates_distinct [of 64 "[64 \<mapsto> p]" 1] unfolding p_def [symmetric] by blast
qed

text \<open>
  A configuration for no objects at all is accepted: initialisation reports \<open>ERR_NONE\<close> although
  the stack of free blocks has refused it, and leaves that stack as it found it.
\<close>

theorem static_pool_init_without_objects:
  assumes "pool_buffer cfg \<noteq> NULL" and "allocation_stack cfg = Some xs" and "object_count cfg = 0"
  shows "ptr_stack_init (Some (free_stack p)) (allocation_stack cfg) (object_count cfg)
      = Inr (ERR_INVALID_ARG, free_stack p)
    \<and> static_pool_init (Some p) (Some cfg) = Inr (ERR_NONE, p\<lparr>config := cfg\<rparr>)"
  using assms
  by (simp add: static_pool_init_def static_pool_validate_config_def ptr_stack_init_def
      fill_free_stack.simps)

theorem static_pool_init_without_objects_witness:
  "static_pool_init
      (Some \<lparr>config = \<lparr>allocation_stack = None, pool_buffer = 0, buffer_size = 0, object_size = 0,
              object_count = 0\<rparr>, free_stack = \<lparr>stack = Some [99], max_item_count = 1, stack_top = 1\<rparr>\<rparr>)
      (Some \<lparr>allocation_stack = Some [0], pool_buffer = 4096, buffer_size = 16, object_size = 8,
              object_count = 0\<rparr>)
    = Inr (ERR_NONE, \<lparr>config = \<lparr>allocation_stack = Some [0], pool_buffer = 4096, buffer_size = 16,
              object_size = 8, object_count = 0\<rparr>,
              free_stack = \<lparr>stack = Some [99], max_item_count = 1, stack_top = 1\<rparr>\<rparr>)"
  using static_pool_init_without_objects [of "\<lparr>allocation_stack = Some [0], pool_buffer = 4096,
      buffer_size = 16, object_size = 8, object_count = 0\<rparr>" "[0]"]
  by simp

text \<open>
  After \<open>static_pool_deinit\<close> the pool still reports every object as available, and refuses every
  allocation.
\<close>

theorem static_pool_deinit_count:
  "\<exists>p'. static_pool_deinit (Some p) = Inr p'
    \<and> static_pool_get_available_count (Some p') = Inr (object_count (config p))
    \<and> static_pool_allocate (Some p') (Some old) = Inr (ERR_NO_MEM, p', old)"
  by (simp add: static_pool_deinit_def ptr_stack_deinit_def static_pool_get_available_count_def
      ptr_stack_get_remaining_count_def static_pool_allocate_def ptr_stack_pop_def)

text \<open>
  Releasing does not check where a pointer comes from: with room on the free stack, any pointer
  that is not NULL is accepted with \<open>ERR_NONE\<close>, also one outside the buffer or one already free, and
  is then handed out as a block.
\<close>

theorem static_pool_accepts_foreign_pointer:
  assumes "pool_inv p" and "b \<noteq> NULL" and "length (pool_free p) < unat (object_count (config p))"
  shows "\<exists>p' p''. static_pool_deallocate (Some p) (Some b) = Inr (ERR_NONE, p', NULL)
    \<and> static_pool_allocate (Some p') (Some old) = Inr (ERR_NONE, p'', b)"
proof -
  have "stack_inv (free_stack p)" "length (pool_free p) < unat (max_item_count (free_stack p))"
    using assms pool_invD [OF assms(1)] by simp_all
  then obtain s s' where "ptr_stack_push (Some (free_stack p)) b = Inr (ERR_NONE, s)"
      "ptr_stack_pop (Some s) (Some NULL) = Inr (ERR_NONE, s', b)"
    using ps.push_pop [of "free_stack p" b NULL] by auto
  then show ?thesis using assms(2)
    by (simp add: static_pool_deallocate_def static_pool_allocate_def)
qed

theorem static_pool_accepts_foreign_pointer_witness:
  "\<exists>p' p''. static_pool_deallocate (Some \<lparr>config = \<lparr>allocation_stack = Some [4096], pool_buffer = 4096,
        buffer_size = 8, object_size = 8, object_count = 1\<rparr>,
        free_stack = \<lparr>stack = Some [4096], max_item_count = 1, stack_top = 0\<rparr>\<rparr>) (Some 12)
      = Inr (ERR_NONE, p', NULL)
    \<and> static_pool_allocate (Some p') (Some 0) = Inr (ERR_NONE, p'', 12)"
proof -
  define p where "p = \<lparr>config = \<lparr>allocation_stack = Some [4096], pool_buffer = 4096,
    buffer_size = 8, object_size = 8, object_count = 1\<rparr>,
    free_stack = \<lparr>stack = Some [4096 :: ptr], max_item_count = 1, stack_top = 0\<rparr>\<rparr>"
  have "pool_inv p" "length (pool_free p) < unat (object_count (config p))"
    by (simp_all add: p_def pool_inv_def pool_config_ok_def stack_inv_def stack_contents_def)
  then show ?thesis
    using static_pool_accepts_foreign_pointer [of p 12 0] unfolding p_def [symmetric] by simp
qed

end
