(* ===== verification/Pool_Client.thy ===== *)
theory Pool_Client
  imports Static_Pool "HOL-Library.Multiset"
begin

text \<open>
  A client of the allocator interface: any program of allocations and releases on its pointer variables.
  What the contract \<open>pool_allocator\<close> gives such a client is proved once, for every allocator, and used for
  the static pool behind its interface (\<open>src/mem_alloc/static_pool.c\<close>, \<open>src/mem_alloc/i_pool_allocator.c\<close>).

  The client touches its variables only through the calls. It may overwrite a pointer by an allocation
  into a variable that still holds a block: the block is then lost to it, and the account below keeps
  it apart.
\<close>

section \<open>The client\<close>

datatype pool_op = Allocate nat | Release nat

fun variable_of :: "pool_op \<Rightarrow> nat" where
  "variable_of (Allocate i) = i"
| "variable_of (Release i) = i"

definition owned :: "ptr list \<Rightarrow> ptr multiset" where
  "owned vs = {#p \<in># mset vs. p \<noteq> NULL#}"

text \<open>The pool, the variables, the blocks lost, and the codes returned so far.\<close>

record 's client =
  pool :: 's
  variables :: "ptr list"
  lost :: "ptr list"
  codes :: "ErrorCodes list"

fun client_step ::
    "('s \<Rightarrow> ptr \<Rightarrow> (ErrorCodes \<times> 's \<times> ptr) result) \<Rightarrow> ('s \<Rightarrow> ptr \<Rightarrow> (ErrorCodes \<times> 's \<times> ptr) result)
     \<Rightarrow> 's client \<Rightarrow> pool_op \<Rightarrow> 's client result" where
  "client_step alloc dealloc c (Allocate i) =
     (let old = variables c ! i in
      r_bind (alloc (pool c) old) (\<lambda>(e, s, p).
        Inr \<lparr>pool = s, variables = (variables c)[i := p],
             lost = lost c @ (if e = ERR_NONE \<and> old \<noteq> NULL then [old] else []),
             codes = codes c @ [e]\<rparr>))"
| "client_step alloc dealloc c (Release i) =
     r_bind (dealloc (pool c) (variables c ! i)) (\<lambda>(e, s, p).
       Inr \<lparr>pool = s, variables = (variables c)[i := p], lost = lost c, codes = codes c @ [e]\<rparr>)"

fun client_run ::
    "('s \<Rightarrow> ptr \<Rightarrow> (ErrorCodes \<times> 's \<times> ptr) result) \<Rightarrow> ('s \<Rightarrow> ptr \<Rightarrow> (ErrorCodes \<times> 's \<times> ptr) result)
     \<Rightarrow> 's client \<Rightarrow> pool_op list \<Rightarrow> 's client result" where
  "client_run alloc dealloc c [] = Inr c"
| "client_run alloc dealloc c (op # ops) =
     r_bind (client_step alloc dealloc c op) (\<lambda>c'. client_run alloc dealloc c' ops)"

section \<open>The account of the blocks\<close>

lemma owned_update:
  assumes "i < length vs"
  shows "owned (vs[i := p]) + (if vs ! i = NULL then {#} else {#vs ! i#})
    = owned vs + (if p = NULL then {#} else {#p#})"
proof -
  have "vs ! i \<in># mset vs" using assms by simp
  then have "mset (vs[i := p]) + {#vs ! i#} = mset vs + {#p#}"
    using assms by (simp add: mset_update)
  then have "filter_mset (\<lambda>p. p \<noteq> NULL) (mset (vs[i := p]) + {#vs ! i#})
      = filter_mset (\<lambda>p. p \<noteq> NULL) (mset vs + {#p#})" by (simp only:)
  then show ?thesis by (simp add: owned_def split: if_splits)
qed

lemma owned_nth: "i < length vs \<Longrightarrow> vs ! i \<noteq> NULL \<Longrightarrow> vs ! i \<in># owned vs"
  by (simp add: owned_def)

context pool_allocator
begin

text \<open>
  Every block of the allocator is free, in exactly one variable, or lost; so no block is in two variables,
  and none that the client holds is free.
\<close>

definition client_ok :: "ptr multiset \<Rightarrow> 's client \<Rightarrow> bool" where
  "client_ok M c \<longleftrightarrow> inv (pool c) \<and> mset (free (pool c)) + owned (variables c) + mset (lost c) = M
     \<and> set_mset M \<subseteq> blocks (pool c)"

lemma client_counts:
  assumes "client_ok M c" and "\<forall>b. count M b \<le> 1"
  shows "count (mset (free (pool c))) b + count (owned (variables c)) b \<le> 1"
  using assms by (auto simp: client_ok_def dest!: spec [of _ b])

lemma client_holds_block:
  assumes "client_ok M c" and "\<forall>b. count M b \<le> 1"
    and "i < length (variables c)" "variables c ! i \<noteq> NULL"
  shows "variables c ! i \<in> blocks (pool c) - set (free (pool c))"
proof -
  let ?b = "variables c ! i"
  have b: "?b \<in># owned (variables c)" by (rule owned_nth [OF assms(3,4)])
  then have "0 < count (owned (variables c)) ?b" by simp
  then have "count (mset (free (pool c))) ?b = 0"
    using client_counts [OF assms(1,2), of ?b] by linarith
  then have "?b \<notin> set (free (pool c))" by (simp add: count_mset_0_iff)
  moreover have "?b \<in># M" using b assms(1) by (auto simp: client_ok_def)
  ultimately show ?thesis using assms(1) by (auto simp: client_ok_def)
qed

lemma client_release_ok:
  assumes "client_ok M c" and "\<forall>b. count M b \<le> 1" and "i < length (variables c)"
  shows "\<exists>c'. client_step alloc dealloc c (Release i) = Inr c' \<and> client_ok M c'
    \<and> blocks (pool c') = blocks (pool c) \<and> length (variables c') = length (variables c)
    \<and> codes c' = codes c @ [if variables c ! i = NULL then ERR_OUT_OF_BOUNDS else ERR_NONE]
    \<and> (variables c ! i = NULL \<longrightarrow> pool c' = pool c) \<and> lost c' = lost c"
proof (cases "variables c ! i = NULL")
  case True
  then have "(variables c)[i := NULL] = variables c" by (metis list_update_id)
  then show ?thesis
    using dealloc_null [of "pool c"] assms(1) True by (simp add: client_ok_def)
next
  case False
  let ?b = "variables c ! i"
  have c: "inv (pool c)" "mset (free (pool c)) + owned (variables c) + mset (lost c) = M"
      "set_mset M \<subseteq> blocks (pool c)"
    using assms(1) by (simp_all add: client_ok_def)
  have "?b \<in> blocks (pool c) - set (free (pool c))"
    by (rule client_holds_block [OF assms False])
  then obtain s where s: "dealloc (pool c) ?b = Inr (ERR_NONE, s, NULL)" "inv s"
      "blocks s = blocks (pool c)" "free s = ?b # free (pool c)"
    using dealloc_block [OF c(1)] by blast
  have "owned (variables c) = add_mset ?b (owned ((variables c)[i := NULL]))"
    using owned_update [OF assms(3), of NULL] False by simp
  then show ?thesis using c s False by (simp add: client_ok_def)
qed

lemma client_allocate_ok:
  assumes "client_ok M c" and "i < length (variables c)"
  shows "\<exists>c'. client_step alloc dealloc c (Allocate i) = Inr c' \<and> client_ok M c'
    \<and> blocks (pool c') = blocks (pool c) \<and> length (variables c') = length (variables c)
    \<and> codes c' = codes c @ [if free (pool c) = [] then ERR_NO_MEM else ERR_NONE]"
proof -
  have c: "inv (pool c)" "mset (free (pool c)) + owned (variables c) + mset (lost c) = M"
      "set_mset M \<subseteq> blocks (pool c)"
    using assms(1) by (simp_all add: client_ok_def)
  show ?thesis
  proof (cases "free (pool c)")
    case Nil
    then show ?thesis
      using alloc_none [OF c(1) Nil, of "variables c ! i"] assms(1) by (simp add: client_ok_def)
  next
    case (Cons b bs)
    obtain s where s: "alloc (pool c) (variables c ! i) = Inr (ERR_NONE, s, b)" "inv s"
        "blocks s = blocks (pool c)" "free s = bs"
      using alloc_some [OF c(1) Cons] by blast
    have "b \<noteq> NULL"
      using free_blocks [OF c(1)] null_no_block [OF c(1)] Cons by auto
    then have "add_mset b (owned (variables c))
        = owned ((variables c)[i := b]) + (if variables c ! i = NULL then {#} else {#variables c ! i#})"
      using owned_update [OF assms(2), of b] by simp
    then show ?thesis
      using c s Cons by (auto simp: client_ok_def Let_def)
  qed
qed

lemma client_run_ok:
  assumes "client_ok M c" and "\<forall>b. count M b \<le> 1" and "\<forall>op \<in> set ops. variable_of op < length (variables c)"
  shows "\<exists>c'. client_run alloc dealloc c ops = Inr c' \<and> client_ok M c' \<and> blocks (pool c') = blocks (pool c)"
  using assms
proof (induction ops arbitrary: c)
  case (Cons op ops)
  obtain c1 where "client_step alloc dealloc c op = Inr c1" "client_ok M c1"
      "blocks (pool c1) = blocks (pool c)" "length (variables c1) = length (variables c)"
  proof (cases op)
    case (Allocate i)
    then show ?thesis using client_allocate_ok [OF Cons.prems(1), of i] Cons.prems(3) that by auto
  next
    case (Release i)
    then show ?thesis using client_release_ok [OF Cons.prems(1,2), of i] Cons.prems(3) that by auto
  qed
  then show ?case using Cons.IH [of c1] Cons.prems(2,3) by simp
qed simp

lemma client_distinct:
  assumes "client_ok M c" and "\<forall>b. count M b \<le> 1"
    and "i < length (variables c)" "j < length (variables c)" "i \<noteq> j" "variables c ! i \<noteq> NULL"
  shows "variables c ! i \<noteq> variables c ! j"
proof
  assume eq: "variables c ! i = variables c ! j"
  let ?vs = "variables c" and ?b = "variables c ! i"
  have "owned ?vs = owned (?vs[i := NULL]) + {#?b#}"
    using owned_update [OF assms(3), of NULL] assms(6) by simp
  moreover have "?b \<in># owned (?vs[i := NULL])"
    using owned_nth [of j "?vs[i := NULL]"] assms(3-6) eq by simp
  ultimately have "2 \<le> count (owned ?vs) ?b" by (simp add: Suc_le_eq)
  then show False using client_counts [OF assms(1,2), of ?b] by simp
qed

lemma client_available:
  assumes "client_ok M c"
  shows "\<exists>n. available (pool c) = Inr n \<and> unat n + size (owned (variables c)) + length (lost c) = size M"
  using assms available_eq [of "pool c"] by (auto simp: client_ok_def)

end

section \<open>Properties\<close>

text \<open>
  C7. Memory safety of a client of the interface: whatever allocations and releases it performs on its
  pointer variables, no call faults, every block it holds lies inside the pool's buffer, the blocks in
  two variables do not overlap, and the available count is the object count less the blocks it holds and
  the blocks whose pointer it has overwritten.
\<close>

theorem pool_client_memory_safe:
  assumes "pool_config_ok cfg" and "a \<noteq> NULL" and "m a = Some p0"
    and "static_pool_init (Some p0) (Some cfg) = Inr (ERR_NONE, p)"
    and "\<forall>op \<in> set ops. variable_of op < k"
  shows "\<exists>c. client_run
      (\<lambda>m obj. i_pool_allocator_allocate (Some (pool_interface a)) (Some obj) m)
      (\<lambda>m obj. i_pool_allocator_deallocate (Some (pool_interface a)) (Some obj) m)
      \<lparr>pool = m(a \<mapsto> p), variables = replicate k NULL, lost = [], codes = []\<rparr> ops = Inr c
    \<and> (\<forall>i < length (variables c). variables c ! i \<noteq> NULL \<longrightarrow>
         block_range cfg (variables c ! i) \<subseteq> buffer_range cfg)
    \<and> (\<forall>i < length (variables c). \<forall>j < length (variables c). i \<noteq> j \<longrightarrow>
         variables c ! i \<noteq> NULL \<longrightarrow> variables c ! j \<noteq> NULL \<longrightarrow>
         block_range cfg (variables c ! i) \<inter> block_range cfg (variables c ! j) = {})
    \<and> (\<exists>n. i_pool_allocator_get_available_count (Some (pool_interface a)) (pool c) = Inr n
         \<and> unat n + size (owned (variables c)) + length (lost c) = unat (object_count cfg))"
proof -
  let ?c0 = "\<lparr>pool = m(a \<mapsto> p), variables = replicate k NULL, lost = [], codes = []\<rparr>"
  let ?M = "mset (pool_blocks cfg)"
  have p: "pool_inv p" "config p = cfg" "pool_free p = rev (pool_blocks cfg)"
    using static_pool_init_state [OF assms(1), of p0] assms(4) by auto
  have ok: "ip.client_ok a ?M ?c0"
    using p assms(2) by (simp add: ip.client_ok_def store_inv_def store_free_def store_blocks_def owned_def)
  have one: "\<forall>b. count ?M b \<le> 1"
    using distinct_pool_blocks [OF assms(1)] by (simp add: distinct_count_atmost_1)
  obtain c where c: "client_run
      (\<lambda>m obj. i_pool_allocator_allocate (Some (pool_interface a)) (Some obj) m)
      (\<lambda>m obj. i_pool_allocator_deallocate (Some (pool_interface a)) (Some obj) m) ?c0 ops = Inr c"
      "ip.client_ok a ?M c" "store_blocks a (pool c) = set (pool_blocks cfg)"
    using ip.client_run_ok [OF ok one, of ops] assms(5) p(2) by (auto simp: store_blocks_def)
  note blocks = ip.client_holds_block [OF c(2) one] ip.client_distinct [OF c(2) one]
    ip.client_available [OF c(2)]
  have "block_range cfg (variables c ! i) \<subseteq> buffer_range cfg"
    if "i < length (variables c)" "variables c ! i \<noteq> NULL" for i
    using blocks(1) [OF that] c(3) by (intro block_range_inside [OF assms(1)]) auto
  moreover have "block_range cfg (variables c ! i) \<inter> block_range cfg (variables c ! j) = {}"
    if "i < length (variables c)" "j < length (variables c)" "i \<noteq> j" "variables c ! i \<noteq> NULL"
      "variables c ! j \<noteq> NULL" for i j
    using blocks(1) [OF that(1,4)] blocks(1) [OF that(2,5)] blocks(2) [OF that(1-4)] c(3)
    by (intro block_ranges_disjoint [OF assms(1)]) auto
  ultimately show ?thesis using c(1) blocks(3) by simp
qed

theorem pool_client_memory_safe_witness:
  "\<exists>p c n. static_pool_init
      (Some \<lparr>config = \<lparr>allocation_stack = None, pool_buffer = 0, buffer_size = 0, object_size = 0,
              object_count = 0\<rparr>, free_stack = \<lparr>stack = None, max_item_count = 0, stack_top = 0\<rparr>\<rparr>)
      (Some \<lparr>allocation_stack = Some [0, 0], pool_buffer = 4096, buffer_size = 16, object_size = 8,
              object_count = 2\<rparr>) = Inr (ERR_NONE, p)
    \<and> client_run
        (\<lambda>m obj. i_pool_allocator_allocate (Some (pool_interface 64)) (Some obj) m)
        (\<lambda>m obj. i_pool_allocator_deallocate (Some (pool_interface 64)) (Some obj) m)
        \<lparr>pool = [64 \<mapsto> p], variables = [NULL, NULL], lost = [], codes = []\<rparr>
        [Allocate 0, Allocate 1, Allocate 0, Release 0, Release 0, Allocate 1] = Inr c
    \<and> i_pool_allocator_get_available_count (Some (pool_interface 64)) (pool c) = Inr n
    \<and> unat n + size (owned (variables c)) + length (lost c) = 2"
proof -
  define cfg where "cfg = \<lparr>allocation_stack = Some [0, 0], pool_buffer = 4096, buffer_size = 16,
    object_size = 8, object_count = 2\<rparr>"
  define junk where "junk = \<lparr>config = \<lparr>allocation_stack = None, pool_buffer = 0, buffer_size = 0,
    object_size = 0, object_count = 0\<rparr>, free_stack = \<lparr>stack = None, max_item_count = 0, stack_top = 0\<rparr>\<rparr>"
  have ok: "pool_config_ok cfg" and n: "unat (object_count cfg) = 2"
    by (simp_all add: cfg_def pool_config_ok_def)
  obtain p where p: "static_pool_init (Some junk) (Some cfg) = Inr (ERR_NONE, p)"
    using static_pool_init_state [OF ok] by blast
  let ?ops = "[Allocate 0, Allocate 1, Allocate 0, Release 0, Release 0, Allocate 1]"
  have ops: "\<forall>op \<in> set ?ops. variable_of op < 2" by simp
  have nz: "(64 :: ptr) \<noteq> NULL" and at: "[(64 :: ptr) \<mapsto> junk] 64 = Some junk" by simp_all
  have vars: "replicate 2 NULL = [NULL, NULL]" by (simp add: numeral_2_eq_2)
  show ?thesis
    using pool_client_memory_safe [where m = "[64 \<mapsto> junk]", OF ok nz at p ops] p
    unfolding n vars fun_upd_upd cfg_def [symmetric] junk_def [symmetric] by blast
qed

end
