(* ===== verification/Byte_Codec.thy ===== *)
theory Byte_Codec
  imports Prelude
begin

text \<open>
  The contract of a writer and a reader of fixed-width elements in a byte buffer: what is
  written at an offset is read back from it, nothing else of the buffer changes, and neither
  touches a buffer that is too short. The lemmas of the locale are about any such pair; the
  little-endian routines are its interpretations.
\<close>

type_synonym buffer = "uint8_t list option"

section \<open>Overwriting a part of a list\<close>

definition splice :: "nat \<Rightarrow> 'a list \<Rightarrow> 'a list \<Rightarrow> 'a list" where
  "splice k bs xs = take k xs @ bs @ drop (k + length bs) xs"

lemma length_splice [simp]: "k + length bs \<le> length xs \<Longrightarrow> length (splice k bs xs) = length xs"
  by (simp add: splice_def)

lemma splice_Nil [simp]: "splice k [] xs = xs"
  by (simp add: splice_def)

lemma splice_Cons:
  assumes "k < length xs"
  shows "splice k (b # bs) xs = splice (Suc k) bs (xs[k := b])"
  using assms by (simp add: splice_def take_Suc_conv_app_nth)

lemma splice_append:
  assumes "k + length (as @ bs) \<le> length xs"
  shows "splice (k + length as) bs (splice k as xs) = splice k (as @ bs) xs"
  using assms by (auto simp: splice_def ac_simps min_def)

lemma nth_splice:
  assumes "k + length bs \<le> length xs" "i < length xs"
  shows "splice k bs xs ! i = (if k \<le> i \<and> i < k + length bs then bs ! (i - k) else xs ! i)"
  using assms by (auto simp: splice_def nth_append min_def)

lemma take_drop_splice [simp]:
  "k + length bs \<le> length xs \<Longrightarrow> take (length bs) (drop k (splice k bs xs)) = bs"
  by (simp add: splice_def)

lemma take_drop_splice_disjoint:
  assumes "k + length bs \<le> length xs" "j + n \<le> length xs" "j + n \<le> k \<or> k + length bs \<le> j"
  shows "take n (drop j (splice k bs xs)) = take n (drop j xs)"
  using assms by (intro nth_equalityI) (auto simp: nth_splice)

section \<open>Little-endian bytes of a word\<close>

primrec le_bytes :: "nat \<Rightarrow> 'a::len word \<Rightarrow> uint8_t list" where
  "le_bytes 0 w = []"
| "le_bytes (Suc n) w = ucast w # le_bytes n (drop_bit 8 w)"

primrec le_word :: "uint8_t list \<Rightarrow> 'a::len word" where
  "le_word [] = 0"
| "le_word (b # bs) = ucast b + push_bit 8 (le_word bs)"

lemma length_le_bytes [simp]: "length (le_bytes n w) = n"
  by (induction n arbitrary: w) auto

lemma take_bit_byte_split:
  fixes w :: "'a::len word"
  shows "take_bit 8 w + push_bit 8 (take_bit n (drop_bit 8 w)) = take_bit (8 + n) w"
proof -
  have "take_bit 8 w + push_bit 8 (take_bit n (drop_bit 8 w))
      = take_bit 8 w OR push_bit 8 (take_bit n (drop_bit 8 w))"
    by (rule disjunctive_add_eq_or) (auto simp: bit_eq_iff bit_simps)
  also have "\<dots> = take_bit (8 + n) w"
    by (rule bit_eqI) (auto simp: bit_simps)
  finally show ?thesis .
qed

lemma le_word_le_bytes: "le_word (le_bytes n w) = take_bit (8 * n) (w :: 'a::len word)"
proof (induction n arbitrary: w)
  case (Suc n)
  have "(ucast (ucast w :: uint8_t) :: 'a word) = take_bit 8 w"
    by (rule bit_eqI) (auto simp: bit_simps)
  then show ?case using take_bit_byte_split [of w "8 * n"] by (simp add: Suc)
qed simp

lemma le_word_round:
  "8 * n = LENGTH('a) \<Longrightarrow> le_word (le_bytes n w) = (w :: 'a::len word)"
  by (simp add: le_word_le_bytes)

lemma uint_le_word:
  assumes "8 * length bs \<le> LENGTH('a)"
  shows "uint (le_word bs :: 'a::len word) < 2 ^ (8 * length bs)"
  using assms
proof (induction bs)
  case (Cons b bs)
  define m where "m = 8 * length bs"
  have IH: "uint (le_word bs :: 'a word) < 2 ^ m" using Cons by (simp add: m_def)
  have le: "(2::int) ^ (8 + m) \<le> 2 ^ LENGTH('a)"
    using Cons.prems by (intro power_increasing) (simp_all add: m_def)
  have b: "uint (ucast b :: 'a word) = uint b"
    using Cons.prems uint_lt2p [of b] power_increasing [of 8 "LENGTH('a)" "2 :: int"]
    by (simp add: unsigned_ucast_eq take_bit_int_eq_self)
  have "uint b + 256 * uint (le_word bs :: 'a word) < 2 ^ (8 + m)"
    using IH uint_lt2p [of b] by (simp add: power_add)
  moreover have "uint (push_bit 8 (le_word bs) :: 'a word) = 256 * uint (le_word bs :: 'a word)"
    using IH le unfolding unsigned_push_bit_eq
    by (simp add: push_bit_eq_mult take_bit_eq_mod power_add)
  ultimately show ?case
    using le by (simp add: uint_word_ariths b m_def power_add)
qed simp

lemma le_word_snoc:
  "le_word (bs @ [d]) = le_word bs + push_bit (8 * length bs) (ucast d)"
  by (induction bs) (simp_all add: push_bit_add add.assoc)

section \<open>The contract\<close>

text \<open>
  What every writer of \<open>n\<close> bytes promises: an element that fits is stored in exactly its bytes and
  \<open>n\<close> is returned; for one that does not fit, 0 is returned and no pointer is followed.
\<close>

definition writes_only ::
    "('v option \<Rightarrow> size_t \<Rightarrow> buffer \<Rightarrow> size_t \<Rightarrow> (size_t \<times> buffer) result) \<Rightarrow> nat \<Rightarrow> bool" where
  "writes_only pk n \<longleftrightarrow>
     (\<forall>v offset xs data_len. unat offset + n \<le> unat data_len \<longrightarrow> unat data_len \<le> length xs \<longrightarrow>
        (\<exists>k ys. pk (Some v) offset (Some xs) data_len = Inr (k, Some ys) \<and> unat k = n
           \<and> length ys = length xs
           \<and> (\<forall>i < length xs. i < unat offset \<or> unat offset + n \<le> i \<longrightarrow> ys ! i = xs ! i)))
     \<and> (\<forall>e offset data data_len. unat data_len < unat offset + n \<longrightarrow>
          pk e offset data data_len = Inr (0, data))"

locale codec =
  fixes pack :: "'v option \<Rightarrow> size_t \<Rightarrow> buffer \<Rightarrow> size_t \<Rightarrow> (size_t \<times> buffer) result"
    and unpack :: "'v option \<Rightarrow> size_t \<Rightarrow> buffer \<Rightarrow> size_t \<Rightarrow> (size_t \<times> 'v option) result"
    and width :: size_t
    and enc :: "'v \<Rightarrow> uint8_t list"
    and dec :: "uint8_t list \<Rightarrow> 'v"
  assumes width_pos: "0 < unat width"
    and enc_length: "length (enc v) = unat width"
    and dec_enc: "dec (enc v) = v"
    and pack_fits: "unat offset + unat width \<le> unat data_len \<Longrightarrow> unat data_len \<le> length xs \<Longrightarrow>
      pack (Some v) offset (Some xs) data_len
        = Inr (width, Some (splice (unat offset) (enc v) xs))"
    and pack_short: "unat data_len < unat offset + unat width \<Longrightarrow>
      pack e offset data data_len = Inr (0, data)"
    and unpack_fits: "unat offset + unat width \<le> unat data_len \<Longrightarrow> unat data_len \<le> length xs \<Longrightarrow>
      unpack (Some old) offset (Some xs) data_len
        = Inr (width, Some (dec (take (unat width) (drop (unat offset) xs))))"
    and unpack_short: "unat data_len < unat offset + unat width \<Longrightarrow>
      unpack e' offset data data_len = Inr (0, e')"
begin

lemma round_trip:
  assumes "unat offset + unat width \<le> unat data_len" "unat data_len \<le> length xs"
    and "pack (Some v) offset (Some xs) data_len = Inr (n, data)"
  shows "n = width \<and> unpack (Some old) offset data data_len = Inr (width, Some v)"
  using assms enc_length [of v] take_drop_splice [of "unat offset" "enc v" xs]
  by (auto simp: pack_fits unpack_fits dec_enc)

lemma pack_writes_only: "writes_only pack (unat width)"
  unfolding writes_only_def
  by (auto simp: pack_fits pack_short nth_splice enc_length)

end

text \<open>
  Elements one after another, the way a caller packs an array: the offset advances by what each
  call returns.
\<close>

fun pack_all ::
    "('v option \<Rightarrow> size_t \<Rightarrow> buffer \<Rightarrow> size_t \<Rightarrow> (size_t \<times> buffer) result)
      \<Rightarrow> 'v list \<Rightarrow> size_t \<Rightarrow> buffer \<Rightarrow> size_t \<Rightarrow> buffer result" where
  "pack_all pk [] offset data data_len = Inr data"
| "pack_all pk (v # vs) offset data data_len =
     r_bind (pk (Some v) offset data data_len) (\<lambda>(n, data).
     pack_all pk vs (offset + n) data data_len)"

fun unpack_all ::
    "('v option \<Rightarrow> size_t \<Rightarrow> buffer \<Rightarrow> size_t \<Rightarrow> (size_t \<times> 'v option) result)
      \<Rightarrow> 'v \<Rightarrow> nat \<Rightarrow> size_t \<Rightarrow> buffer \<Rightarrow> size_t \<Rightarrow> 'v list result" where
  "unpack_all up old 0 offset data data_len = Inr []"
| "unpack_all up old (Suc k) offset data data_len =
     r_bind (up (Some old) offset data data_len) (\<lambda>(n, e).
     r_bind (deref e) (\<lambda>v.
     r_bind (unpack_all up old k (offset + n) data data_len) (\<lambda>vs.
     Inr (v # vs))))"

context codec
begin

lemma unat_advance:
  fixes data_len :: size_t
  assumes "unat offset + unat width \<le> unat data_len"
  shows "unat (offset + width) = unat offset + unat width"
  using assms unat_size_lt [of data_len]
  by (intro unat_add_lem [THEN iffD1]) (simp del: unat_size_lt)

lemma pack_all_splice:
  assumes "unat offset + length vs * unat width \<le> unat data_len" "unat data_len \<le> length xs"
  shows "pack_all pack vs offset (Some xs) data_len
    = Inr (Some (splice (unat offset) (concat (map enc vs)) xs))"
  using assms
proof (induction vs arbitrary: offset xs)
  case (Cons v vs)
  have fits: "unat offset + unat width \<le> unat data_len" using Cons.prems by simp
  have "length (concat (map enc vs)) = length vs * unat width"
    by (induction vs) (simp_all add: enc_length)
  then have len: "unat offset + length (enc v @ concat (map enc vs)) \<le> length xs"
    using Cons.prems by (simp add: enc_length)
  have "pack_all pack vs (offset + width) (Some (splice (unat offset) (enc v) xs)) data_len
      = Inr (Some (splice (unat (offset + width)) (concat (map enc vs))
          (splice (unat offset) (enc v) xs)))"
    using Cons.prems len by (intro Cons.IH) (simp_all add: unat_advance [OF fits])
  then show ?case
    using Cons.prems fits splice_append [OF len]
    by (simp add: pack_fits unat_advance enc_length)
qed simp

lemma unpack_all_eq:
  assumes "unat offset + length vs * unat width \<le> unat data_len" "unat data_len \<le> length xs"
    and "take (length vs * unat width) (drop (unat offset) xs) = concat (map enc vs)"
  shows "unpack_all unpack old (length vs) offset (Some xs) data_len = Inr vs"
  using assms
proof (induction vs arbitrary: offset)
  case (Cons v vs)
  have fits: "unat offset + unat width \<le> unat data_len" using Cons.prems by simp
  define ys where "ys = drop (unat offset) xs"
  have ys: "take (unat width + length vs * unat width) ys = enc v @ concat (map enc vs)"
    using Cons.prems(3) by (simp add: ys_def)
  have "take (unat width) ys = take (unat width) (take (unat width + length vs * unat width) ys)"
    by (simp add: min_def)
  then have v: "take (unat width) ys = enc v" by (simp add: ys enc_length)
  have "take (length vs * unat width) (drop (unat width) ys)
      = drop (unat width) (take (unat width + length vs * unat width) ys)"
    by (simp add: take_drop add.commute)
  then have vs: "take (length vs * unat width) (drop (unat width) ys) = concat (map enc vs)"
    by (simp add: ys enc_length)
  have "unpack_all unpack old (length vs) (offset + width) (Some xs) data_len = Inr vs"
    using Cons.prems vs by (intro Cons.IH) (simp_all add: unat_advance [OF fits] ys_def add.commute)
  then show ?case
    using Cons.prems fits v by (simp add: unpack_fits ys_def dec_enc)
qed simp

lemma all_round_trip:
  assumes "unat offset + length vs * unat width \<le> unat data_len" "unat data_len \<le> length xs"
  shows "r_bind (pack_all pack vs offset (Some xs) data_len) (\<lambda>data.
      unpack_all unpack old (length vs) offset data data_len) = Inr vs"
proof -
  have len: "length (concat (map enc vs)) = length vs * unat width"
    by (induction vs) (simp_all add: enc_length)
  then show ?thesis
    using assms take_drop_splice [of "unat offset" "concat (map enc vs)" xs]
    by (auto simp: pack_all_splice intro!: unpack_all_eq)
qed

end

end
