(* ===== verification/Le_Pack.thy ===== *)
theory Le_Pack
  imports Byte_Codec
begin

text \<open>
  The serialisation of \<open>src/struct_pack/pack.c\<close> and \<open>src/struct_pack/le_pack.c\<close>: the bounds check
  that also covers the wrap of the end offset, and a little-endian writer and reader for raw
  bytes, booleans and the eight integer types. The codec locale states what a pair of a
  writer and a reader promises; it is interpreted for every pair of the file.
\<close>

section \<open>Language: signed shifts and additions\<close>

text \<open>
  Integer promotion turns operands narrower than \<open>int\<close> into 32-bit signed values. A right
  shift of a signed value is arithmetic and a conversion to a narrower signed type keeps
  the low bits (both as gcc defines them). ISO C leaves a left shift undefined when the operand
  is negative or the result is not representable; GNU C defines it as the shift of the bits.
\<close>

datatype dialect = ISO_C | GNU_C

type_synonym int8_t = "8 word"
type_synonym int16_t = "16 word"
type_synonym int32_t = "32 word"
type_synonym int64_t = "64 word"

definition shl_signed :: "dialect \<Rightarrow> 'a::len word \<Rightarrow> nat \<Rightarrow> 'a word result" where
  "shl_signed d x k =
     (if d = ISO_C \<and> (sint x < 0 \<or> 2 ^ (LENGTH('a) - 1) \<le> sint x * 2 ^ k)
      then Inl Signed_overflow else Inr (push_bit k x))"

definition add_signed :: "'a::len word \<Rightarrow> 'a word \<Rightarrow> 'a word result" where
  "add_signed x y =
     (if - (2 ^ (LENGTH('a) - 1)) \<le> sint x + sint y \<and> sint x + sint y < 2 ^ (LENGTH('a) - 1)
      then Inr (x + y) else Inl Signed_overflow)"

section \<open>Model\<close>

definition PACK_SIZE_UINT64_T :: size_t where "PACK_SIZE_UINT64_T = 8"
definition PACK_SIZE_UINT32_T :: size_t where "PACK_SIZE_UINT32_T = 4"
definition PACK_SIZE_UINT16_T :: size_t where "PACK_SIZE_UINT16_T = 2"
definition PACK_SIZE_UINT8_T :: size_t where "PACK_SIZE_UINT8_T = 1"
definition PACK_SIZE_INT32_T :: size_t where "PACK_SIZE_INT32_T = 4"
definition PACK_SIZE_INT64_T :: size_t where "PACK_SIZE_INT64_T = 8"
definition PACK_SIZE_INT16_T :: size_t where "PACK_SIZE_INT16_T = 2"
definition PACK_SIZE_INT8_T :: size_t where "PACK_SIZE_INT8_T = 1"
definition PACK_SIZE_BOOL :: size_t where "PACK_SIZE_BOOL = 1"

lemmas pack_sizes = PACK_SIZE_UINT64_T_def PACK_SIZE_UINT32_T_def PACK_SIZE_UINT16_T_def
  PACK_SIZE_UINT8_T_def PACK_SIZE_INT32_T_def PACK_SIZE_INT64_T_def PACK_SIZE_INT16_T_def
  PACK_SIZE_INT8_T_def PACK_SIZE_BOOL_def

definition pack_is_within_buffer :: "size_t \<Rightarrow> size_t \<Rightarrow> size_t \<Rightarrow> bool" where
  "pack_is_within_buffer offset req_size data_len =
     (let required_index = offset + req_size
      in if required_index < offset then False else required_index \<le> data_len)"

text \<open>
  A writer gives the number of bytes and the buffer after the call; a reader the number of
  bytes and what its out-pointer points to after the call.
\<close>

definition le_pack_raw ::
    "buffer \<Rightarrow> size_t \<Rightarrow> size_t \<Rightarrow> buffer \<Rightarrow> size_t \<Rightarrow> (size_t \<times> buffer) result" where
  "le_pack_raw raw_data raw_data_size offset data data_len =
     (if pack_is_within_buffer offset raw_data_size data_len \<and> raw_data_size > 0 then
        r_bind (mem_copy data offset raw_data 0 raw_data_size) (\<lambda>data.
        Inr (raw_data_size, data))
      else Inr (0, data))"

definition le_unpack_raw ::
    "buffer \<Rightarrow> size_t \<Rightarrow> size_t \<Rightarrow> buffer \<Rightarrow> size_t \<Rightarrow> (size_t \<times> buffer) result" where
  "le_unpack_raw raw_data raw_data_size offset data data_len =
     (if pack_is_within_buffer offset raw_data_size data_len \<and> raw_data_size > 0 then
        r_bind (mem_copy raw_data 0 data offset raw_data_size) (\<lambda>raw_data.
        Inr (raw_data_size, raw_data))
      else Inr (0, raw_data))"

definition le_pack_bool ::
    "bool option \<Rightarrow> size_t \<Rightarrow> buffer \<Rightarrow> size_t \<Rightarrow> (size_t \<times> buffer) result" where
  "le_pack_bool element offset data data_len =
     (if pack_is_within_buffer offset PACK_SIZE_BOOL data_len then
        r_bind (deref element) (\<lambda>e.
        let v = (if e then 1 else 0 :: uint8_t) in
        r_bind (arr_set data (offset + 0) (ucast (drop_bit 0 (ucast v :: int32_t) AND 0xFF))) (\<lambda>data.
        Inr (PACK_SIZE_BOOL, data)))
      else Inr (0, data))"

definition le_unpack_bool ::
    "bool option \<Rightarrow> size_t \<Rightarrow> buffer \<Rightarrow> size_t \<Rightarrow> (size_t \<times> bool option) result" where
  "le_unpack_bool element offset data data_len =
     (if pack_is_within_buffer offset PACK_SIZE_BOOL data_len then
        r_bind (arr_get data (offset + 0)) (\<lambda>d0.
        r_bind (deref element) (\<lambda>_.
        Inr (PACK_SIZE_BOOL, Some ((ucast (push_bit 0 (ucast d0 :: int32_t)) :: uint8_t) = 1))))
      else Inr (0, element))"

definition le_pack_u8 ::
    "uint8_t option \<Rightarrow> size_t \<Rightarrow> buffer \<Rightarrow> size_t \<Rightarrow> (size_t \<times> buffer) result" where
  "le_pack_u8 element offset data data_len =
     (if pack_is_within_buffer offset PACK_SIZE_UINT8_T data_len then
        r_bind (deref element) (\<lambda>e. let e = ucast e :: int32_t in
        r_bind (arr_set data (offset + 0) (ucast (drop_bit 0 e AND 0xFF))) (\<lambda>data.
        Inr (PACK_SIZE_UINT8_T, data)))
      else Inr (0, data))"

definition le_unpack_u8 ::
    "uint8_t option \<Rightarrow> size_t \<Rightarrow> buffer \<Rightarrow> size_t \<Rightarrow> (size_t \<times> uint8_t option) result" where
  "le_unpack_u8 element offset data data_len =
     (if pack_is_within_buffer offset PACK_SIZE_UINT8_T data_len then
        r_bind (arr_get data (offset + 0)) (\<lambda>d0.
        r_bind (deref element) (\<lambda>_.
        Inr (PACK_SIZE_UINT8_T, Some (ucast (
          push_bit 0 (ucast d0 :: int32_t))))))
      else Inr (0, element))"

definition le_pack_u16 ::
    "uint16_t option \<Rightarrow> size_t \<Rightarrow> buffer \<Rightarrow> size_t \<Rightarrow> (size_t \<times> buffer) result" where
  "le_pack_u16 element offset data data_len =
     (if pack_is_within_buffer offset PACK_SIZE_UINT16_T data_len then
        r_bind (deref element) (\<lambda>e. let e = ucast e :: int32_t in
        r_bind (arr_set data (offset + 0) (ucast (drop_bit 0 e AND 0xFF))) (\<lambda>data.
        r_bind (arr_set data (offset + 1) (ucast (drop_bit 8 e AND 0xFF))) (\<lambda>data.
        Inr (PACK_SIZE_UINT16_T, data))))
      else Inr (0, data))"

definition le_unpack_u16 ::
    "uint16_t option \<Rightarrow> size_t \<Rightarrow> buffer \<Rightarrow> size_t \<Rightarrow> (size_t \<times> uint16_t option) result" where
  "le_unpack_u16 element offset data data_len =
     (if pack_is_within_buffer offset PACK_SIZE_UINT16_T data_len then
        r_bind (arr_get data (offset + 0)) (\<lambda>d0.
        r_bind (arr_get data (offset + 1)) (\<lambda>d1.
        r_bind (deref element) (\<lambda>_.
        Inr (PACK_SIZE_UINT16_T, Some (ucast (
          push_bit 0 (ucast d0 :: int32_t) +
          push_bit 8 (ucast d1 :: int32_t)))))))
      else Inr (0, element))"

definition le_pack_u32 ::
    "uint32_t option \<Rightarrow> size_t \<Rightarrow> buffer \<Rightarrow> size_t \<Rightarrow> (size_t \<times> buffer) result" where
  "le_pack_u32 element offset data data_len =
     (if pack_is_within_buffer offset PACK_SIZE_UINT32_T data_len then
        r_bind (deref element) (\<lambda>e.
        r_bind (arr_set data (offset + 0) (ucast (drop_bit 0 e AND 0xFF))) (\<lambda>data.
        r_bind (arr_set data (offset + 1) (ucast (drop_bit 8 e AND 0xFF))) (\<lambda>data.
        r_bind (arr_set data (offset + 2) (ucast (drop_bit 16 e AND 0xFF))) (\<lambda>data.
        r_bind (arr_set data (offset + 3) (ucast (drop_bit 24 e AND 0xFF))) (\<lambda>data.
        Inr (PACK_SIZE_UINT32_T, data))))))
      else Inr (0, data))"

definition le_unpack_u32 ::
    "uint32_t option \<Rightarrow> size_t \<Rightarrow> buffer \<Rightarrow> size_t \<Rightarrow> (size_t \<times> uint32_t option) result" where
  "le_unpack_u32 element offset data data_len =
     (if pack_is_within_buffer offset PACK_SIZE_UINT32_T data_len then
        r_bind (arr_get data (offset + 0)) (\<lambda>d0.
        r_bind (arr_get data (offset + 1)) (\<lambda>d1.
        r_bind (arr_get data (offset + 2)) (\<lambda>d2.
        r_bind (arr_get data (offset + 3)) (\<lambda>d3.
        r_bind (deref element) (\<lambda>_.
        Inr (PACK_SIZE_UINT32_T, Some (
          push_bit 0 (ucast d0 :: uint32_t) +
          push_bit 8 (ucast d1 :: uint32_t) +
          push_bit 16 (ucast d2 :: uint32_t) +
          push_bit 24 (ucast d3 :: uint32_t))))))))
      else Inr (0, element))"

definition le_pack_u64 ::
    "uint64_t option \<Rightarrow> size_t \<Rightarrow> buffer \<Rightarrow> size_t \<Rightarrow> (size_t \<times> buffer) result" where
  "le_pack_u64 element offset data data_len =
     (if pack_is_within_buffer offset PACK_SIZE_UINT64_T data_len then
        r_bind (deref element) (\<lambda>e.
        r_bind (arr_set data (offset + 0) (ucast (drop_bit 0 e AND 0xFF))) (\<lambda>data.
        r_bind (arr_set data (offset + 1) (ucast (drop_bit 8 e AND 0xFF))) (\<lambda>data.
        r_bind (arr_set data (offset + 2) (ucast (drop_bit 16 e AND 0xFF))) (\<lambda>data.
        r_bind (arr_set data (offset + 3) (ucast (drop_bit 24 e AND 0xFF))) (\<lambda>data.
        r_bind (arr_set data (offset + 4) (ucast (drop_bit 32 e AND 0xFF))) (\<lambda>data.
        r_bind (arr_set data (offset + 5) (ucast (drop_bit 40 e AND 0xFF))) (\<lambda>data.
        r_bind (arr_set data (offset + 6) (ucast (drop_bit 48 e AND 0xFF))) (\<lambda>data.
        r_bind (arr_set data (offset + 7) (ucast (drop_bit 56 e AND 0xFF))) (\<lambda>data.
        Inr (PACK_SIZE_UINT64_T, data))))))))))
      else Inr (0, data))"

definition le_unpack_u64 ::
    "uint64_t option \<Rightarrow> size_t \<Rightarrow> buffer \<Rightarrow> size_t \<Rightarrow> (size_t \<times> uint64_t option) result" where
  "le_unpack_u64 element offset data data_len =
     (if pack_is_within_buffer offset PACK_SIZE_UINT64_T data_len then
        r_bind (arr_get data (offset + 0)) (\<lambda>d0.
        r_bind (arr_get data (offset + 1)) (\<lambda>d1.
        r_bind (arr_get data (offset + 2)) (\<lambda>d2.
        r_bind (arr_get data (offset + 3)) (\<lambda>d3.
        r_bind (arr_get data (offset + 4)) (\<lambda>d4.
        r_bind (arr_get data (offset + 5)) (\<lambda>d5.
        r_bind (arr_get data (offset + 6)) (\<lambda>d6.
        r_bind (arr_get data (offset + 7)) (\<lambda>d7.
        r_bind (deref element) (\<lambda>_.
        Inr (PACK_SIZE_UINT64_T, Some (
          push_bit 0 (ucast d0 :: uint64_t) +
          push_bit 8 (ucast d1 :: uint64_t) +
          push_bit 16 (ucast d2 :: uint64_t) +
          push_bit 24 (ucast d3 :: uint64_t) +
          push_bit 32 (ucast d4 :: uint64_t) +
          push_bit 40 (ucast d5 :: uint64_t) +
          push_bit 48 (ucast d6 :: uint64_t) +
          push_bit 56 (ucast d7 :: uint64_t))))))))))))
      else Inr (0, element))"

definition le_pack_s8 ::
    "int8_t option \<Rightarrow> size_t \<Rightarrow> buffer \<Rightarrow> size_t \<Rightarrow> (size_t \<times> buffer) result" where
  "le_pack_s8 element offset data data_len =
     (if pack_is_within_buffer offset PACK_SIZE_INT8_T data_len then
        r_bind (deref element) (\<lambda>e. let e = scast e :: int32_t in
        r_bind (arr_set data (offset + 0) (ucast (signed_drop_bit 0 e AND 0xFF))) (\<lambda>data.
        Inr (PACK_SIZE_INT8_T, data)))
      else Inr (0, data))"

definition le_unpack_s8 ::
    "dialect \<Rightarrow> int8_t option \<Rightarrow> size_t \<Rightarrow> buffer \<Rightarrow> size_t \<Rightarrow> (size_t \<times> int8_t option) result" where
  "le_unpack_s8 d element offset data data_len =
     (if pack_is_within_buffer offset PACK_SIZE_INT8_T data_len then
        r_bind (arr_get data (offset + 0)) (\<lambda>d0.
        r_bind (shl_signed d (scast (d0 :: int8_t) :: int32_t) 0) (\<lambda>t0.
        r_bind (deref element) (\<lambda>_.
        Inr (PACK_SIZE_INT8_T, Some (ucast t0)))))
      else Inr (0, element))"

definition le_pack_s16 ::
    "int16_t option \<Rightarrow> size_t \<Rightarrow> buffer \<Rightarrow> size_t \<Rightarrow> (size_t \<times> buffer) result" where
  "le_pack_s16 element offset data data_len =
     (if pack_is_within_buffer offset PACK_SIZE_INT16_T data_len then
        r_bind (deref element) (\<lambda>e. let e = scast e :: int32_t in
        r_bind (arr_set data (offset + 0) (ucast (signed_drop_bit 0 e AND 0xFF))) (\<lambda>data.
        r_bind (arr_set data (offset + 1) (ucast (signed_drop_bit 8 e AND 0xFF))) (\<lambda>data.
        Inr (PACK_SIZE_INT16_T, data))))
      else Inr (0, data))"

definition le_unpack_s16 ::
    "dialect \<Rightarrow> int16_t option \<Rightarrow> size_t \<Rightarrow> buffer \<Rightarrow> size_t \<Rightarrow> (size_t \<times> int16_t option) result" where
  "le_unpack_s16 d element offset data data_len =
     (if pack_is_within_buffer offset PACK_SIZE_INT16_T data_len then
        r_bind (arr_get data (offset + 0)) (\<lambda>d0.
        r_bind (arr_get data (offset + 1)) (\<lambda>d1.
        r_bind (shl_signed d (scast (ucast d0 :: int16_t) :: int32_t) 0) (\<lambda>t0.
        r_bind (shl_signed d (scast (ucast d1 :: int16_t) :: int32_t) 8) (\<lambda>t1.
        r_bind (add_signed t0 t1) (\<lambda>s1.
        r_bind (deref element) (\<lambda>_.
        Inr (PACK_SIZE_INT16_T, Some (ucast s1))))))))
      else Inr (0, element))"

definition le_pack_s32 ::
    "int32_t option \<Rightarrow> size_t \<Rightarrow> buffer \<Rightarrow> size_t \<Rightarrow> (size_t \<times> buffer) result" where
  "le_pack_s32 element offset data data_len =
     (if pack_is_within_buffer offset PACK_SIZE_INT32_T data_len then
        r_bind (deref element) (\<lambda>e.
        r_bind (arr_set data (offset + 0) (ucast (signed_drop_bit 0 e AND 0xFF))) (\<lambda>data.
        r_bind (arr_set data (offset + 1) (ucast (signed_drop_bit 8 e AND 0xFF))) (\<lambda>data.
        r_bind (arr_set data (offset + 2) (ucast (signed_drop_bit 16 e AND 0xFF))) (\<lambda>data.
        r_bind (arr_set data (offset + 3) (ucast (signed_drop_bit 24 e AND 0xFF))) (\<lambda>data.
        Inr (PACK_SIZE_INT32_T, data))))))
      else Inr (0, data))"

definition le_unpack_s32 ::
    "dialect \<Rightarrow> int32_t option \<Rightarrow> size_t \<Rightarrow> buffer \<Rightarrow> size_t \<Rightarrow> (size_t \<times> int32_t option) result" where
  "le_unpack_s32 d element offset data data_len =
     (if pack_is_within_buffer offset PACK_SIZE_INT32_T data_len then
        r_bind (arr_get data (offset + 0)) (\<lambda>d0.
        r_bind (arr_get data (offset + 1)) (\<lambda>d1.
        r_bind (arr_get data (offset + 2)) (\<lambda>d2.
        r_bind (arr_get data (offset + 3)) (\<lambda>d3.
        r_bind (shl_signed d (ucast d0 :: int32_t) 0) (\<lambda>t0.
        r_bind (shl_signed d (ucast d1 :: int32_t) 8) (\<lambda>t1.
        r_bind (add_signed t0 t1) (\<lambda>s1.
        r_bind (shl_signed d (ucast d2 :: int32_t) 16) (\<lambda>t2.
        r_bind (add_signed s1 t2) (\<lambda>s2.
        r_bind (shl_signed d (ucast d3 :: int32_t) 24) (\<lambda>t3.
        r_bind (add_signed s2 t3) (\<lambda>s3.
        r_bind (deref element) (\<lambda>_.
        Inr (PACK_SIZE_INT32_T, Some s3)))))))))))))
      else Inr (0, element))"

definition le_pack_s64 ::
    "int64_t option \<Rightarrow> size_t \<Rightarrow> buffer \<Rightarrow> size_t \<Rightarrow> (size_t \<times> buffer) result" where
  "le_pack_s64 element offset data data_len =
     (if pack_is_within_buffer offset PACK_SIZE_INT64_T data_len then
        r_bind (deref element) (\<lambda>e.
        r_bind (arr_set data (offset + 0) (ucast (signed_drop_bit 0 e AND 0xFF))) (\<lambda>data.
        r_bind (arr_set data (offset + 1) (ucast (signed_drop_bit 8 e AND 0xFF))) (\<lambda>data.
        r_bind (arr_set data (offset + 2) (ucast (signed_drop_bit 16 e AND 0xFF))) (\<lambda>data.
        r_bind (arr_set data (offset + 3) (ucast (signed_drop_bit 24 e AND 0xFF))) (\<lambda>data.
        r_bind (arr_set data (offset + 4) (ucast (signed_drop_bit 32 e AND 0xFF))) (\<lambda>data.
        r_bind (arr_set data (offset + 5) (ucast (signed_drop_bit 40 e AND 0xFF))) (\<lambda>data.
        r_bind (arr_set data (offset + 6) (ucast (signed_drop_bit 48 e AND 0xFF))) (\<lambda>data.
        r_bind (arr_set data (offset + 7) (ucast (signed_drop_bit 56 e AND 0xFF))) (\<lambda>data.
        Inr (PACK_SIZE_INT64_T, data))))))))))
      else Inr (0, data))"

definition le_unpack_s64 ::
    "dialect \<Rightarrow> int64_t option \<Rightarrow> size_t \<Rightarrow> buffer \<Rightarrow> size_t \<Rightarrow> (size_t \<times> int64_t option) result" where
  "le_unpack_s64 d element offset data data_len =
     (if pack_is_within_buffer offset PACK_SIZE_INT64_T data_len then
        r_bind (arr_get data (offset + 0)) (\<lambda>d0.
        r_bind (arr_get data (offset + 1)) (\<lambda>d1.
        r_bind (arr_get data (offset + 2)) (\<lambda>d2.
        r_bind (arr_get data (offset + 3)) (\<lambda>d3.
        r_bind (arr_get data (offset + 4)) (\<lambda>d4.
        r_bind (arr_get data (offset + 5)) (\<lambda>d5.
        r_bind (arr_get data (offset + 6)) (\<lambda>d6.
        r_bind (arr_get data (offset + 7)) (\<lambda>d7.
        r_bind (shl_signed d (ucast d0 :: int64_t) 0) (\<lambda>t0.
        r_bind (shl_signed d (ucast d1 :: int64_t) 8) (\<lambda>t1.
        r_bind (add_signed t0 t1) (\<lambda>s1.
        r_bind (shl_signed d (ucast d2 :: int64_t) 16) (\<lambda>t2.
        r_bind (add_signed s1 t2) (\<lambda>s2.
        r_bind (shl_signed d (ucast d3 :: int64_t) 24) (\<lambda>t3.
        r_bind (add_signed s2 t3) (\<lambda>s3.
        r_bind (shl_signed d (ucast d4 :: int64_t) 32) (\<lambda>t4.
        r_bind (add_signed s3 t4) (\<lambda>s4.
        r_bind (shl_signed d (ucast d5 :: int64_t) 40) (\<lambda>t5.
        r_bind (add_signed s4 t5) (\<lambda>s5.
        r_bind (shl_signed d (ucast d6 :: int64_t) 48) (\<lambda>t6.
        r_bind (add_signed s5 t6) (\<lambda>s6.
        r_bind (shl_signed d (ucast d7 :: int64_t) 56) (\<lambda>t7.
        r_bind (add_signed s6 t7) (\<lambda>s7.
        r_bind (deref element) (\<lambda>_.
        Inr (PACK_SIZE_INT64_T, Some s7)))))))))))))))))))))))))
      else Inr (0, element))"


section \<open>The bounds check\<close>

text \<open>The check is the comparison of the true sizes: the wrapped end offset is refused.\<close>

lemma within_buffer_iff:
  "pack_is_within_buffer offset n data_len \<longleftrightarrow> unat offset + unat n \<le> unat data_len"
proof (cases "unat offset + unat n < 2 ^ 64")
  case True
  then have "unat (offset + n) = unat offset + unat n"
    by (intro unat_add_lem [THEN iffD1]) simp
  then show ?thesis
    by (simp add: pack_is_within_buffer_def Let_def word_less_nat_alt word_le_nat_alt)
next
  case False
  then have "unat (offset + n) = unat offset + unat n - 2 ^ 64"
    using unat_size_lt [of offset] unat_size_lt [of n]
    by (simp add: unat_word_ariths mod_if del: unat_size_lt)
  then have "offset + n < offset"
    using False unat_size_lt [of n] by (simp add: word_less_nat_alt del: unat_size_lt)
  moreover have "\<not> unat offset + unat n \<le> unat data_len"
    using False unat_size_lt [of data_len] by (simp del: unat_size_lt)
  ultimately show ?thesis by (simp add: pack_is_within_buffer_def Let_def)
qed

section \<open>Bytes at an offset\<close>

lemma unat_offset_add:
  assumes "unat offset + unat (k :: size_t) \<le> unat (data_len :: size_t)"
  shows "unat (offset + k) = unat offset + unat k"
  using assms unat_size_lt [of data_len]
  by (intro unat_add_lem [THEN iffD1]) (simp del: unat_size_lt)

fun store_bytes :: "buffer \<Rightarrow> size_t \<Rightarrow> uint8_t list \<Rightarrow> buffer result" where
  "store_bytes data offset [] = Inr data"
| "store_bytes data offset (b # bs) =
     r_bind (arr_set data offset b) (\<lambda>data. store_bytes data (offset + 1) bs)"

lemma store_bytes_splice:
  assumes "unat offset + length bs \<le> unat (data_len :: size_t)" "unat data_len \<le> length xs"
  shows "store_bytes (Some xs) offset bs = Inr (Some (splice (unat offset) bs xs))"
  using assms
proof (induction bs arbitrary: offset xs)
  case (Cons b bs)
  have "unat (offset + 1) = Suc (unat offset)"
    using unat_offset_add [of offset 1 data_len] Cons.prems by simp
  then show ?case using Cons by (simp add: c_simps splice_Cons)
qed simp

lemma arr_get_window:
  assumes "ds = take n (drop (unat offset) xs)" "unat offset + n \<le> unat (data_len :: size_t)"
    and "unat data_len \<le> length xs" "unat k < n"
  shows "arr_get (Some xs) (offset + k) = Inr (ds ! unat k)"
  using assms unat_offset_add [of offset k data_len] by (simp add: arr_get_def)

lemma byte_mask: "(ucast ((w :: 'a::len word) AND 0xFF) :: uint8_t) = ucast w"
proof -
  have "w AND 0xFF = take_bit 8 w"
    by (simp add: take_bit_eq_mask mask_eq_exp_minus_1)
  then show ?thesis by (auto intro!: bit_eqI simp: bit_simps)
qed

lemma byte_of_promoted:
  "k + 8 \<le> LENGTH('a) \<Longrightarrow> LENGTH('a) \<le> LENGTH('b) \<Longrightarrow>
    (ucast (drop_bit k (ucast (w :: 'a::len word) :: 'b::len word)) :: uint8_t) = ucast (drop_bit k w)"
  by (auto intro!: bit_eqI simp: bit_simps)

lemma byte_of_signed:
  "k + 8 \<le> LENGTH('a) \<Longrightarrow>
    (ucast (signed_drop_bit k (w :: 'a::len word)) :: uint8_t) = ucast (drop_bit k w)"
  by (auto intro!: bit_eqI simp: bit_simps split: if_splits)

lemma byte_of_signed_promoted:
  "k + 8 \<le> LENGTH('a) \<Longrightarrow> LENGTH('a) \<le> LENGTH('b) \<Longrightarrow>
    (ucast (drop_bit k (scast (w :: 'a::len word) :: 'b::len word)) :: uint8_t)
      = ucast (drop_bit k w)"
  by (auto intro!: bit_eqI simp: bit_simps)

lemmas pack_bytes = byte_mask byte_of_promoted byte_of_signed byte_of_signed_promoted
  byte_of_promoted [of 0, simplified] byte_of_signed [of 0, simplified]
  byte_of_signed_promoted [of 0, simplified]

lemma le_bytes_numeral [simp]:
  "le_bytes (numeral k) w = ucast w # le_bytes (pred_numeral k) (drop_bit 8 w)"
  by (simp add: numeral_eq_Suc)

text \<open>Every writer stores the little-endian bytes of its element.\<close>

lemma le_pack_stores:
  "pack_is_within_buffer offset 1 data_len \<Longrightarrow>
    le_pack_u8 (Some e8) offset data data_len
      = r_bind (store_bytes data offset (le_bytes 1 e8)) (\<lambda>data. Inr (1, data))"
  "pack_is_within_buffer offset 2 data_len \<Longrightarrow>
    le_pack_u16 (Some e16) offset data data_len
      = r_bind (store_bytes data offset (le_bytes 2 e16)) (\<lambda>data. Inr (2, data))"
  "pack_is_within_buffer offset 4 data_len \<Longrightarrow>
    le_pack_u32 (Some e32) offset data data_len
      = r_bind (store_bytes data offset (le_bytes 4 e32)) (\<lambda>data. Inr (4, data))"
  "pack_is_within_buffer offset 8 data_len \<Longrightarrow>
    le_pack_u64 (Some e64) offset data data_len
      = r_bind (store_bytes data offset (le_bytes 8 e64)) (\<lambda>data. Inr (8, data))"
  "pack_is_within_buffer offset 1 data_len \<Longrightarrow>
    le_pack_s8 (Some e8) offset data data_len
      = r_bind (store_bytes data offset (le_bytes 1 e8)) (\<lambda>data. Inr (1, data))"
  "pack_is_within_buffer offset 2 data_len \<Longrightarrow>
    le_pack_s16 (Some e16) offset data data_len
      = r_bind (store_bytes data offset (le_bytes 2 e16)) (\<lambda>data. Inr (2, data))"
  "pack_is_within_buffer offset 4 data_len \<Longrightarrow>
    le_pack_s32 (Some e32) offset data data_len
      = r_bind (store_bytes data offset (le_bytes 4 e32)) (\<lambda>data. Inr (4, data))"
  "pack_is_within_buffer offset 8 data_len \<Longrightarrow>
    le_pack_s64 (Some e64) offset data data_len
      = r_bind (store_bytes data offset (le_bytes 8 e64)) (\<lambda>data. Inr (8, data))"
  by (simp_all add: le_pack_u8_def le_pack_u16_def le_pack_u32_def le_pack_u64_def le_pack_s8_def
      le_pack_s16_def le_pack_s32_def le_pack_s64_def pack_sizes pack_bytes r_bind_assoc
      Let_def add.assoc)

section \<open>Reading\<close>

lemma two_bytes: "length ds = 2 \<Longrightarrow> \<exists>a b. ds = [a, b]"
  by (auto simp: numeral_eq_Suc length_Suc_conv)

lemma four_bytes: "length ds = 4 \<Longrightarrow> \<exists>a b c d. ds = [a, b, c, d]"
  by (auto simp: numeral_eq_Suc length_Suc_conv)

lemma eight_bytes: "length ds = 8 \<Longrightarrow> \<exists>a b c d e f g h. ds = [a, b, c, d, e, f, g, h]"
  by (auto simp: numeral_eq_Suc length_Suc_conv)

lemma narrow_le_word:
  "(ucast (ucast a + push_bit 8 (ucast b) :: 32 word) :: 16 word) = ucast a + push_bit 8 (ucast b)"
  by transfer (simp add: take_bit_add push_bit_take_bit)

lemma add_signed_le_word:
  assumes "8 * Suc (length bs) \<le> LENGTH('a)"
  shows "add_signed (le_word bs :: 'a::len word) (push_bit (8 * length bs) (ucast d))
    = Inr (le_word (bs @ [d]))"
proof -
  define m where "m = 8 * length bs"
  define s t where "s = (le_word bs :: 'a word)" and "t = (push_bit m (ucast d) :: 'a word)"
  define h :: int where "h = 2 ^ (LENGTH('a) - 1)"
  have m: "m < LENGTH('a) - 1" using assms by (simp add: m_def)
  have "uint s < 2 ^ m"
    unfolding s_def m_def using assms by (intro uint_le_word) simp
  moreover have "(2 :: int) ^ m \<le> 2 ^ (LENGTH('a) - 1)" using m by (intro power_increasing) auto
  ultimately have "uint s < 2 ^ (LENGTH('a) - 1)" by (rule less_le_trans)
  then have "sint s = uint s"
    by (simp add: sint_uint signed_take_bit_int_eq_self_iff order_trans [of _ 0])
  then have s: "0 \<le> sint s" "sint s < 2 ^ m" using \<open>uint s < 2 ^ m\<close> by simp_all
  have "take_bit m (sint t) = 0"
    by (rule bit_eqI) (auto simp: t_def bit_simps)
  then have "2 ^ m dvd sint t" by (simp add: take_bit_eq_0_iff)
  moreover have "2 ^ m dvd h" using m by (simp add: h_def le_imp_power_dvd)
  moreover have "- h \<le> sint t" "sint t < h"
    unfolding h_def using sint_greater_eq [of t] sint_less [of t] by simp_all
  ultimately have "sint t \<le> h - 2 ^ m"
    using zdvd_imp_le [of "2 ^ m" "h - sint t"] by simp
  then have "- h \<le> sint s + sint t" "sint s + sint t < h"
    using s \<open>- h \<le> sint t\<close> by simp_all
  then show ?thesis
    by (simp add: add_signed_def le_word_snoc s_def t_def m_def h_def)
qed

lemma one_byte: "length ds = 1 \<Longrightarrow> \<exists>a. ds = [a]"
  by (auto simp: length_Suc_conv)

lemma le_unpack_u8_loads:
  assumes "unat offset + 1 \<le> unat data_len" "unat data_len \<le> length xs"
  shows "le_unpack_u8 (Some old) offset (Some xs) data_len
    = Inr (1, Some (le_word (take 1 (drop (unat offset) xs))))"
proof -
  define ds where "ds = take 1 (drop (unat offset) xs)"
  obtain a where ds: "ds = [a]"
    using one_byte [of ds] assms by (auto simp: ds_def)
  note get = arr_get_window [OF ds_def assms]
  show ?thesis using assms get [of 0]
    unfolding ds_def [symmetric]
    by (simp add: le_unpack_u8_def within_buffer_iff pack_sizes ds pack_bytes)
qed

lemma le_unpack_u16_loads:
  assumes "unat offset + 2 \<le> unat data_len" "unat data_len \<le> length xs"
  shows "le_unpack_u16 (Some old) offset (Some xs) data_len
    = Inr (2, Some (le_word (take 2 (drop (unat offset) xs))))"
proof -
  define ds where "ds = take 2 (drop (unat offset) xs)"
  obtain a b where ds: "ds = [a, b]"
    using two_bytes [of ds] assms by (auto simp: ds_def)
  note get = arr_get_window [OF ds_def assms]
  show ?thesis using assms get [of 0] get [of 1]
    unfolding ds_def [symmetric]
    by (simp add: le_unpack_u16_def within_buffer_iff pack_sizes ds narrow_le_word)
qed

lemma le_unpack_u32_loads:
  assumes "unat offset + 4 \<le> unat data_len" "unat data_len \<le> length xs"
  shows "le_unpack_u32 (Some old) offset (Some xs) data_len
    = Inr (4, Some (le_word (take 4 (drop (unat offset) xs))))"
proof -
  define ds where "ds = take 4 (drop (unat offset) xs)"
  obtain a b c d where ds: "ds = [a, b, c, d]"
    using four_bytes [of ds] assms by (auto simp: ds_def)
  note get = arr_get_window [OF ds_def assms]
  show ?thesis using assms get [of 0] get [of 1] get [of 2] get [of 3]
    unfolding ds_def [symmetric]
    by (simp add: le_unpack_u32_def within_buffer_iff pack_sizes ds push_bit_add add.assoc)
qed

lemma le_unpack_u64_loads:
  assumes "unat offset + 8 \<le> unat data_len" "unat data_len \<le> length xs"
  shows "le_unpack_u64 (Some old) offset (Some xs) data_len
    = Inr (8, Some (le_word (take 8 (drop (unat offset) xs))))"
proof -
  define ds where "ds = take 8 (drop (unat offset) xs)"
  obtain a b c d e f g h where ds: "ds = [a, b, c, d, e, f, g, h]"
    using eight_bytes [of ds] assms by (auto simp: ds_def)
  note get = arr_get_window [OF ds_def assms]
  show ?thesis using assms get [of 0] get [of 1] get [of 2] get [of 3] get [of 4] get [of 5] get [of 6] get [of 7]
    unfolding ds_def [symmetric]
    by (simp add: le_unpack_u64_def within_buffer_iff pack_sizes ds push_bit_add add.assoc)
qed

text \<open>The signed readers: the last byte carries the sign.\<close>

lemma shl_signed_GNU [simp]: "shl_signed GNU_C x k = Inr (push_bit k x)"
  by (simp add: shl_signed_def)

lemmas add_chain32 =
  add_signed_le_word [of "[a]" b, where 'a = 32, simplified]
  add_signed_le_word [of "[a, b]" c, where 'a = 32, simplified]
  add_signed_le_word [of "[a, b, c]" d, where 'a = 32, simplified]
  for a b c d

lemmas add_chain64 =
  add_signed_le_word [of "[a]" b, where 'a = 64, simplified]
  add_signed_le_word [of "[a, b]" c, where 'a = 64, simplified]
  add_signed_le_word [of "[a, b, c]" d, where 'a = 64, simplified]
  add_signed_le_word [of "[a, b, c, d]" e, where 'a = 64, simplified]
  add_signed_le_word [of "[a, b, c, d, e]" f, where 'a = 64, simplified]
  add_signed_le_word [of "[a, b, c, d, e, f]" g, where 'a = 64, simplified]
  add_signed_le_word [of "[a, b, c, d, e, f, g]" h, where 'a = 64, simplified]
  for a b c d e f g h

lemma le_unpack_s8_loads:
  assumes "unat offset + 1 \<le> unat data_len" "unat data_len \<le> length xs"
  shows "le_unpack_s8 GNU_C (Some old) offset (Some xs) data_len
    = Inr (1, Some (le_word (take 1 (drop (unat offset) xs))))"
proof -
  define ds where "ds = take 1 (drop (unat offset) xs)"
  obtain a where ds: "ds = [a]"
    using one_byte [of ds] assms by (auto simp: ds_def)
  note get = arr_get_window [OF ds_def assms]
  show ?thesis using assms get [of 0]
    unfolding ds_def [symmetric]
    by (simp add: le_unpack_s8_def within_buffer_iff pack_sizes ds pack_bytes)
qed

lemma le_unpack_s32_loads:
  assumes "unat offset + 4 \<le> unat data_len" "unat data_len \<le> length xs"
  shows "le_unpack_s32 GNU_C (Some old) offset (Some xs) data_len
    = Inr (4, Some (le_word (take 4 (drop (unat offset) xs))))"
proof -
  define ds where "ds = take 4 (drop (unat offset) xs)"
  obtain a b c d where ds: "ds = [a, b, c, d]"
    using four_bytes [of ds] assms by (auto simp: ds_def)
  note get = arr_get_window [OF ds_def assms]
  show ?thesis using assms get [of 0] get [of 1] get [of 2] get [of 3]
    unfolding ds_def [symmetric]
    by (simp add: le_unpack_s32_def within_buffer_iff pack_sizes ds add_chain32)
qed

lemma le_unpack_s64_loads:
  assumes "unat offset + 8 \<le> unat data_len" "unat data_len \<le> length xs"
  shows "le_unpack_s64 GNU_C (Some old) offset (Some xs) data_len
    = Inr (8, Some (le_word (take 8 (drop (unat offset) xs))))"
proof -
  define ds where "ds = take 8 (drop (unat offset) xs)"
  obtain a b c d e f g h where ds: "ds = [a, b, c, d, e, f, g, h]"
    using eight_bytes [of ds] assms by (auto simp: ds_def)
  note get = arr_get_window [OF ds_def assms]
  show ?thesis using assms get [of 0] get [of 1] get [of 2] get [of 3] get [of 4] get [of 5] get [of 6] get [of 7]
    unfolding ds_def [symmetric]
    by (simp add: le_unpack_s64_def within_buffer_iff pack_sizes ds add_chain64)
qed

text \<open>
  ISO C: a byte shifted below the sign bit is harmless, a byte shifted into it is undefined when
  its own top bit is set.
\<close>

lemma sint_byte:
  assumes "8 < LENGTH('a)"
  shows "sint (ucast (b :: uint8_t) :: 'a::len word) = uint b"
proof -
  have "(2 :: int) ^ 8 \<le> 2 ^ (LENGTH('a) - 1)" "(2 :: int) ^ 8 \<le> 2 ^ LENGTH('a)"
    using assms by (intro power_increasing; simp)+
  then have b: "uint b < 2 ^ (LENGTH('a) - 1)" "uint b < 2 ^ LENGTH('a)"
    using uint_lt2p [of b] by simp_all
  then have "uint (ucast b :: 'a word) = uint b"
    by (simp add: unsigned_ucast_eq take_bit_int_eq_self)
  then show ?thesis
    using b by (simp add: sint_uint signed_take_bit_int_eq_self_iff order_trans [of _ 0])
qed

lemma shl_signed_low:
  assumes "k + 8 < LENGTH('a)"
  shows "shl_signed dialect (ucast (b :: uint8_t) :: 'a::len word) k = Inr (push_bit k (ucast b))"
proof -
  have "uint b * 2 ^ k < 2 ^ 8 * 2 ^ k" using uint_lt2p [of b] by simp
  also have "\<dots> = 2 ^ (8 + k)" by (simp add: power_add)
  also have "\<dots> \<le> 2 ^ (LENGTH('a) - 1)" using assms by (intro power_increasing) auto
  finally show ?thesis using assms by (simp add: shl_signed_def sint_byte)
qed

lemma shl_signed_top:
  assumes "k + 8 = LENGTH('a)" "0 < k"
  shows "shl_signed ISO_C (ucast (b :: uint8_t) :: 'a::len word) k
    = (if 128 \<le> b then Inl Signed_overflow else Inr (push_bit k (ucast b)))"
proof -
  have "(2 :: int) ^ (LENGTH('a) - 1) = 128 * 2 ^ k"
    using power_add [of "2 :: int" 7 k] assms(1) [symmetric] by simp
  then have "2 ^ (LENGTH('a) - 1) \<le> uint b * 2 ^ k \<longleftrightarrow> 128 \<le> b"
    by (simp add: word_le_def)
  then show ?thesis using assms by (simp add: shl_signed_def sint_byte)
qed

lemma promote_byte16: "(scast (ucast (b :: uint8_t) :: int16_t) :: int32_t) = ucast b"
proof -
  have "sint (ucast b :: int16_t) = uint b" by (rule sint_byte) simp
  then have "(scast (ucast b :: int16_t) :: int32_t) = word_of_int (uint b)"
    by (simp only: scast_eq)
  then show ?thesis by (simp only: ucast_eq)
qed

lemma le_unpack_s16_loads:
  assumes "unat offset + 2 \<le> unat data_len" "unat data_len \<le> length xs"
  shows "le_unpack_s16 dialect (Some old) offset (Some xs) data_len
    = Inr (2, Some (le_word (take 2 (drop (unat offset) xs))))"
proof -
  define ds where "ds = take 2 (drop (unat offset) xs)"
  obtain a b where ds: "ds = [a, b]"
    using two_bytes [of ds] assms by (auto simp: ds_def)
  note get = arr_get_window [OF ds_def assms]
  show ?thesis using assms get [of 0] get [of 1]
    unfolding ds_def [symmetric]
    by (simp add: le_unpack_s16_def within_buffer_iff pack_sizes ds promote_byte16
        shl_signed_low shl_signed_low [of 0, simplified] add_chain32 narrow_le_word)
qed

lemma le_unpack_s32_iso:
  assumes "unat offset + 4 \<le> unat data_len" "unat data_len \<le> length xs"
  shows "le_unpack_s32 ISO_C (Some old) offset (Some xs) data_len
    = (if 128 \<le> xs ! (unat offset + 3) then Inl Signed_overflow
       else le_unpack_s32 GNU_C (Some old) offset (Some xs) data_len)"
proof -
  define ds where "ds = take 4 (drop (unat offset) xs)"
  obtain a b c d where ds: "ds = [a, b, c, d]"
    using four_bytes [of ds] assms by (auto simp: ds_def)
  have d: "xs ! (unat offset + 3) = d"
    using arg_cong [OF ds, of "\<lambda>l. l ! 3"] assms by (simp add: ds_def)
  note get = arr_get_window [OF ds_def assms]
  show ?thesis using assms get [of 0] get [of 1] get [of 2] get [of 3]
    by (simp add: le_unpack_s32_def within_buffer_iff pack_sizes ds d add_chain32
        shl_signed_low shl_signed_low [of 0, simplified] shl_signed_top)
qed

section \<open>Interpretations\<close>

text \<open>
  A writer that stores the little-endian bytes of its element and a reader that rebuilds the
  element from them, both behind the bounds check, are a codec.
\<close>

lemma le_codec:
  fixes pack :: "('a::len) word option \<Rightarrow> size_t \<Rightarrow> buffer \<Rightarrow> size_t \<Rightarrow> (size_t \<times> buffer) result"
  assumes width: "unat width = n" "8 * n = LENGTH('a)"
    and pack: "\<And>v offset data data_len. pack_is_within_buffer offset width data_len \<Longrightarrow>
      pack (Some v) offset data data_len
        = r_bind (store_bytes data offset (le_bytes n v)) (\<lambda>data. Inr (width, data))"
    and unpack: "\<And>offset data_len xs old.
      unat offset + n \<le> unat data_len \<Longrightarrow> unat data_len \<le> length xs \<Longrightarrow>
      unpack (Some old) offset (Some xs) data_len
        = Inr (width, Some (le_word (take n (drop (unat offset) xs)) :: 'a word))"
    and short: "\<And>e e' offset data data_len. \<not> pack_is_within_buffer offset width data_len \<Longrightarrow>
      pack e offset data data_len = Inr (0, data) \<and> unpack e' offset data data_len = Inr (0, e')"
  shows "codec pack unpack width (le_bytes n) le_word"
proof
  show "0 < unat width" using width by (metis gr0I len_gt_0 less_numeral_extra(3) mult_0_right)
  show "length (le_bytes n v) = unat width" for v :: "'a word" using width by simp
  show "le_word (le_bytes n v) = v" for v :: "'a word" using width(2) by (rule le_word_round)
qed (use assms in \<open>simp_all add: within_buffer_iff store_bytes_splice\<close>)

lemmas pack_defs = le_pack_u8_def le_pack_u16_def le_pack_u32_def le_pack_u64_def le_pack_s8_def
  le_pack_s16_def le_pack_s32_def le_pack_s64_def

lemmas unpack_defs = le_unpack_u8_def le_unpack_u16_def le_unpack_u32_def le_unpack_u64_def
  le_unpack_s8_def le_unpack_s16_def le_unpack_s32_def le_unpack_s64_def

interpretation u8: codec le_pack_u8 le_unpack_u8 1 "le_bytes 1" le_word
  by (rule le_codec) (simp_all only: le_pack_stores le_unpack_u8_loads,
      simp_all add: pack_defs unpack_defs pack_sizes)

interpretation u16: codec le_pack_u16 le_unpack_u16 2 "le_bytes 2" le_word
  by (rule le_codec) (simp_all only: le_pack_stores le_unpack_u16_loads,
      simp_all add: pack_defs unpack_defs pack_sizes)

interpretation u32: codec le_pack_u32 le_unpack_u32 4 "le_bytes 4" le_word
  by (rule le_codec) (simp_all only: le_pack_stores le_unpack_u32_loads,
      simp_all add: pack_defs unpack_defs pack_sizes)

interpretation u64: codec le_pack_u64 le_unpack_u64 8 "le_bytes 8" le_word
  by (rule le_codec) (simp_all only: le_pack_stores le_unpack_u64_loads,
      simp_all add: pack_defs unpack_defs pack_sizes)

interpretation s8: codec le_pack_s8 "le_unpack_s8 GNU_C" 1 "le_bytes 1" le_word
  by (rule le_codec) (simp_all only: le_pack_stores le_unpack_s8_loads,
      simp_all add: pack_defs unpack_defs pack_sizes)

interpretation s16: codec le_pack_s16 "le_unpack_s16 d" 2 "le_bytes 2" le_word
  for d
  by (rule le_codec) (simp_all only: le_pack_stores le_unpack_s16_loads,
      simp_all add: pack_defs unpack_defs pack_sizes)

interpretation s32: codec le_pack_s32 "le_unpack_s32 GNU_C" 4 "le_bytes 4" le_word
  by (rule le_codec) (simp_all only: le_pack_stores le_unpack_s32_loads,
      simp_all add: pack_defs unpack_defs pack_sizes)

interpretation s64: codec le_pack_s64 "le_unpack_s64 GNU_C" 8 "le_bytes 8" le_word
  by (rule le_codec) (simp_all only: le_pack_stores le_unpack_s64_loads,
      simp_all add: pack_defs unpack_defs pack_sizes)

definition bool_bytes :: "bool \<Rightarrow> uint8_t list" where
  "bool_bytes b = [if b then 1 else 0]"

definition bytes_bool :: "uint8_t list \<Rightarrow> bool" where
  "bytes_bool bs = (hd bs = 1)"

interpretation pbool: codec le_pack_bool le_unpack_bool 1 bool_bytes bytes_bool
proof
  fix offset data_len :: size_t and xs :: "uint8_t list" and v old :: bool
  assume fits: "unat offset + unat (1 :: size_t) \<le> unat data_len" "unat data_len \<le> length xs"
  then have lt: "unat offset < length xs" by simp
  then show "le_pack_bool (Some v) offset (Some xs) data_len
      = Inr (1, Some (splice (unat offset) (bool_bytes v) xs))"
    using fits by (simp add: le_pack_bool_def within_buffer_iff pack_sizes c_simps bool_bytes_def
        splice_Cons)
  show "le_unpack_bool (Some old) offset (Some xs) data_len
      = Inr (1, Some (bytes_bool (take (unat (1 :: size_t)) (drop (unat offset) xs))))"
    using fits lt by (simp add: le_unpack_bool_def within_buffer_iff pack_sizes c_simps
        bytes_bool_def hd_drop_conv_nth pack_bytes)
qed (simp_all add: le_pack_bool_def le_unpack_bool_def within_buffer_iff pack_sizes bool_bytes_def
    bytes_bool_def)

section \<open>Raw bytes\<close>

lemma le_pack_raw_fits:
  assumes "unat offset + unat n \<le> unat data_len" "unat data_len \<le> length xs"
    and "0 < unat n" "unat n \<le> length raw"
  shows "le_pack_raw (Some raw) n offset (Some xs) data_len
    = Inr (n, Some (splice (unat offset) (take (unat n) raw) xs))"
  using assms by (simp add: le_pack_raw_def within_buffer_iff mem_copy_def splice_def
      unat_gt_0 word_gt_0)

lemma le_unpack_raw_fits:
  assumes "unat offset + unat n \<le> unat data_len" "unat data_len \<le> length xs"
    and "0 < unat n" "unat n \<le> length old"
  shows "le_unpack_raw (Some old) n offset (Some xs) data_len
    = Inr (n, Some (splice 0 (take (unat n) (drop (unat offset) xs)) old))"
  using assms by (simp add: le_unpack_raw_def within_buffer_iff mem_copy_def splice_def
      unat_gt_0 word_gt_0)

section \<open>Properties\<close>

text \<open>
  \<open>pack_is_within_buffer\<close> decides whether \<open>req_size\<close> bytes at \<open>offset\<close> end within \<open>data_len\<close>, also
  when the sum of the two wraps around.
\<close>

theorem pack_is_within_buffer_correct:
  "pack_is_within_buffer offset req_size data_len
    \<longleftrightarrow> unat offset + unat req_size \<le> unat data_len"
  by (rule within_buffer_iff)

text \<open>
  C31. Round trip of the unsigned types and of booleans: an array of elements packed one after the
  other at any offset at which it fits is read back unchanged.
\<close>

theorem le_pack_unsigned_round_trip:
  assumes "unat data_len \<le> length xs"
  shows "(unat offset + length a \<le> unat data_len \<longrightarrow>
      r_bind (pack_all le_pack_u8 a offset (Some xs) data_len) (\<lambda>data.
        unpack_all le_unpack_u8 0 (length a) offset data data_len) = Inr a)
    \<and> (unat offset + length b * 2 \<le> unat data_len \<longrightarrow>
      r_bind (pack_all le_pack_u16 b offset (Some xs) data_len) (\<lambda>data.
        unpack_all le_unpack_u16 0 (length b) offset data data_len) = Inr b)
    \<and> (unat offset + length c * 4 \<le> unat data_len \<longrightarrow>
      r_bind (pack_all le_pack_u32 c offset (Some xs) data_len) (\<lambda>data.
        unpack_all le_unpack_u32 0 (length c) offset data data_len) = Inr c)
    \<and> (unat offset + length d * 8 \<le> unat data_len \<longrightarrow>
      r_bind (pack_all le_pack_u64 d offset (Some xs) data_len) (\<lambda>data.
        unpack_all le_unpack_u64 0 (length d) offset data data_len) = Inr d)
    \<and> (unat offset + length e \<le> unat data_len \<longrightarrow>
      r_bind (pack_all le_pack_bool e offset (Some xs) data_len) (\<lambda>data.
        unpack_all le_unpack_bool False (length e) offset data data_len) = Inr e)"
  using u8.all_round_trip [of offset a data_len xs 0] u16.all_round_trip [of offset b data_len xs 0]
    u32.all_round_trip [of offset c data_len xs 0] u64.all_round_trip [of offset d data_len xs 0]
    pbool.all_round_trip [of offset e data_len xs False] assms
  by simp

theorem le_pack_unsigned_round_trip_witness:
  "r_bind (pack_all le_pack_u16 [0x1234, 0xABCD] 1 (Some [0, 0, 0, 0, 0, 0]) 6) (\<lambda>data.
     unpack_all le_unpack_u16 0 (length [0x1234, 0xABCD :: uint16_t]) 1 data 6)
   = Inr [0x1234, 0xABCD]"
  using le_pack_unsigned_round_trip [of 6 "[0, 0, 0, 0, 0, 0]" 1 "[]" "[0x1234, 0xABCD]" "[]" "[]" "[]"]
  by (simp del: pack_all.simps unpack_all.simps r_bind_eq_Inr)

text \<open>
  C30. Round trip of the signed types, with the left shift of a negative value as GNU C defines it;
  the 16-bit type needs no such assumption.
\<close>

theorem le_pack_signed_round_trip:
  assumes "unat data_len \<le> length xs"
  shows "(unat offset + length a \<le> unat data_len \<longrightarrow>
      r_bind (pack_all le_pack_s8 a offset (Some xs) data_len) (\<lambda>data.
        unpack_all (le_unpack_s8 GNU_C) 0 (length a) offset data data_len) = Inr a)
    \<and> (unat offset + length b * 2 \<le> unat data_len \<longrightarrow>
      r_bind (pack_all le_pack_s16 b offset (Some xs) data_len) (\<lambda>data.
        unpack_all (le_unpack_s16 dialect) 0 (length b) offset data data_len) = Inr b)
    \<and> (unat offset + length c * 4 \<le> unat data_len \<longrightarrow>
      r_bind (pack_all le_pack_s32 c offset (Some xs) data_len) (\<lambda>data.
        unpack_all (le_unpack_s32 GNU_C) 0 (length c) offset data data_len) = Inr c)
    \<and> (unat offset + length d * 8 \<le> unat data_len \<longrightarrow>
      r_bind (pack_all le_pack_s64 d offset (Some xs) data_len) (\<lambda>data.
        unpack_all (le_unpack_s64 GNU_C) 0 (length d) offset data data_len) = Inr d)"
  using s8.all_round_trip [of offset a data_len xs 0]
    s16.all_round_trip [of offset b data_len xs dialect 0]
    s32.all_round_trip [of offset c data_len xs 0] s64.all_round_trip [of offset d data_len xs 0] assms
  by simp

theorem le_pack_signed_round_trip_witness:
  "r_bind (pack_all le_pack_s32 [- 2, 5] 0 (Some [0, 0, 0, 0, 0, 0, 0, 0]) 8) (\<lambda>data.
     unpack_all (le_unpack_s32 GNU_C) 0 (length [- 2, 5 :: int32_t]) 0 data 8) = Inr [- 2, 5]"
  using le_pack_signed_round_trip [of 8 "[0, 0, 0, 0, 0, 0, 0, 0]" 0 "[]" "[]" ISO_C "[- 2, 5]" "[]"]
  by (simp del: pack_all.simps unpack_all.simps r_bind_eq_Inr)

text \<open>
  C35. Every writer stores exactly the bytes of its type inside the buffer, returns their number and
  changes nothing else; when the element does not fit it returns 0 and touches nothing.
\<close>

theorem le_pack_writes_only:
  "writes_only le_pack_bool 1 \<and> writes_only le_pack_u8 1 \<and> writes_only le_pack_u16 2
    \<and> writes_only le_pack_u32 4 \<and> writes_only le_pack_u64 8 \<and> writes_only le_pack_s8 1
    \<and> writes_only le_pack_s16 2 \<and> writes_only le_pack_s32 4 \<and> writes_only le_pack_s64 8"
  using pbool.pack_writes_only u8.pack_writes_only u16.pack_writes_only u32.pack_writes_only
    u64.pack_writes_only s8.pack_writes_only s16.pack_writes_only s32.pack_writes_only
    s64.pack_writes_only
  by simp

text \<open>
  In ISO C the 32-bit signed reader is undefined for every value whose sign bit is set, because
  it shifts the last byte into the sign bit; for all other values it agrees with GNU C.
\<close>

theorem le_unpack_s32_iso_undefined:
  assumes "unat offset + 4 \<le> unat data_len" and "unat data_len \<le> length xs"
  shows "le_unpack_s32 ISO_C (Some old) offset (Some xs) data_len
    = (if 128 \<le> xs ! (unat offset + 3) then Inl Signed_overflow
       else le_unpack_s32 GNU_C (Some old) offset (Some xs) data_len)"
  by (rule le_unpack_s32_iso [OF assms])

theorem le_unpack_s32_iso_undefined_witness:
  "le_unpack_s32 ISO_C (Some 0) 0 (Some [0xFE, 0xFF, 0xFF, 0xFF]) 4 = Inl Signed_overflow"
  using le_unpack_s32_iso_undefined [of 0 4 "[0xFE, 0xFF, 0xFF, 0xFF]" 0] by simp

text \<open>
  Raw bytes: \<open>n\<close> bytes packed at an offset at which they fit are the bytes unpacked from it,
  and both calls return \<open>n\<close>; the rest of both arrays is unchanged.
\<close>

theorem le_pack_raw_round_trip:
  assumes "unat offset + unat n \<le> unat data_len" and "unat data_len \<le> length xs"
    and "0 < unat n" and "unat n \<le> length raw" and "unat n \<le> length out"
  shows "\<exists>ys. le_pack_raw (Some raw) n offset (Some xs) data_len = Inr (n, Some ys)
    \<and> take (unat offset) ys = take (unat offset) xs
    \<and> drop (unat offset + unat n) ys = drop (unat offset + unat n) xs
    \<and> le_unpack_raw (Some out) n offset (Some ys) data_len
        = Inr (n, Some (take (unat n) raw @ drop (unat n) out))"
proof -
  define ys where "ys = splice (unat offset) (take (unat n) raw) xs"
  have len: "length (take (unat n) raw) = unat n" "length ys = length xs"
    using assms by (simp_all add: ys_def)
  have "take (unat n) (drop (unat offset) ys) = take (unat n) raw"
    using take_drop_splice [of "unat offset" "take (unat n) raw" xs] assms len
    by (simp add: ys_def)
  then have "le_unpack_raw (Some out) n offset (Some ys) data_len
      = Inr (n, Some (take (unat n) raw @ drop (unat n) out))"
    using le_unpack_raw_fits [of offset n data_len ys out] assms len by (simp add: splice_def)
  moreover have "take (unat offset) ys = take (unat offset) xs"
      "drop (unat offset + unat n) ys = drop (unat offset + unat n) xs"
    using assms by (simp_all add: ys_def splice_def)
  ultimately show ?thesis
    using le_pack_raw_fits [OF assms(1-4)] by (simp add: ys_def)
qed

theorem le_pack_raw_round_trip_witness:
  "\<exists>ys. le_pack_raw (Some [7, 8]) 2 1 (Some [0, 0, 0, 0]) 4 = Inr (2, Some ys)
    \<and> le_unpack_raw (Some [0, 0, 9]) 2 1 (Some ys) 4 = Inr (2, Some [7, 8, 9])"
  using le_pack_raw_round_trip [of 1 2 4 "[0, 0, 0, 0]" "[7, 8]" "[0, 0, 9]"] by auto

end
