(* ===== verification/Pack_Message.thy ===== *)
theory Pack_Message
  imports Le_Pack
begin

text \<open>
  Messages: values of different types packed one after the other into a byte buffer. The header
  \<open>include/cemb/pack.h\<close> gives all writers and all readers one type each, \<open>PackSerialiseFunction_t\<close> and
  \<open>PackDeserialiseFunction_t\<close>, so that a caller can go through the fields of a structure: call the
  function of the field, add the number of bytes it returns to the offset, and stop when it returns 0. The
  signed readers are taken with the shifts of GNU C.
\<close>

section \<open>Model\<close>

text \<open>What the \<open>void\<close> pointer of a field points to; the constructor is the type of the field.\<close>

datatype packed_value =
    V_bool bool
  | V_u8 uint8_t
  | V_u16 uint16_t
  | V_u32 uint32_t
  | V_u64 uint64_t
  | V_s8 int8_t
  | V_s16 int16_t
  | V_s32 int32_t
  | V_s64 int64_t

fun pack_value :: "packed_value \<Rightarrow> size_t \<Rightarrow> buffer \<Rightarrow> size_t \<Rightarrow> (size_t \<times> buffer) result" where
  "pack_value (V_bool v) offset data len = le_pack_bool (Some v) offset data len"
| "pack_value (V_u8 v) offset data len = le_pack_u8 (Some v) offset data len"
| "pack_value (V_u16 v) offset data len = le_pack_u16 (Some v) offset data len"
| "pack_value (V_u32 v) offset data len = le_pack_u32 (Some v) offset data len"
| "pack_value (V_u64 v) offset data len = le_pack_u64 (Some v) offset data len"
| "pack_value (V_s8 v) offset data len = le_pack_s8 (Some v) offset data len"
| "pack_value (V_s16 v) offset data len = le_pack_s16 (Some v) offset data len"
| "pack_value (V_s32 v) offset data len = le_pack_s32 (Some v) offset data len"
| "pack_value (V_s64 v) offset data len = le_pack_s64 (Some v) offset data len"

text \<open>The reader of a field, given the variable it reads into, and the variable after the call.\<close>

definition into :: "('v \<Rightarrow> packed_value) \<Rightarrow> (size_t \<times> 'v option) result \<Rightarrow> (size_t \<times> packed_value option) result" where
  "into c m = r_bind m (\<lambda>(n, e). Inr (n, map_option c e))"

fun unpack_value :: "packed_value \<Rightarrow> size_t \<Rightarrow> buffer \<Rightarrow> size_t \<Rightarrow> (size_t \<times> packed_value option) result" where
  "unpack_value (V_bool v) offset data len = into V_bool (le_unpack_bool (Some v) offset data len)"
| "unpack_value (V_u8 v) offset data len = into V_u8 (le_unpack_u8 (Some v) offset data len)"
| "unpack_value (V_u16 v) offset data len = into V_u16 (le_unpack_u16 (Some v) offset data len)"
| "unpack_value (V_u32 v) offset data len = into V_u32 (le_unpack_u32 (Some v) offset data len)"
| "unpack_value (V_u64 v) offset data len = into V_u64 (le_unpack_u64 (Some v) offset data len)"
| "unpack_value (V_s8 v) offset data len = into V_s8 (le_unpack_s8 GNU_C (Some v) offset data len)"
| "unpack_value (V_s16 v) offset data len = into V_s16 (le_unpack_s16 GNU_C (Some v) offset data len)"
| "unpack_value (V_s32 v) offset data len = into V_s32 (le_unpack_s32 GNU_C (Some v) offset data len)"
| "unpack_value (V_s64 v) offset data len = into V_s64 (le_unpack_s64 GNU_C (Some v) offset data len)"

fun same_type :: "packed_value \<Rightarrow> packed_value \<Rightarrow> bool" where
  "same_type (V_bool _) (V_bool _) = True"
| "same_type (V_u8 _) (V_u8 _) = True"
| "same_type (V_u16 _) (V_u16 _) = True"
| "same_type (V_u32 _) (V_u32 _) = True"
| "same_type (V_u64 _) (V_u64 _) = True"
| "same_type (V_s8 _) (V_s8 _) = True"
| "same_type (V_s16 _) (V_s16 _) = True"
| "same_type (V_s32 _) (V_s32 _) = True"
| "same_type (V_s64 _) (V_s64 _) = True"
| "same_type _ _ = False"

text \<open>
  Packing the fields of a message; the answer is the offset behind the last one, or None when a writer
  returned 0. Unpacking gives the values, or None when a reader returned 0.
\<close>

fun pack_message ::
    "packed_value list \<Rightarrow> size_t \<Rightarrow> buffer \<Rightarrow> size_t \<Rightarrow> (size_t option \<times> buffer) result" where
  "pack_message [] offset data len = Inr (Some offset, data)"
| "pack_message (v # vs) offset data len =
     r_bind (pack_value v offset data len) (\<lambda>(n, data).
       if n = 0 then Inr (None, data) else pack_message vs (offset + n) data len)"

fun unpack_message ::
    "packed_value list \<Rightarrow> size_t \<Rightarrow> buffer \<Rightarrow> size_t \<Rightarrow> packed_value list option result" where
  "unpack_message [] offset data len = Inr (Some [])"
| "unpack_message (v # vs) offset data len =
     r_bind (unpack_value v offset data len) (\<lambda>(n, e).
       if n = 0 then Inr None
       else r_bind (deref e) (\<lambda>x.
            r_bind (unpack_message vs (offset + n) data len) (\<lambda>xs. Inr (map_option ((#) x) xs))))"

section \<open>One field\<close>

fun value_bytes :: "packed_value \<Rightarrow> uint8_t list" where
  "value_bytes (V_bool v) = bool_bytes v"
| "value_bytes (V_u8 v) = le_bytes 1 v"
| "value_bytes (V_u16 v) = le_bytes 2 v"
| "value_bytes (V_u32 v) = le_bytes 4 v"
| "value_bytes (V_u64 v) = le_bytes 8 v"
| "value_bytes (V_s8 v) = le_bytes 1 v"
| "value_bytes (V_s16 v) = le_bytes 2 v"
| "value_bytes (V_s32 v) = le_bytes 4 v"
| "value_bytes (V_s64 v) = le_bytes 8 v"

abbreviation value_width :: "packed_value \<Rightarrow> nat" where
  "value_width v \<equiv> length (value_bytes v)"

lemma value_width_range: "0 < value_width v \<and> value_width v \<le> 8"
  by (cases v) (simp_all add: bool_bytes_def)

lemma same_type_width: "same_type v w \<Longrightarrow> value_width v = value_width w"
  by (cases v; cases w) (simp_all add: bool_bytes_def)

lemmas fields_fit = u8.pack_fits u16.pack_fits u32.pack_fits u64.pack_fits s8.pack_fits s16.pack_fits
  s32.pack_fits s64.pack_fits pbool.pack_fits

lemmas fields_short = u8.pack_short u16.pack_short u32.pack_short u64.pack_short s8.pack_short
  s16.pack_short s32.pack_short s64.pack_short pbool.pack_short

lemmas fields_read = u8.unpack_fits u16.unpack_fits u32.unpack_fits u64.unpack_fits s8.unpack_fits
  s16.unpack_fits s32.unpack_fits s64.unpack_fits pbool.unpack_fits

lemmas fields_decode = u8.dec_enc u16.dec_enc u32.dec_enc u64.dec_enc s8.dec_enc s16.dec_enc
  s32.dec_enc s64.dec_enc pbool.dec_enc

lemma pack_value_fits:
  assumes "unat offset + value_width v \<le> unat len" and "unat len \<le> length xs"
  shows "pack_value v offset (Some xs) len
    = Inr (word_of_nat (value_width v), Some (splice (unat offset) (value_bytes v) xs))"
  using assms by (cases v) (simp_all add: fields_fit bool_bytes_def del: One_nat_def)

lemma pack_value_short:
  "unat len < unat offset + value_width v \<Longrightarrow> pack_value v offset data len = Inr (0, data)"
  by (cases v) (simp_all add: fields_short bool_bytes_def)

lemma unpack_value_fits:
  assumes "unat offset + value_width v \<le> unat len" and "unat len \<le> length xs" and "same_type old v"
    and "take (value_width v) (drop (unat offset) xs) = value_bytes v"
  shows "unpack_value old offset (Some xs) len = Inr (word_of_nat (value_width v), Some v)"
proof (cases v)
  case (V_bool b)
  then show ?thesis
    using assms by (cases old) (auto simp: fields_read bool_bytes_def bytes_bool_def into_def)
qed (use assms fields_decode in \<open>cases old; simp add: fields_read into_def del: One_nat_def\<close>)+

section \<open>A whole message\<close>

definition message_bytes :: "packed_value list \<Rightarrow> uint8_t list" where
  "message_bytes vs = concat (map value_bytes vs)"

lemma message_bytes_simps [simp]:
  "message_bytes [] = []" "message_bytes (v # vs) = value_bytes v @ message_bytes vs"
  by (simp_all add: message_bytes_def)

lemma unat_width: "unat (word_of_nat (value_width v) :: size_t) = value_width v"
  and width_nz: "(word_of_nat (value_width v) :: size_t) \<noteq> 0"
proof -
  show *: "unat (word_of_nat (value_width v) :: size_t) = value_width v"
    using value_width_range [of v] by (simp add: unat_of_nat)
  show "(word_of_nat (value_width v) :: size_t) \<noteq> 0"
    using value_width_range [of v] * by (metis less_irrefl unat_0)
qed

lemma unat_next_offset:
  fixes offset len :: size_t
  assumes "unat offset + value_width v \<le> unat len"
  shows "unat (offset + word_of_nat (value_width v)) = unat offset + value_width v"
  using assms unat_size_lt [of len] unat_width [of v]
  by (simp add: unat_word_ariths(1) del: unat_size_lt)

lemma pack_message_fits:
  assumes "unat offset + length (message_bytes vs) \<le> unat len" and "unat len \<le> length xs"
  shows "pack_message vs offset (Some xs) len = Inr (Some (offset + word_of_nat (length (message_bytes vs))),
    Some (splice (unat offset) (message_bytes vs) xs))"
  using assms
proof (induction vs arbitrary: offset xs)
  case (Cons v vs)
  have fits: "unat offset + value_width v \<le> unat len" using Cons.prems by simp
  note next_offset = unat_next_offset [OF fits]
  have len: "unat offset + length (value_bytes v @ message_bytes vs) \<le> length xs" using Cons.prems by simp
  have "pack_message vs (offset + word_of_nat (value_width v)) (Some (splice (unat offset) (value_bytes v) xs)) len
    = Inr (Some (offset + word_of_nat (value_width v) + word_of_nat (length (message_bytes vs))),
        Some (splice (unat (offset + word_of_nat (value_width v))) (message_bytes vs)
          (splice (unat offset) (value_bytes v) xs)))"
    using Cons.prems len next_offset by (intro Cons.IH) simp_all
  then show ?case
    using Cons.prems(2) fits width_nz [of v] splice_append [OF len] next_offset
    by (simp add: pack_value_fits add.assoc)
qed simp

lemma unpack_message_fits:
  assumes "unat offset + length (message_bytes vs) \<le> unat len" and "unat len \<le> length xs"
    and "list_all2 same_type olds vs"
    and "take (length (message_bytes vs)) (drop (unat offset) xs) = message_bytes vs"
  shows "unpack_message olds offset (Some xs) len = Inr (Some vs)"
  using assms(3,1,2,4)
proof (induction olds vs arbitrary: offset rule: list_all2_induct)
  case (Cons old olds v vs)
  have fits: "unat offset + value_width v \<le> unat len" using Cons.prems by simp
  define ys where "ys = drop (unat offset) xs"
  have ys: "take (value_width v + length (message_bytes vs)) ys = value_bytes v @ message_bytes vs"
    using Cons.prems(3) by (simp add: ys_def)
  have "take (value_width v) ys = take (value_width v) (take (value_width v + length (message_bytes vs)) ys)"
    by (simp add: min_def)
  then have v: "take (value_width v) ys = value_bytes v" by (simp add: ys)
  have "take (length (message_bytes vs)) (drop (value_width v) ys)
      = drop (value_width v) (take (value_width v + length (message_bytes vs)) ys)"
    by (simp add: take_drop add.commute)
  then have "take (length (message_bytes vs)) (drop (value_width v) ys) = message_bytes vs"
    by (simp add: ys)
  then have "unpack_message olds (offset + word_of_nat (value_width v)) (Some xs) len = Inr (Some vs)"
    using Cons.prems unat_next_offset [OF fits] by (intro Cons.IH) (simp_all add: ys_def add.commute)
  then show ?case
    using unpack_value_fits [OF fits Cons.prems(2) Cons.hyps(1)] v width_nz [of v] by (simp add: ys_def)
qed simp

text \<open>A message that does not fit: the fields that fit are written, the first that does not ends it.\<close>

lemma pack_message_short:
  assumes "unat len < unat offset + length (message_bytes vs)" and "unat offset \<le> unat len"
    and "unat len \<le> length xs"
  shows "\<exists>ys. pack_message vs offset (Some xs) len = Inr (None, Some ys) \<and> length ys = length xs
    \<and> (\<forall>i < length xs. i < unat offset \<or> unat len \<le> i \<longrightarrow> ys ! i = xs ! i)"
  using assms
proof (induction vs arbitrary: offset xs)
  case (Cons v vs)
  show ?case
  proof (cases "unat offset + value_width v \<le> unat len")
    case True
    let ?xs = "splice (unat offset) (value_bytes v) xs"
    note next_offset = unat_next_offset [OF True]
    have len: "length ?xs = length xs" using True Cons.prems by simp
    obtain ys where ys: "pack_message vs (offset + word_of_nat (value_width v)) (Some ?xs) len = Inr (None, Some ys)"
        "length ys = length xs"
        "\<forall>i < length xs. i < unat offset + value_width v \<or> unat len \<le> i \<longrightarrow> ys ! i = ?xs ! i"
      using Cons.IH [of "offset + word_of_nat (value_width v)" ?xs] Cons.prems True len next_offset by auto
    have "ys ! i = xs ! i" if "i < length xs" "i < unat offset \<or> unat len \<le> i" for i
      using ys(3) that True Cons.prems(3) nth_splice [of "unat offset" "value_bytes v" xs i] by auto
    then show ?thesis
      using ys(1,2) True Cons.prems(3) width_nz [of v] by (simp add: pack_value_fits)
  next
    case False
    then show ?thesis using pack_value_short [of len offset v] by simp
  qed
qed simp

section \<open>Properties\<close>

text \<open>
  C22. A message of fields of any types, packed where it fits by adding up what the writers return, is read
  back field by field from the same offset: every value is recovered, the offset behind it is exact, and
  the bytes before and behind the message are as they were.
\<close>

theorem message_round_trip:
  assumes "unat offset + length (message_bytes vs) \<le> unat len" and "unat len \<le> length xs"
    and "list_all2 same_type olds vs"
  shows "\<exists>stop ys. pack_message vs offset (Some xs) len = Inr (Some stop, Some ys)
    \<and> unat stop = unat offset + length (message_bytes vs)
    \<and> unpack_message olds offset (Some ys) len = Inr (Some vs)
    \<and> length ys = length xs
    \<and> (\<forall>i < length xs. i < unat offset \<or> unat stop \<le> i \<longrightarrow> ys ! i = xs ! i)"
proof -
  let ?ys = "splice (unat offset) (message_bytes vs) xs"
    and ?stop = "offset + word_of_nat (length (message_bytes vs))"
  have fit: "unat offset + length (message_bytes vs) \<le> length xs" using assms(1,2) by simp
  have "unat offset + length (message_bytes vs) < 18446744073709551616"
    using assms(1) unat_size_lt [of len] by (simp del: unat_size_lt)
  then have "unat ?stop = unat offset + length (message_bytes vs)"
    by (simp add: unat_word_ariths(1) unat_of_nat)
  moreover have "unpack_message olds offset (Some ?ys) len = Inr (Some vs)"
    using assms fit by (intro unpack_message_fits) simp_all
  ultimately show ?thesis
    using pack_message_fits [OF assms(1,2)] fit by (auto simp: nth_splice)
qed

theorem message_round_trip_witness:
  "\<exists>stop ys. pack_message [V_bool True, V_u16 513, V_s32 (- 2)] 1 (Some (replicate 9 0)) 9 = Inr (Some stop, Some ys)
    \<and> unat stop = 8
    \<and> unpack_message [V_bool False, V_u16 0, V_s32 0] 1 (Some ys) 9
        = Inr (Some [V_bool True, V_u16 513, V_s32 (- 2)])"
  using message_round_trip [of 1 "[V_bool True, V_u16 513, V_s32 (- 2)]" 9 "replicate 9 0"
      "[V_bool False, V_u16 0, V_s32 0]"]
  by (auto simp: bool_bytes_def simp del: pack_message.simps unpack_message.simps)

text \<open>
  A message that does not fit is refused: some writer returns 0, nothing faults, and no byte in front
  of the offset or behind the end of the buffer is touched.
\<close>

theorem message_too_long:
  assumes "unat len < unat offset + length (message_bytes vs)" and "unat offset \<le> unat len"
    and "unat len \<le> length xs"
  shows "\<exists>ys. pack_message vs offset (Some xs) len = Inr (None, Some ys) \<and> length ys = length xs
    \<and> (\<forall>i < length xs. i < unat offset \<or> unat len \<le> i \<longrightarrow> ys ! i = xs ! i)"
  by (rule pack_message_short [OF assms])

theorem message_too_long_witness:
  "\<exists>ys. pack_message [V_u32 7, V_u64 9] 0 (Some (replicate 8 0)) 8 = Inr (None, Some ys) \<and> length ys = 8"
  using message_too_long [of 8 0 "[V_u32 7, V_u64 9]" "replicate 8 0"]
  by (auto simp del: pack_message.simps)

end
