(* ===== verification/Le_Canonical.thy ===== *)
theory Le_Canonical
  imports Le_Pack
begin

text \<open>
  The other direction of the round trips of \<open>src/struct_pack/le_pack.c\<close>: every sequence of bytes is the
  encoding of a value of each integer type, so what is read from a buffer and written back does
  not change it, and reading loses nothing. Booleans are different: a byte that is neither 0 nor 1 is
  read as false and written back as 0. The second part is what the signed readers do in ISO C.
\<close>

section \<open>Codecs that lose nothing\<close>

locale exact_codec = codec +
  assumes enc_dec: "length bs = unat width \<Longrightarrow> enc (dec bs) = bs"
begin

lemma unpack_all_chunks:
  assumes "unat offset + k * unat width \<le> unat data_len" and "unat data_len \<le> length xs"
  shows "\<exists>vs. unpack_all unpack old k offset (Some xs) data_len = Inr vs \<and> length vs = k
    \<and> concat (map enc vs) = take (k * unat width) (drop (unat offset) xs)"
  using assms
proof (induction k arbitrary: offset)
  case (Suc k)
  have fits: "unat offset + unat width \<le> unat data_len" using Suc.prems by simp
  let ?bs = "take (unat width) (drop (unat offset) xs)"
  obtain vs where vs: "unpack_all unpack old k (offset + width) (Some xs) data_len = Inr vs" "length vs = k"
      "concat (map enc vs) = take (k * unat width) (drop (unat offset + unat width) xs)"
    using Suc.IH [of "offset + width"] Suc.prems by (auto simp: unat_advance [OF fits])
  have "enc (dec ?bs) = ?bs" using fits Suc.prems(2) by (intro enc_dec) simp
  then have "concat (map enc (dec ?bs # vs)) = take (Suc k * unat width) (drop (unat offset) xs)"
    using vs(3) by (simp add: take_add add.commute)
  then show ?case using vs fits Suc.prems(2) by (simp add: unpack_fits)
qed simp

lemma rewrite_identity:
  assumes "unat offset + k * unat width \<le> unat data_len" and "unat data_len \<le> length xs"
  shows "r_bind (unpack_all unpack old k offset (Some xs) data_len) (\<lambda>vs.
      pack_all pack vs offset (Some xs) data_len) = Inr (Some xs)"
proof -
  obtain vs where vs: "unpack_all unpack old k offset (Some xs) data_len = Inr vs" "length vs = k"
      "concat (map enc vs) = take (k * unat width) (drop (unat offset) xs)"
    using unpack_all_chunks [OF assms, of old] by blast
  have "splice (unat offset) (take (k * unat width) (drop (unat offset) xs)) xs = xs"
    using assms by (intro nth_equalityI) (auto simp: nth_splice)
  then show ?thesis using vs assms by (simp add: pack_all_splice)
qed

end

lemma le_bytes_le_word:
  "8 * length bs \<le> LENGTH('a) \<Longrightarrow> le_bytes (length bs) (le_word bs :: 'a::len word) = bs"
proof (induction bs)
  case (Cons b bs)
  let ?w = "le_word bs :: 'a word" and ?v = "ucast b :: 'a word"
  have or: "?v + push_bit 8 ?w = ?v OR push_bit 8 ?w"
    by (rule disjunctive_add_eq_or) (auto simp: bit_eq_iff bit_simps dest: bit_imp_le_length)
  have small: "\<not> bit ?w i" if "8 * length bs \<le> i" for i
  proof -
    have "uint ?w < 2 ^ (8 * length bs)" using uint_le_word [of bs, where 'a = 'a] Cons.prems by simp
    then have "uint (take_bit (8 * length bs) ?w) = uint ?w"
      by (simp add: unsigned_take_bit_eq take_bit_int_eq_self)
    then have "take_bit (8 * length bs) ?w = ?w" by (rule unsigned_word_eqI)
    then show ?thesis using that by (metis bit_take_bit_iff not_le)
  qed
  have "(ucast (?v + push_bit 8 ?w) :: uint8_t) = b"
    unfolding or using Cons.prems by (auto intro!: bit_eqI simp: bit_simps dest: bit_imp_le_length)
  moreover have "drop_bit 8 (?v + push_bit 8 ?w) = ?w"
  proof (rule bit_eqI)
    fix i
    have "\<not> bit b (8 + i)" using bit_imp_le_length [of b "8 + i"] by auto
    moreover have "8 + i < LENGTH('a)" if "bit ?w i"
      using small [of i] that Cons.prems by (cases "8 * length bs \<le> i") auto
    ultimately show "bit (drop_bit 8 (?v + push_bit 8 ?w)) i = bit ?w i"
      unfolding or by (auto simp: bit_simps)
  qed
  ultimately show ?case using Cons by simp
qed simp

lemma le_bytes_exact:
  "length bs = unat (n :: size_t) \<Longrightarrow> unat n = m \<Longrightarrow> 8 * m = LENGTH('a) \<Longrightarrow>
    le_bytes m (le_word bs :: 'a::len word) = bs"
  using le_bytes_le_word [of bs, where 'a = 'a] by auto

text \<open>The integer types, all of whose bits are bytes.\<close>

interpretation xu8: exact_codec le_pack_u8 le_unpack_u8 1 "le_bytes 1" le_word
  by unfold_locales (rule le_bytes_exact, assumption, simp_all)

interpretation xu16: exact_codec le_pack_u16 le_unpack_u16 2 "le_bytes 2" le_word
  by unfold_locales (rule le_bytes_exact, assumption, simp_all)

interpretation xu32: exact_codec le_pack_u32 le_unpack_u32 4 "le_bytes 4" le_word
  by unfold_locales (rule le_bytes_exact, assumption, simp_all)

interpretation xu64: exact_codec le_pack_u64 le_unpack_u64 8 "le_bytes 8" le_word
  by unfold_locales (rule le_bytes_exact, assumption, simp_all)

interpretation xs8: exact_codec le_pack_s8 "le_unpack_s8 GNU_C" 1 "le_bytes 1" le_word
  by unfold_locales (rule le_bytes_exact, assumption, simp_all)

interpretation xs16: exact_codec le_pack_s16 "le_unpack_s16 d" 2 "le_bytes 2" le_word
  for d
  by unfold_locales (rule le_bytes_exact, assumption, simp_all)

interpretation xs32: exact_codec le_pack_s32 "le_unpack_s32 GNU_C" 4 "le_bytes 4" le_word
  by unfold_locales (rule le_bytes_exact, assumption, simp_all)

interpretation xs64: exact_codec le_pack_s64 "le_unpack_s64 GNU_C" 8 "le_bytes 8" le_word
  by unfold_locales (rule le_bytes_exact, assumption, simp_all)

section \<open>The signed readers in ISO C\<close>

lemma sint_byte_neg: "sint (b :: uint8_t) < 0 \<longleftrightarrow> 128 \<le> b"
proof -
  have half: "odd (i div 128) \<longleftrightarrow> 128 \<le> i" if "0 \<le> i" "i < 256" for i :: int using that by presburger
  have "sint b < 0 \<longleftrightarrow> bit b 7" using bit_last_iff [of b] by simp
  also have "\<dots> \<longleftrightarrow> bit (uint b) 7" by (simp add: bit_uint_iff)
  also have "\<dots> \<longleftrightarrow> 128 \<le> uint b" using half [of "uint b"] uint_lt2p [of b] by (simp add: bit_iff_odd)
  finally show ?thesis by (simp add: word_le_def)
qed

lemma le_unpack_s8_iso:
  assumes "unat offset + 1 \<le> unat data_len" "unat data_len \<le> length xs"
  shows "le_unpack_s8 ISO_C (Some old) offset (Some xs) data_len
    = (if 128 \<le> xs ! unat offset then Inl Signed_overflow
       else le_unpack_s8 GNU_C (Some old) offset (Some xs) data_len)"
proof -
  have "sint (scast (b :: uint8_t) :: int32_t) = sint b" for b
    using sint_lt [of b] sint_ge [of b] by (simp add: signed_scast_eq signed_take_bit_int_eq_self)
  moreover have "\<not> 2147483648 \<le> sint (b :: uint8_t)" for b using sint_lt [of b] by simp
  ultimately show ?thesis
    using assms by (simp add: le_unpack_s8_def within_buffer_iff pack_sizes arr_get_def shl_signed_def
        sint_byte_neg)
qed

lemma le_unpack_s64_iso:
  assumes "unat offset + 8 \<le> unat data_len" "unat data_len \<le> length xs"
  shows "le_unpack_s64 ISO_C (Some old) offset (Some xs) data_len
    = (if 128 \<le> xs ! (unat offset + 7) then Inl Signed_overflow
       else le_unpack_s64 GNU_C (Some old) offset (Some xs) data_len)"
proof -
  define ds where "ds = take 8 (drop (unat offset) xs)"
  obtain a b c d e f g h where ds: "ds = [a, b, c, d, e, f, g, h]"
    using eight_bytes [of ds] assms by (auto simp: ds_def)
  have h: "xs ! (unat offset + 7) = h"
    using arg_cong [OF ds, of "\<lambda>l. l ! 7"] assms by (simp add: ds_def)
  note get = arr_get_window [OF ds_def assms]
  show ?thesis using assms get [of 0] get [of 1] get [of 2] get [of 3] get [of 4] get [of 5] get [of 6] get [of 7]
    by (simp add: le_unpack_s64_def within_buffer_iff pack_sizes ds h add_chain64
        shl_signed_low shl_signed_low [of 0, simplified] shl_signed_top)
qed

section \<open>Properties\<close>

text \<open>
  C25. Reading and writing back changes nothing: any number of elements of an integer type read from
  a buffer at an offset where they lie inside it, whatever its bytes are, and written to the same place
  leave the buffer as it was. So every sequence of bytes stands for a value and no two for the same.
\<close>

theorem le_unpack_pack_identity:
  assumes "unat data_len \<le> length xs"
  shows "(unat offset + k \<le> unat data_len \<longrightarrow>
      r_bind (unpack_all le_unpack_u8 old8 k offset (Some xs) data_len) (\<lambda>vs.
        pack_all le_pack_u8 vs offset (Some xs) data_len) = Inr (Some xs)
      \<and> r_bind (unpack_all (le_unpack_s8 GNU_C) old8 k offset (Some xs) data_len) (\<lambda>vs.
        pack_all le_pack_s8 vs offset (Some xs) data_len) = Inr (Some xs))
    \<and> (unat offset + k * 2 \<le> unat data_len \<longrightarrow>
      r_bind (unpack_all le_unpack_u16 old16 k offset (Some xs) data_len) (\<lambda>vs.
        pack_all le_pack_u16 vs offset (Some xs) data_len) = Inr (Some xs)
      \<and> r_bind (unpack_all (le_unpack_s16 dialect) old16 k offset (Some xs) data_len) (\<lambda>vs.
        pack_all le_pack_s16 vs offset (Some xs) data_len) = Inr (Some xs))
    \<and> (unat offset + k * 4 \<le> unat data_len \<longrightarrow>
      r_bind (unpack_all le_unpack_u32 old32 k offset (Some xs) data_len) (\<lambda>vs.
        pack_all le_pack_u32 vs offset (Some xs) data_len) = Inr (Some xs)
      \<and> r_bind (unpack_all (le_unpack_s32 GNU_C) old32 k offset (Some xs) data_len) (\<lambda>vs.
        pack_all le_pack_s32 vs offset (Some xs) data_len) = Inr (Some xs))
    \<and> (unat offset + k * 8 \<le> unat data_len \<longrightarrow>
      r_bind (unpack_all le_unpack_u64 old64 k offset (Some xs) data_len) (\<lambda>vs.
        pack_all le_pack_u64 vs offset (Some xs) data_len) = Inr (Some xs)
      \<and> r_bind (unpack_all (le_unpack_s64 GNU_C) old64 k offset (Some xs) data_len) (\<lambda>vs.
        pack_all le_pack_s64 vs offset (Some xs) data_len) = Inr (Some xs))"
  using xu8.rewrite_identity [of offset k data_len xs old8] xs8.rewrite_identity [of offset k data_len xs old8]
    xu16.rewrite_identity [of offset k data_len xs old16] xs16.rewrite_identity [of offset k data_len xs dialect old16]
    xu32.rewrite_identity [of offset k data_len xs old32] xs32.rewrite_identity [of offset k data_len xs old32]
    xu64.rewrite_identity [of offset k data_len xs old64] xs64.rewrite_identity [of offset k data_len xs old64] assms
  by (simp del: r_bind_eq_Inr)

theorem le_unpack_pack_identity_witness:
  "r_bind (unpack_all (le_unpack_s32 GNU_C) 0 2 1 (Some [9, 1, 2, 3, 0xFF, 5, 6, 7, 8]) 9) (\<lambda>vs.
     pack_all le_pack_s32 vs 1 (Some [9, 1, 2, 3, 0xFF, 5, 6, 7, 8]) 9) = Inr (Some [9, 1, 2, 3, 0xFF, 5, 6, 7, 8])"
  using le_unpack_pack_identity [of 9 "[9, 1, 2, 3, 0xFF, 5, 6, 7, 8]" 1 2 _ _ ISO_C 0]
  by (simp del: r_bind_eq_Inr)

text \<open>
  C40. In ISO C the signed readers of 8, 32 and 64 bits are undefined exactly for the values whose sign bit is
  set, because they shift a negative value or a byte into the sign bit; for all other values they agree with
  GNU C. The reader of 16 bits, whose operands are promoted, is defined for all values.
\<close>

theorem signed_readers_in_iso_c:
  assumes "unat data_len \<le> length xs"
  shows "(unat offset + 1 \<le> unat data_len \<longrightarrow> le_unpack_s8 ISO_C (Some old8) offset (Some xs) data_len
      = (if 128 \<le> xs ! unat offset then Inl Signed_overflow
         else le_unpack_s8 GNU_C (Some old8) offset (Some xs) data_len))
    \<and> (unat offset + 2 \<le> unat data_len \<longrightarrow> le_unpack_s16 ISO_C (Some old16) offset (Some xs) data_len
      = le_unpack_s16 GNU_C (Some old16) offset (Some xs) data_len)
    \<and> (unat offset + 4 \<le> unat data_len \<longrightarrow> le_unpack_s32 ISO_C (Some old32) offset (Some xs) data_len
      = (if 128 \<le> xs ! (unat offset + 3) then Inl Signed_overflow
         else le_unpack_s32 GNU_C (Some old32) offset (Some xs) data_len))
    \<and> (unat offset + 8 \<le> unat data_len \<longrightarrow> le_unpack_s64 ISO_C (Some old64) offset (Some xs) data_len
      = (if 128 \<le> xs ! (unat offset + 7) then Inl Signed_overflow
         else le_unpack_s64 GNU_C (Some old64) offset (Some xs) data_len))"
  by (intro conjI impI le_unpack_s8_iso le_unpack_s32_iso le_unpack_s64_iso assms)
     (simp_all only: le_unpack_s16_loads [OF _ assms])

theorem signed_readers_in_iso_c_witness:
  "le_unpack_s8 ISO_C (Some 0) 0 (Some [0x80]) 1 = Inl Signed_overflow"
  using signed_readers_in_iso_c [of 1 "[0x80]" 0 0] by simp

end
