(* ===== verification/Message_Decoder.thy ===== *)
theory Message_Decoder
  imports Pack_Message Le_Canonical
begin

text \<open>
  Reading a message from bytes that nobody vouches for: the readers of \<open>src/struct_pack/le_pack.c\<close> called one
  after the other, as in \<open>Pack_Message\<close>, on arbitrary contents of the buffer.
\<close>

text \<open>
  The value that the bytes of a field stand for. An integer is the one whose encoding they are; a boolean is true for
  the byte 1 and false for every other byte, also for those that are never written.
\<close>

fun decodes_to :: "packed_value \<Rightarrow> uint8_t list \<Rightarrow> packed_value \<Rightarrow> bool" where
  "decodes_to (V_bool _) bs v \<longleftrightarrow> v = V_bool (bs = [1])"
| "decodes_to old bs v \<longleftrightarrow> same_type old v \<and> value_bytes v = bs"

fun message_decodes_to :: "packed_value list \<Rightarrow> uint8_t list \<Rightarrow> packed_value list \<Rightarrow> bool" where
  "message_decodes_to [] bs [] \<longleftrightarrow> bs = []"
| "message_decodes_to (old # olds) bs (v # vs) \<longleftrightarrow> decodes_to old (take (value_width old) bs) v
     \<and> message_decodes_to olds (drop (value_width old) bs) vs"
| "message_decodes_to _ _ _ \<longleftrightarrow> False"

lemmas fields_exact = xu8.enc_dec xu16.enc_dec xu32.enc_dec xu64.enc_dec xs8.enc_dec xs16.enc_dec
  xs32.enc_dec xs64.enc_dec

lemmas fields_refuse = u8.unpack_short u16.unpack_short u32.unpack_short u64.unpack_short s8.unpack_short
  s16.unpack_short s32.unpack_short s64.unpack_short pbool.unpack_short

lemma decode_value:
  assumes "unat offset + value_width old \<le> unat len" and "unat len \<le> length xs"
  shows "\<exists>v. unpack_value old offset (Some xs) len = Inr (word_of_nat (value_width old), Some v)
    \<and> decodes_to old (take (value_width old) (drop (unat offset) xs)) v"
proof -
  have len: "length (take (value_width old) (drop (unat offset) xs)) = value_width old" using assms by simp
  show ?thesis
  proof (cases old)
    case (V_bool b)
    then have "unat offset < length xs" using assms by (simp add: bool_bytes_def)
    then obtain y ys where "drop (unat offset) xs = y # ys" using Cons_nth_drop_Suc by metis
    then show ?thesis
      using V_bool assms by (simp add: fields_read into_def bool_bytes_def bytes_bool_def)
  qed (use len assms in \<open>simp_all add: fields_read fields_exact into_def del: One_nat_def le_bytes_numeral\<close>)
qed

lemma decode_value_short:
  "unat len < unat offset + value_width old \<Longrightarrow> unpack_value old offset data len = Inr (0, Some old)"
  by (cases old) (simp_all add: fields_refuse into_def bool_bytes_def)

lemma decode_message:
  assumes "unat offset + length (message_bytes olds) \<le> unat len" and "unat len \<le> length xs"
  shows "\<exists>vs. unpack_message olds offset (Some xs) len = Inr (Some vs)
    \<and> message_decodes_to olds (take (length (message_bytes olds)) (drop (unat offset) xs)) vs"
  using assms
proof (induction olds arbitrary: offset)
  case (Cons old olds)
  have fits: "unat offset + value_width old \<le> unat len" using Cons.prems by simp
  note next_offset = unat_next_offset [OF fits]
  obtain v where v: "unpack_value old offset (Some xs) len = Inr (word_of_nat (value_width old), Some v)"
      "decodes_to old (take (value_width old) (drop (unat offset) xs)) v"
    using decode_value [OF fits Cons.prems(2)] by blast
  obtain vs where vs: "unpack_message olds (offset + word_of_nat (value_width old)) (Some xs) len = Inr (Some vs)"
      "message_decodes_to olds (take (length (message_bytes olds)) (drop (unat offset + value_width old) xs)) vs"
    using Cons.IH [of "offset + word_of_nat (value_width old)"] Cons.prems next_offset by auto
  show ?case using v vs width_nz [of old] by (simp add: drop_take add.commute)
qed simp

lemma decode_message_short:
  assumes "unat len < unat offset + length (message_bytes olds)" and "unat offset \<le> unat len"
    and "unat len \<le> length xs"
  shows "unpack_message olds offset (Some xs) len = Inr None"
  using assms
proof (induction olds arbitrary: offset)
  case (Cons old olds)
  show ?case
  proof (cases "unat offset + value_width old \<le> unat len")
    case True
    then show ?thesis
      using decode_value [OF True Cons.prems(3)] Cons.IH [of "offset + word_of_nat (value_width old)"]
        Cons.prems unat_next_offset [OF True] width_nz [of old] by auto
  next
    case False
    then show ?thesis using decode_value_short [of len offset old] by simp
  qed
qed simp

section \<open>Properties\<close>

text \<open>
  C14. Decoding in the GNU C dialect, of which the signed readers make use, is total: whatever the bytes of the buffer are, reading the
  fields of a message never faults and never reads outside the buffer. It is refused when the buffer ends before the
  message does, and otherwise yields for each field the value that its bytes stand for: an integer of the type of the
  field whose encoding is exactly the bytes read, or, for a boolean, true for the byte 1 and false for any other byte.
\<close>

theorem message_decoder_total:
  assumes "unat offset \<le> unat len" and "unat len \<le> length xs"
  shows "if unat offset + length (message_bytes olds) \<le> unat len
    then \<exists>vs. unpack_message olds offset (Some xs) len = Inr (Some vs)
      \<and> message_decodes_to olds (take (length (message_bytes olds)) (drop (unat offset) xs)) vs
    else unpack_message olds offset (Some xs) len = Inr None"
  using decode_message [OF _ assms(2)] decode_message_short [OF _ assms] by auto

theorem message_decoder_total_witness:
  "(\<exists>vs. unpack_message [V_s16 0, V_bool True] 1 (Some [9, 0xFF, 0x80, 3, 4]) 5 = Inr (Some vs)
      \<and> message_decodes_to [V_s16 0, V_bool True] [0xFF, 0x80, 3] vs)
   \<and> unpack_message [V_s16 0, V_u32 0] 1 (Some [9, 0xFF, 0x80, 3, 4]) 5 = Inr None"
  using message_decoder_total [of 1 5 "[9, 0xFF, 0x80, 3, 4]" "[V_s16 0, V_bool True]"]
    message_decoder_total [of 1 5 "[9, 0xFF, 0x80, 3, 4]" "[V_s16 0, V_u32 0]"]
  by (auto simp: bool_bytes_def simp del: unpack_message.simps message_decodes_to.simps)

end
