(* ===== verification/Simple_Fsm.thy ===== *)
theory Simple_Fsm
  imports Error_Codes
begin

text \<open>
  The state machine runner of \<open>src/simple_fsm/simple_fsm.c\<close>. A handler is the address of a function of
  the application; what the application's functions do is a parameter of the model: given the
  machine and the rest of the application's state they return the requested state and both
  states afterwards. The loop that resolves transitions ends whatever the handlers do.
\<close>

section \<open>Model\<close>

record SimpleFSMStateDelegates =
  on_entry_handler :: ptr
  on_event_handler :: ptr
  on_exit_handler :: ptr

record SimpleFSMConfig =
  fsm_context :: ptr
  state_delegates :: "SimpleFSMStateDelegates list option"
  state_count :: size_t
  initial_state :: size_t
  max_transition_count :: size_t

record SimpleFSM =
  started :: bool
  config :: SimpleFSMConfig
  state :: size_t
  loop_count :: size_t

record 'w handlers =
  run_entry_exit :: "ptr \<Rightarrow> ptr \<Rightarrow> SimpleFSM \<times> 'w \<Rightarrow> size_t \<times> SimpleFSM \<times> 'w"
  run_event :: "ptr \<Rightarrow> ptr \<Rightarrow> ptr \<Rightarrow> SimpleFSM \<times> 'w \<Rightarrow> size_t \<times> SimpleFSM \<times> 'w"

definition call_entry_exit ::
    "'w handlers \<Rightarrow> ptr \<Rightarrow> SimpleFSM \<Rightarrow> 'w \<Rightarrow> (size_t \<times> SimpleFSM \<times> 'w) result" where
  "call_entry_exit app f fsm w =
     (if f = NULL then Inl Null_dereference
      else Inr (run_entry_exit app f (fsm_context (config fsm)) (fsm, w)))"

definition call_event ::
    "'w handlers \<Rightarrow> ptr \<Rightarrow> ptr \<Rightarrow> SimpleFSM \<Rightarrow> 'w \<Rightarrow> (size_t \<times> SimpleFSM \<times> 'w) result" where
  "call_event app f event fsm w =
     (if f = NULL then Inl Null_dereference
      else Inr (run_event app f event (fsm_context (config fsm)) (fsm, w)))"

text \<open>
  The loop of \<open>simple_fsm_resolve_transitions\<close>. The limit flag is computed at the end of a round
  and tested at the start of the next, as in the code.
\<close>

function resolve_loop ::
    "'w handlers \<Rightarrow> size_t \<Rightarrow> size_t \<Rightarrow> bool \<Rightarrow> SimpleFSM \<Rightarrow> 'w
      \<Rightarrow> (ErrorCodes \<times> SimpleFSM \<times> 'w) result" where
  "resolve_loop app next_state transitions_count is_transition_limit_reached fsm w =
     (if next_state \<noteq> state fsm \<and> \<not> is_transition_limit_reached then
        r_bind (arr_get (state_delegates (config fsm)) (state fsm)) (\<lambda>handler.
        r_bind (call_entry_exit app (on_exit_handler handler) fsm w) (\<lambda>(on_exit_next_state, fsm, w).
        let next_requested_state =
          (if on_exit_next_state = state fsm then next_state else on_exit_next_state) in
        if next_requested_state \<ge> state_count (config fsm) then Inr (ERR_OUT_OF_BOUNDS, fsm, w)
        else
          let fsm = fsm\<lparr>state := next_requested_state\<rparr> in
          r_bind (arr_get (state_delegates (config fsm)) (state fsm)) (\<lambda>handler.
          r_bind (call_entry_exit app (on_entry_handler handler) fsm w) (\<lambda>(next_state, fsm, w).
          let transitions_count = transitions_count + 1 in
          resolve_loop app next_state transitions_count
            (transitions_count \<ge> max_transition_count (config fsm)) fsm w))))
      else Inr (if is_transition_limit_reached then ERR_TIMEOUT else ERR_NONE, fsm, w))"
  by pat_completeness auto

text \<open>A count at the top of the type is at the limit, so the count never wraps twice.\<close>

definition rounds_left :: "size_t \<Rightarrow> bool \<Rightarrow> nat" where
  "rounds_left c limit =
     (if limit then 0 else if c = - 1 then 2 ^ 64 + 1 else 2 ^ 64 - unat c)"

lemma rounds_left_less: "rounds_left (c + 1) (m \<le> c + 1) < rounds_left c False"
proof (cases "c = - 1")
  case True
  then show ?thesis by (simp add: rounds_left_def)
next
  case False
  have "m \<le> c + 1" if "c + 1 = - 1" unfolding that by (rule word_order.extremum)
  moreover have "1 + c \<noteq> 0" using False by (metis add.commute eq_neg_iff_add_eq_0)
  then have "unat (c + 1) = Suc (unat c)" by (metis unatSuc add.commute)
  ultimately show ?thesis using False unat_size_lt [of c]
    by (auto simp: rounds_left_def simp del: unat_size_lt)
qed

termination resolve_loop
  by (relation "measure (\<lambda>(_, _, c, limit, _, _). rounds_left c limit)")
     (auto simp: rounds_left_less)

declare resolve_loop.simps [simp del]

definition simple_fsm_resolve_transitions ::
    "'w handlers \<Rightarrow> SimpleFSM \<Rightarrow> size_t \<Rightarrow> 'w \<Rightarrow> (ErrorCodes \<times> SimpleFSM \<times> 'w) result" where
  "simple_fsm_resolve_transitions app fsm next_state w = resolve_loop app next_state 0 False fsm w"

definition simple_fsm_validate_config :: "SimpleFSMConfig \<Rightarrow> ErrorCodes result" where
  "simple_fsm_validate_config cfg =
     r_bind (assert_ptr (state_delegates cfg)) (\<lambda>_.
       if state_count cfg = 0 then Inr ERR_INVALID_ARG
       else if max_transition_count cfg = 0 then Inr ERR_INVALID_ARG
       else if initial_state cfg \<ge> state_count cfg then Inr ERR_INVALID_ARG
       else r_bind (for_each 0 (state_count cfg) (\<lambda>idx.
              r_bind (arr_get (state_delegates cfg) idx) (\<lambda>d.
              r_bind (r_assert (on_entry_handler d \<noteq> NULL)) (\<lambda>_.
              r_bind (r_assert (on_event_handler d \<noteq> NULL)) (\<lambda>_.
              r_assert (on_exit_handler d \<noteq> NULL)))))) (\<lambda>_.
            Inr ERR_NONE))"

definition simple_fsm_get_current_state :: "SimpleFSM option \<Rightarrow> size_t result" where
  "simple_fsm_get_current_state fsm = r_bind (assert_ptr fsm) (\<lambda>f. Inr (state f))"

definition simple_fsm_init ::
    "SimpleFSM option \<Rightarrow> SimpleFSMConfig option \<Rightarrow> (ErrorCodes \<times> SimpleFSM) result" where
  "simple_fsm_init fsm cfg =
     r_bind (assert_ptr fsm) (\<lambda>f.
     r_bind (assert_ptr cfg) (\<lambda>c.
     r_bind (simple_fsm_validate_config c) (\<lambda>ret.
       if ret \<noteq> ERR_NONE then Inr (ret, f)
       else
         let f = f\<lparr>config := c\<rparr>
         in Inr (ret, f\<lparr>state := initial_state (config f), started := False\<rparr>))))"

definition simple_fsm_deinit :: "SimpleFSM option \<Rightarrow> SimpleFSM result" where
  "simple_fsm_deinit fsm =
     r_bind (assert_ptr fsm) (\<lambda>f. Inr (f\<lparr>state := initial_state (config f), started := False\<rparr>))"

definition simple_fsm_start ::
    "'w handlers \<Rightarrow> SimpleFSM option \<Rightarrow> 'w \<Rightarrow> (ErrorCodes \<times> SimpleFSM \<times> 'w) result" where
  "simple_fsm_start app fsm w =
     r_bind (assert_ptr fsm) (\<lambda>f.
       if started f then Inr (ERR_NOOP, f, w)
       else
         let f = f\<lparr>started := True, state := initial_state (config f)\<rparr> in
         r_bind (arr_get (state_delegates (config f)) (state f)) (\<lambda>handler.
         r_bind (call_entry_exit app (on_entry_handler handler) f w) (\<lambda>(next_state, f, w).
         r_bind (simple_fsm_resolve_transitions app f next_state w) (\<lambda>(ret, f, w).
         Inr (ret, if ret \<noteq> ERR_NONE then f\<lparr>started := False\<rparr> else f, w)))))"

definition simple_fsm_force_stop ::
    "'w handlers \<Rightarrow> SimpleFSM option \<Rightarrow> 'w \<Rightarrow> (ErrorCodes \<times> SimpleFSM \<times> 'w) result" where
  "simple_fsm_force_stop app fsm w =
     r_bind (assert_ptr fsm) (\<lambda>f.
       if \<not> started f then Inr (ERR_NOOP, f, w)
       else
         r_bind (arr_get (state_delegates (config f)) (state f)) (\<lambda>handler.
         r_bind (call_entry_exit app (on_exit_handler handler) f w) (\<lambda>(next_state, f, w).
         let f = f\<lparr>started := False\<rparr>
         in Inr (if next_state = state f then ERR_NONE else ERR_INCOMPLETE, f, w))))"

definition simple_fsm_on_event ::
    "'w handlers \<Rightarrow> SimpleFSM option \<Rightarrow> ptr \<Rightarrow> 'w \<Rightarrow> (ErrorCodes \<times> SimpleFSM \<times> 'w) result" where
  "simple_fsm_on_event app fsm event w =
     r_bind (assert_ptr fsm) (\<lambda>f.
       if \<not> started f then Inr (ERR_NOT_INITIALISED, f, w)
       else
         r_bind (arr_get (state_delegates (config f)) (state f)) (\<lambda>handler.
         r_bind (call_event app (on_event_handler handler) event f w) (\<lambda>(next_state, f, w).
         simple_fsm_resolve_transitions app f next_state w)))"

section \<open>Reference runner\<close>

text \<open>
  The invariant of an initialised machine, and the handlers this development reasons about: they
  do not modify the machine that runs them (they may do anything else).
\<close>

definition fsm_config_ok :: "SimpleFSMConfig \<Rightarrow> bool" where
  "fsm_config_ok c \<longleftrightarrow>
     (\<exists>ds. state_delegates c = Some ds \<and> unat (state_count c) \<le> length ds
        \<and> (\<forall>d \<in> set (take (unat (state_count c)) ds).
             on_entry_handler d \<noteq> NULL \<and> on_event_handler d \<noteq> NULL \<and> on_exit_handler d \<noteq> NULL))
     \<and> max_transition_count c \<noteq> 0 \<and> initial_state c < state_count c"

definition fsm_inv :: "SimpleFSM \<Rightarrow> bool" where
  "fsm_inv f \<longleftrightarrow> fsm_config_ok (config f) \<and> state f < state_count (config f)"

definition leaves_fsm :: "'w handlers \<Rightarrow> bool" where
  "leaves_fsm app \<longleftrightarrow>
     (\<forall>h ctx f w. fst (snd (run_entry_exit app h ctx (f, w))) = f)
     \<and> (\<forall>h ev ctx f w. fst (snd (run_event app h ev ctx (f, w))) = f)"

text \<open>What the handlers of state \<open>s\<close> request and do to the rest of the state.\<close>

type_synonym 'w behaviour = "size_t \<Rightarrow> 'w \<Rightarrow> size_t \<times> 'w"

definition delegate :: "SimpleFSM \<Rightarrow> size_t \<Rightarrow> SimpleFSMStateDelegates" where
  "delegate f s = the (state_delegates (config f)) ! unat s"

definition exit_of :: "'w handlers \<Rightarrow> SimpleFSM \<Rightarrow> 'w behaviour" where
  "exit_of app f s w =
     (let r = run_entry_exit app (on_exit_handler (delegate f s)) (fsm_context (config f))
                (f\<lparr>state := s\<rparr>, w)
      in (fst r, snd (snd r)))"

definition entry_of :: "'w handlers \<Rightarrow> SimpleFSM \<Rightarrow> 'w behaviour" where
  "entry_of app f s w =
     (let r = run_entry_exit app (on_entry_handler (delegate f s)) (fsm_context (config f))
                (f\<lparr>state := s\<rparr>, w)
      in (fst r, snd (snd r)))"

definition event_of :: "'w handlers \<Rightarrow> SimpleFSM \<Rightarrow> ptr \<Rightarrow> 'w behaviour" where
  "event_of app f ev s w =
     (let r = run_event app (on_event_handler (delegate f s)) ev (fsm_context (config f))
                (f\<lparr>state := s\<rparr>, w)
      in (fst r, snd (snd r)))"

text \<open>
  The reference: with \<open>n\<close> transitions left, leave the state through its exit handler, which may
  redirect, and enter the next one; stop when a state asks to stay.
\<close>

fun spec_run ::
    "'w behaviour \<Rightarrow> 'w behaviour \<Rightarrow> size_t \<Rightarrow> nat \<Rightarrow> size_t \<Rightarrow> size_t \<Rightarrow> 'w
      \<Rightarrow> ErrorCodes \<times> size_t \<times> 'w" where
  "spec_run ex en states 0 req s w = (ERR_TIMEOUT, s, w)"
| "spec_run ex en states (Suc n) req s w =
     (if req = s then (ERR_NONE, s, w)
      else
        let (r, w1) = ex s w; t = (if r = s then req else r) in
        if t \<ge> states then (ERR_OUT_OF_BOUNDS, s, w1)
        else let (req', w2) = en t w1 in spec_run ex en states n req' t w2)"

lemma delegate_ok:
  assumes "fsm_config_ok (config f)" "s < state_count (config f)"
  shows "arr_get (state_delegates (config f)) s = Inr (delegate f s)"
    and "on_entry_handler (delegate f s) \<noteq> NULL" "on_event_handler (delegate f s) \<noteq> NULL"
    and "on_exit_handler (delegate f s) \<noteq> NULL"
proof -
  obtain ds where ds: "state_delegates (config f) = Some ds"
      "unat (state_count (config f)) \<le> length ds"
      "\<forall>d \<in> set (take (unat (state_count (config f))) ds).
         on_entry_handler d \<noteq> NULL \<and> on_event_handler d \<noteq> NULL \<and> on_exit_handler d \<noteq> NULL"
    using assms(1) by (auto simp: fsm_config_ok_def)
  have s: "unat s < unat (state_count (config f))" using assms(2) by (simp add: word_less_nat_alt)
  show "arr_get (state_delegates (config f)) s = Inr (delegate f s)"
    using ds s by (simp add: arr_get_def delegate_def)
  have "delegate f s \<in> set (take (unat (state_count (config f))) ds)"
    using ds s by (auto simp: delegate_def in_set_conv_nth intro!: exI [of _ "unat s"])
  then show "on_entry_handler (delegate f s) \<noteq> NULL" "on_event_handler (delegate f s) \<noteq> NULL"
      "on_exit_handler (delegate f s) \<noteq> NULL"
    using ds(3) by auto
qed

lemma call_entry_exit_leaves:
  assumes "leaves_fsm app" "h \<noteq> NULL"
  shows "call_entry_exit app h f w
    = Inr (fst (run_entry_exit app h (fsm_context (config f)) (f, w)), f,
           snd (snd (run_entry_exit app h (fsm_context (config f)) (f, w))))"
  using assms by (simp add: call_entry_exit_def leaves_fsm_def prod_eq_iff)

lemma call_event_leaves:
  assumes "leaves_fsm app" "h \<noteq> NULL"
  shows "call_event app h ev f w
    = Inr (fst (run_event app h ev (fsm_context (config f)) (f, w)), f,
           snd (snd (run_event app h ev (fsm_context (config f)) (f, w))))"
  using assms by (simp add: call_event_def leaves_fsm_def prod_eq_iff)

lemma behaviour_state [simp]:
  "exit_of app (f\<lparr>state := t\<rparr>) = exit_of app f" "entry_of app (f\<lparr>state := t\<rparr>) = entry_of app f"
  by (simp_all add: exit_of_def entry_of_def delegate_def fun_eq_iff)

lemma calls_of_state:
  assumes "leaves_fsm app" "fsm_inv f"
  shows "call_entry_exit app (on_exit_handler (delegate f (state f))) f w
      = Inr (fst (exit_of app f (state f) w), f, snd (exit_of app f (state f) w))"
    and "call_entry_exit app (on_entry_handler (delegate f (state f))) f w
      = Inr (fst (entry_of app f (state f) w), f, snd (entry_of app f (state f) w))"
    and "call_event app (on_event_handler (delegate f (state f))) ev f w
      = Inr (fst (event_of app f ev (state f) w), f, snd (event_of app f ev (state f) w))"
  using assms delegate_ok(2-4) [of f "state f"]
  by (simp_all add: fsm_inv_def call_entry_exit_leaves call_event_leaves exit_of_def entry_of_def
      event_of_def Let_def)

text \<open>The loop of the code is the reference runner with as many transitions as the limit allows.\<close>

lemma resolve_loop_spec:
  assumes "leaves_fsm app" "fsm_inv f"
    and "unat (max_transition_count (config f)) - unat c = n" "limit = (n = 0)"
  shows "resolve_loop app req c limit f w
    = Inr (case spec_run (exit_of app f) (entry_of app f) (state_count (config f)) n req (state f) w of
             (e, s, w') \<Rightarrow> (e, f\<lparr>state := s\<rparr>, w'))"
  using assms
proof (induction n arbitrary: f w req c limit)
  case 0
  then show ?case by (simp add: resolve_loop.simps)
next
  case (Suc n)
  have get: "arr_get (state_delegates (config f)) (state f) = Inr (delegate f (state f))"
    using Suc.prems(2) by (simp add: fsm_inv_def delegate_ok)
  show ?case
  proof (cases "req = state f")
    case True
    then show ?thesis using Suc.prems by (simp add: resolve_loop.simps)
  next
    case False
    define w1 where "w1 = snd (exit_of app f (state f) w)"
    define t where "t = (if fst (exit_of app f (state f) w) = state f then req
      else fst (exit_of app f (state f) w))"
    define g where "g = f\<lparr>state := t\<rparr>"
    show ?thesis
    proof (cases "t < state_count (config f)")
      case True
      then have g: "fsm_inv g" using Suc.prems(2) by (simp add: g_def fsm_inv_def)
      have "unat (c + 1) = Suc (unat c)"
        using Suc.prems(3) by (intro unat_Suc_size [of c "max_transition_count (config f)"]) simp
      then have lim: "unat (max_transition_count (config g)) - unat (c + 1) = n"
          "(max_transition_count (config g) \<le> c + 1) = (n = 0)"
        using Suc.prems(3) by (auto simp: g_def word_le_nat_alt)
      have "resolve_loop app req c limit f w
          = resolve_loop app (fst (entry_of app g t w1)) (c + 1)
              (max_transition_count (config g) \<le> c + 1) g (snd (entry_of app g t w1))"
        using False True Suc.prems get g calls_of_state(1) [OF Suc.prems(1,2), of w]
          calls_of_state(2) [OF Suc.prems(1) g, of w1] delegate_ok(1) [of g t]
        by (simp add: resolve_loop.simps [of _ req] t_def [symmetric] w1_def [symmetric]
            g_def [symmetric] fsm_inv_def) (simp add: g_def Let_def flip: not_less)
      also have "\<dots> = Inr (case spec_run (exit_of app g) (entry_of app g) (state_count (config g)) n
          (fst (entry_of app g t w1)) (state g) (snd (entry_of app g t w1)) of
             (e, s, w') \<Rightarrow> (e, g\<lparr>state := s\<rparr>, w'))"
        using Suc.IH [OF Suc.prems(1) g lim(1,2)] by simp
      finally show ?thesis
        using False True by (simp add: t_def [symmetric] w1_def [symmetric] case_prod_beta Let_def
            g_def not_le [symmetric])
    next
      case oob: False
      then show ?thesis
        using False Suc.prems get calls_of_state(1) [OF Suc.prems(1,2), of w]
        by (auto simp: resolve_loop.simps [of _ req] t_def w1_def case_prod_beta Let_def not_less
            split: if_splits)
    qed
  qed
qed

lemma resolve_transitions_spec:
  assumes "leaves_fsm app" "fsm_inv f"
  shows "simple_fsm_resolve_transitions app f req w
    = Inr (case spec_run (exit_of app f) (entry_of app f) (state_count (config f))
               (unat (max_transition_count (config f))) req (state f) w of
             (e, s, w') \<Rightarrow> (e, f\<lparr>state := s\<rparr>, w'))"
proof -
  have "unat (max_transition_count (config f)) \<noteq> 0"
    using assms(2) by (simp add: fsm_inv_def fsm_config_ok_def)
  then show ?thesis
    unfolding simple_fsm_resolve_transitions_def
    using resolve_loop_spec [OF assms, of 0 "unat (max_transition_count (config f))" False] by simp
qed

section \<open>What a run does\<close>

text \<open>
  A transition from \<open>s\<close> to \<open>t\<close> runs the exit handler of \<open>s\<close>, then the entry handler of \<open>t\<close>. The
  states entered during a run are its path: each is the state requested last, unless the exit
  handler of the state being left redirects to another. What is requested after the path decides
  whether the machine has settled.
\<close>

definition target :: "'w behaviour \<Rightarrow> size_t \<Rightarrow> size_t \<Rightarrow> 'w \<Rightarrow> size_t" where
  "target ex req s w = (if fst (ex s w) = s then req else fst (ex s w))"

fun legal_path ::
    "'w behaviour \<Rightarrow> 'w behaviour \<Rightarrow> size_t \<Rightarrow> size_t \<Rightarrow> size_t \<Rightarrow> 'w \<Rightarrow> size_t list \<Rightarrow> bool" where
  "legal_path ex en states req s w [] \<longleftrightarrow> True"
| "legal_path ex en states req s w (t # path) \<longleftrightarrow>
     req \<noteq> s \<and> t = target ex req s w \<and> t < states
     \<and> (case en t (snd (ex s w)) of (req', w') \<Rightarrow> legal_path ex en states req' t w' path)"

text \<open>The state, the request and the rest of the state after a path.\<close>

fun after_path ::
    "'w behaviour \<Rightarrow> 'w behaviour \<Rightarrow> size_t \<Rightarrow> size_t \<Rightarrow> 'w \<Rightarrow> size_t list \<Rightarrow> size_t \<times> size_t \<times> 'w" where
  "after_path ex en req s w [] = (s, req, w)"
| "after_path ex en req s w (t # path) =
     (case en t (snd (ex s w)) of (req', w') \<Rightarrow> after_path ex en req' t w' path)"

lemma after_path_state: "fst (after_path ex en req s w path) = last (s # path)"
  by (induction path arbitrary: req s w) (auto split: prod.splits)

lemma legal_path_states: "legal_path ex en states req s w path \<Longrightarrow> set path \<subseteq> {..<states}"
  by (induction path arbitrary: req s w) (auto split: prod.splits)

lemma spec_run_path:
  assumes "spec_run ex en states n req s w = (e, s', w')"
  shows "\<exists>path req' w1. legal_path ex en states req s w path
    \<and> after_path ex en req s w path = (s', req', w1) \<and>
    (e = ERR_NONE \<and> length path < n \<and> req' = s' \<and> w' = w1 \<or>
     e = ERR_TIMEOUT \<and> length path = n \<and> w' = w1 \<or>
     e = ERR_OUT_OF_BOUNDS \<and> length path < n \<and> req' \<noteq> s' \<and> states \<le> target ex req' s' w1
       \<and> w' = snd (ex s' w1))"
  using assms
proof (induction n arbitrary: req s w)
  case (Suc n)
  define w1 where "w1 = snd (ex s w)"
  define t where "t = target ex req s w"
  show ?case
  proof (cases "req = s \<or> states \<le> t")
    case True
    then show ?thesis using Suc.prems
      by (intro exI [of _ "[]"])
         (auto simp: w1_def t_def target_def case_prod_beta Let_def split: if_splits)
  next
    case False
    then have run: "spec_run ex en states n (fst (en t w1)) t (snd (en t w1)) = (e, s', w')"
      using Suc.prems by (simp add: case_prod_beta Let_def w1_def t_def target_def)
    have t: "req \<noteq> s" "t < states" using False by (simp_all add: not_le)
    obtain path req' w2 where path: "legal_path ex en states (fst (en t w1)) t (snd (en t w1)) path"
      "after_path ex en (fst (en t w1)) t (snd (en t w1)) path = (s', req', w2)"
      "e = ERR_NONE \<and> length path < n \<and> req' = s' \<and> w' = w2 \<or>
       e = ERR_TIMEOUT \<and> length path = n \<and> w' = w2 \<or>
       e = ERR_OUT_OF_BOUNDS \<and> length path < n \<and> req' \<noteq> s' \<and> states \<le> target ex req' s' w2
         \<and> w' = snd (ex s' w2)"
      using Suc.IH [OF run] by blast
    then show ?thesis using t
      by (intro exI [of _ "t # path"] exI [of _ req'] exI [of _ w2])
         (auto simp: w1_def t_def case_prod_beta)
  qed
qed auto

lemma spec_run_state:
  assumes "spec_run ex en states n req s w = (e, s', w')" "s < states"
  shows "s' < states"
proof -
  obtain path req' w1 where path: "legal_path ex en states req s w path"
      "after_path ex en req s w path = (s', req', w1)"
    using spec_run_path [OF assms(1)] by auto
  then have "s' = last (s # path)" using after_path_state [of ex en req s w path] by simp
  then show ?thesis using assms(2) legal_path_states [OF path(1)] last_in_set [of "s # path"] by auto
qed

text \<open>Resolving transitions keeps the invariant and the configuration and does not fault.\<close>

lemma resolve_transitions_safe:
  assumes "leaves_fsm app" "fsm_inv f"
  shows "\<exists>e g w'. simple_fsm_resolve_transitions app f req w = Inr (e, g, w')
    \<and> fsm_inv g \<and> config g = config f \<and> started g = started f"
proof -
  obtain e s w' where run: "spec_run (exit_of app f) (entry_of app f) (state_count (config f))
      (unat (max_transition_count (config f))) req (state f) w = (e, s, w')"
    by (metis prod_cases3)
  moreover have "s < state_count (config f)"
    using spec_run_state [OF run] assms(2) by (simp add: fsm_inv_def)
  ultimately show ?thesis using assms by (simp add: resolve_transitions_spec fsm_inv_def)
qed

section \<open>Histories of calls\<close>

datatype fsm_op = Op_start | Op_event ptr | Op_force_stop | Op_deinit

fun fsm_apply ::
    "'w handlers \<Rightarrow> fsm_op \<Rightarrow> SimpleFSM \<times> 'w \<Rightarrow> (ErrorCodes \<times> SimpleFSM \<times> 'w) result" where
  "fsm_apply app Op_start (f, w) = simple_fsm_start app (Some f) w"
| "fsm_apply app (Op_event ev) (f, w) = simple_fsm_on_event app (Some f) ev w"
| "fsm_apply app Op_force_stop (f, w) = simple_fsm_force_stop app (Some f) w"
| "fsm_apply app Op_deinit (f, w) =
     r_bind (simple_fsm_deinit (Some f)) (\<lambda>f. Inr (ERR_NONE, f, w))"

inductive fsm_reachable :: "'w handlers \<Rightarrow> SimpleFSMConfig \<Rightarrow> SimpleFSM \<times> 'w \<Rightarrow> bool"
  for app c where
  reach_init: "simple_fsm_init (Some f0) (Some c) = Inr (ERR_NONE, f) \<Longrightarrow> fsm_reachable app c (f, w)"
| reach_step: "fsm_reachable app c s \<Longrightarrow> fsm_apply app op s = Inr (e, s') \<Longrightarrow> fsm_reachable app c s'"

lemma start_eq:
  assumes "leaves_fsm app" "fsm_inv f" "\<not> started f"
  defines "g \<equiv> f\<lparr>started := True, state := initial_state (config f)\<rparr>"
  shows "simple_fsm_start app (Some f) w
    = r_bind (simple_fsm_resolve_transitions app g (fst (entry_of app g (state g) w))
        (snd (entry_of app g (state g) w)))
        (\<lambda>(ret, h, w). Inr (ret, if ret \<noteq> ERR_NONE then h\<lparr>started := False\<rparr> else h, w))"
proof -
  have g: "fsm_inv g" using assms(2) by (simp add: g_def fsm_inv_def fsm_config_ok_def)
  then have "arr_get (state_delegates (config g)) (state g) = Inr (delegate g (state g))"
    by (simp add: fsm_inv_def delegate_ok(1))
  then show ?thesis
    using calls_of_state(2) [OF assms(1) g, of w] assms(3)
    by (simp add: simple_fsm_start_def g_def [symmetric] Let_def)
qed

lemma on_event_eq:
  assumes "leaves_fsm app" "fsm_inv f" "started f"
  shows "simple_fsm_on_event app (Some f) ev w
    = simple_fsm_resolve_transitions app f (fst (event_of app f ev (state f) w))
        (snd (event_of app f ev (state f) w))"
  using calls_of_state(3) [OF assms(1,2), of ev w] assms(2,3)
  by (simp add: simple_fsm_on_event_def fsm_inv_def delegate_ok(1))

lemma force_stop_eq:
  assumes "leaves_fsm app" "fsm_inv f" "started f"
  shows "simple_fsm_force_stop app (Some f) w
    = Inr (if fst (exit_of app f (state f) w) = state f then ERR_NONE else ERR_INCOMPLETE,
           f\<lparr>started := False\<rparr>, snd (exit_of app f (state f) w))"
  using calls_of_state(1) [OF assms(1,2), of w] assms(2,3)
  by (simp add: simple_fsm_force_stop_def fsm_inv_def delegate_ok(1))

lemma fsm_apply_safe:
  assumes "leaves_fsm app" "fsm_inv f"
  shows "\<exists>e g w'. fsm_apply app op (f, w) = Inr (e, g, w') \<and> fsm_inv g \<and> config g = config f"
proof (cases op)
  case Op_start
  define g where "g = f\<lparr>started := True, state := initial_state (config f)\<rparr>"
  have g: "fsm_inv g" using assms(2) by (simp add: g_def fsm_inv_def fsm_config_ok_def)
  obtain e h w' where "simple_fsm_resolve_transitions app g (fst (entry_of app g (state g) w))
        (snd (entry_of app g (state g) w)) = Inr (e, h, w')" "fsm_inv h" "config h = config g"
    using resolve_transitions_safe [OF assms(1) g] by metis
  then have "simple_fsm_start app (Some f) w
      = Inr (e, if e \<noteq> ERR_NONE then h\<lparr>started := False\<rparr> else h, w')" "config h = config f"
    if "\<not> started f"
    using start_eq [OF assms that, of w] by (simp_all add: g_def)
  then show ?thesis
    using Op_start assms(2) \<open>fsm_inv h\<close>
    by (cases "started f") (simp add: simple_fsm_start_def, simp add: fsm_inv_def)
next
  case (Op_event ev)
  then show ?thesis
    using assms on_event_eq [OF assms, of ev w]
      resolve_transitions_safe [OF assms, of "fst (event_of app f ev (state f) w)"
        "snd (event_of app f ev (state f) w)"]
    by (cases "started f") (auto simp: simple_fsm_on_event_def)
next
  case Op_force_stop
  then show ?thesis
    using assms(2) force_stop_eq [OF assms, of w]
    by (cases "started f") (simp add: fsm_inv_def, simp add: simple_fsm_force_stop_def)
next
  case Op_deinit
  then show ?thesis using assms(2)
    by (simp add: simple_fsm_deinit_def fsm_inv_def fsm_config_ok_def)
qed

lemma init_inv:
  assumes "state_delegates c = Some ds" "unat (state_count c) \<le> length ds"
    and "simple_fsm_init (Some f0) (Some c) = Inr (ERR_NONE, f)"
  shows "fsm_inv f \<and> config f = c \<and> state f = initial_state c \<and> \<not> started f"
proof -
  have v: "simple_fsm_validate_config c = Inr ERR_NONE"
    and "f = f0\<lparr>config := c, state := initial_state c, started := False\<rparr>"
    using assms(3) by (auto simp: simple_fsm_init_def Let_def split: if_splits)
  then have f: "config f = c" "state f = initial_state c" "\<not> started f" by simp_all
  from v have c: "max_transition_count c \<noteq> 0" "initial_state c < state_count c"
    and all: "\<And>i. i < state_count c \<Longrightarrow> on_entry_handler (ds ! unat i) \<noteq> NULL
      \<and> on_event_handler (ds ! unat i) \<noteq> NULL \<and> on_exit_handler (ds ! unat i) \<noteq> NULL"
    using assms(1,2) by (auto simp: simple_fsm_validate_config_def for_each_iff arr_get_def
        word_less_nat_alt word_le_nat_alt split: if_splits)
  have "on_entry_handler d \<noteq> NULL \<and> on_event_handler d \<noteq> NULL \<and> on_exit_handler d \<noteq> NULL"
    if d: "d \<in> set (take (unat (state_count c)) ds)" for d
  proof -
    obtain k where k: "k < unat (state_count c)" "d = ds ! k"
      using d assms(2) by (auto simp: in_set_conv_nth)
    then have "unat (of_nat k :: size_t) = k"
      using unat_size_lt [of "state_count c"]
      by (simp add: unsigned_of_nat take_bit_nat_eq_self del: unat_size_lt)
    then show ?thesis using all [of "of_nat k"] k by (simp add: word_less_nat_alt)
  qed
  then show ?thesis
    using c f assms(1,2) by (simp add: fsm_inv_def fsm_config_ok_def)
qed

lemma reachable_inv:
  assumes "fsm_reachable app c s" "leaves_fsm app"
    and "state_delegates c = Some ds" "unat (state_count c) \<le> length ds"
  shows "fsm_inv (fst s) \<and> config (fst s) = c"
  using assms(1)
proof (induction rule: fsm_reachable.induct)
  case (reach_init f0 f w)
  then show ?case using init_inv [OF assms(3,4)] by simp
next
  case (reach_step s op e s')
  then show ?case using fsm_apply_safe [OF assms(2), of "fst s" op "snd s"] by auto
qed

section \<open>A machine with two states\<close>

text \<open>
  An application for concrete runs: its handlers write their address into a log; entry and exit
  handlers ask to stay, the event handler asks for the state that the event stands for.
\<close>

definition echo_app :: "ptr list handlers" where
  "echo_app =
     \<lparr>run_entry_exit = (\<lambda>h ctx (f, w). (state f, f, w @ [h])),
      run_event = (\<lambda>h ev ctx (f, w). (ev, f, w @ [h]))\<rparr>"

definition two_states :: "size_t \<Rightarrow> SimpleFSMConfig" where
  "two_states n =
     \<lparr>fsm_context = 0,
      state_delegates =
        Some [\<lparr>on_entry_handler = 1, on_event_handler = 2, on_exit_handler = 3\<rparr>,
              \<lparr>on_entry_handler = 4, on_event_handler = 5, on_exit_handler = 6\<rparr>],
      state_count = 2, initial_state = 0, max_transition_count = n\<rparr>"

definition two_state_fsm :: "size_t \<Rightarrow> bool \<Rightarrow> SimpleFSM" where
  "two_state_fsm n run = \<lparr>started = run, config = two_states n, state = 0, loop_count = 0\<rparr>"

lemma echo_leaves: "leaves_fsm echo_app"
  by (simp add: leaves_fsm_def echo_app_def)

lemma two_state_inv: "n \<noteq> 0 \<Longrightarrow> fsm_inv (two_state_fsm n run)"
  by (simp add: fsm_inv_def fsm_config_ok_def two_state_fsm_def two_states_def)

lemmas two_state_simps = two_state_fsm_def two_states_def echo_app_def exit_of_def entry_of_def
  event_of_def delegate_def

section \<open>Properties\<close>

text \<open>
  C19. For handlers that do not modify the machine, resolving transitions is the reference runner
  with \<open>max_transition_count\<close> transitions: same result code, same final state, same effects.
\<close>

theorem fsm_resolve_is_reference:
  assumes "leaves_fsm app" and "fsm_inv f"
  shows "simple_fsm_resolve_transitions app f req w
    = Inr (case spec_run (exit_of app f) (entry_of app f) (state_count (config f))
               (unat (max_transition_count (config f))) req (state f) w of
             (e, s, w') \<Rightarrow> (e, f\<lparr>state := s\<rparr>, w'))"
  by (rule resolve_transitions_spec [OF assms])

theorem fsm_resolve_is_reference_witness:
  "simple_fsm_resolve_transitions echo_app (two_state_fsm 5 True) 1 []
    = Inr (ERR_NONE, (two_state_fsm 5 True)\<lparr>state := 1\<rparr>, [3, 4])"
proof -
  define f where "f = two_state_fsm 5 True"
  define k :: nat where "k = 3"
  have n: "unat (max_transition_count (config f)) = Suc (Suc k)"
    by (simp add: f_def two_state_fsm_def two_states_def k_def)
  have s: "state f = 0" "state_count (config f) = 2"
    by (simp_all add: f_def two_state_fsm_def two_states_def)
  have "exit_of echo_app f 0 [] = (0, [3])" "entry_of echo_app f 1 [3] = (1, [3, 4])"
    by (simp_all add: f_def two_state_simps Let_def)
  then show ?thesis
    using fsm_resolve_is_reference [OF echo_leaves two_state_inv, of 5 True 1 "[]"]
    unfolding f_def [symmetric] n s by (simp add: word_le_nat_alt)
qed

text \<open>
  C8. Handling an event runs the event handler of the current state and then a path of transitions.
  Each transition goes where the machine was sent and runs the exit handler of the state it leaves,
  then the entry handler of the state it enters. The result is \<open>ERR_NONE\<close> when the machine has
  settled (the last request is the state it is in) after fewer than \<open>max_transition_count\<close>
  transitions, \<open>ERR_TIMEOUT\<close> when it made that many, and \<open>ERR_OUT_OF_BOUNDS\<close> when, after one more
  exit handler, it was sent to a state outside the machine, which it does not enter.
\<close>

theorem fsm_event_path:
  assumes "leaves_fsm app" and "fsm_inv f" and "started f"
  shows "\<exists>e g w' path req w1. simple_fsm_on_event app (Some f) ev w = Inr (e, g, w') \<and> fsm_inv g
    \<and> (let ex = exit_of app f; en = entry_of app f; states = state_count (config f);
           n = unat (max_transition_count (config f));
           (req0, w0) = event_of app f ev (state f) w
       in legal_path ex en states req0 (state f) w0 path
          \<and> after_path ex en req0 (state f) w0 path = (state g, req, w1)
          \<and> (e = ERR_NONE \<and> length path < n \<and> req = state g \<and> w' = w1
             \<or> e = ERR_TIMEOUT \<and> length path = n \<and> w' = w1
             \<or> e = ERR_OUT_OF_BOUNDS \<and> length path < n \<and> req \<noteq> state g
                 \<and> states \<le> target ex req (state g) w1 \<and> w' = snd (ex (state g) w1)))"
proof -
  obtain req0 w0 where ev: "event_of app f ev (state f) w = (req0, w0)" by fastforce
  obtain e s w' where run: "spec_run (exit_of app f) (entry_of app f) (state_count (config f))
      (unat (max_transition_count (config f))) req0 (state f) w0 = (e, s, w')"
    by (metis prod_cases3)
  have lt: "state f < state_count (config f)" using assms(2) by (simp add: fsm_inv_def)
  have call: "simple_fsm_on_event app (Some f) ev w = Inr (e, f\<lparr>state := s\<rparr>, w')"
    using on_event_eq [OF assms] resolve_transitions_spec [OF assms(1,2)] run by (simp add: ev)
  have "fsm_inv (f\<lparr>state := s\<rparr>)"
    using spec_run_state [OF run lt] assms(2) by (simp add: fsm_inv_def)
  then show ?thesis
    using call spec_run_path [OF run]
    by (intro exI [of _ e] exI [of _ "f\<lparr>state := s\<rparr>"] exI [of _ w']) (simp add: ev Let_def)
qed

theorem fsm_event_path_witness:
  "\<exists>e g w' path req w1. simple_fsm_on_event echo_app (Some (two_state_fsm 5 True)) 1 [] = Inr (e, g, w')
    \<and> fsm_inv g \<and> legal_path (exit_of echo_app (two_state_fsm 5 True))
        (entry_of echo_app (two_state_fsm 5 True)) 2 1 0 [2] path
    \<and> after_path (exit_of echo_app (two_state_fsm 5 True))
        (entry_of echo_app (two_state_fsm 5 True)) 1 0 [2] path = (state g, req, w1)"
proof -
  have "state_count (config (two_state_fsm 5 True)) = 2" "state (two_state_fsm 5 True) = 0"
    "started (two_state_fsm 5 True)"
    "event_of echo_app (two_state_fsm 5 True) 1 0 [] = (1, [2])"
    by (simp_all add: two_state_simps Let_def)
  then show ?thesis
    using fsm_event_path [OF echo_leaves two_state_inv, of 5 True 1 "[]"]
    by (simp add: Let_def) blast
qed

text \<open>
  From a successful initialisation on an array that holds \<open>state_count\<close> delegates, no sequence of
  start, event, force-stop and deinit calls faults, and the current state stays in range.
\<close>

theorem fsm_history_safe:
  assumes "fsm_reachable app c (f, w)" and "leaves_fsm app"
    and "state_delegates c = Some ds" and "unat (state_count c) \<le> length ds"
  shows "state f < state_count c \<and> config f = c
    \<and> (\<exists>e s'. fsm_apply app op (f, w) = Inr (e, s') \<and> fsm_reachable app c s')"
proof -
  have inv: "fsm_inv f" "config f = c" using reachable_inv [OF assms] by simp_all
  then obtain e g w' where "fsm_apply app op (f, w) = Inr (e, g, w')"
    using fsm_apply_safe [OF assms(2)] by blast
  then show ?thesis using inv reach_step [OF assms(1)] by (auto simp: fsm_inv_def)
qed

theorem fsm_history_safe_witness:
  "\<exists>e s'. fsm_apply echo_app Op_start (two_state_fsm 5 False, []) = Inr (e, s')
    \<and> fsm_reachable echo_app (two_states 5) s'"
proof -
  have "simple_fsm_init (Some (two_state_fsm 5 False)) (Some (two_states 5))
      = Inr (ERR_NONE, two_state_fsm 5 False)"
    by (simp add: simple_fsm_init_def simple_fsm_validate_config_def two_state_fsm_def two_states_def
        for_each.simps [of 0] for_each.simps [of 1] for_each.simps [of 2] arr_get_def)
  then have "fsm_reachable echo_app (two_states 5) (two_state_fsm 5 False, [])"
    by (rule reach_init)
  then show ?thesis
    using fsm_history_safe [OF _ echo_leaves, of "two_states 5" "two_state_fsm 5 False" "[]"
        "the (state_delegates (two_states 5))" Op_start]
    by (simp add: two_states_def)
qed

text \<open>
  With a limit of one transition, an event that makes the machine change state once and settle
  there is reported as \<open>ERR_TIMEOUT\<close>.
\<close>

theorem fsm_timeout_when_settled:
  assumes "leaves_fsm app" and "fsm_inv f" and "started f" and "max_transition_count (config f) = 1"
    and "event_of app f ev (state f) w = (t, w0)" and "t \<noteq> state f" and "t < state_count (config f)"
    and "exit_of app f (state f) w0 = (state f, w1)" and "entry_of app f t w1 = (t, w2)"
  shows "simple_fsm_on_event app (Some f) ev w = Inr (ERR_TIMEOUT, f\<lparr>state := t\<rparr>, w2)"
  using on_event_eq [OF assms(1-3), of ev w] resolve_transitions_spec [OF assms(1,2), of t w0] assms
  by (simp add: not_le)

theorem fsm_timeout_when_settled_witness:
  "simple_fsm_on_event echo_app (Some (two_state_fsm 1 True)) 1 []
    = Inr (ERR_TIMEOUT, (two_state_fsm 1 True)\<lparr>state := 1\<rparr>, [2, 3, 4])"
  by (rule fsm_timeout_when_settled [OF echo_leaves two_state_inv])
     (simp_all add: two_state_simps Let_def)

text \<open>
  Starting a machine enters its initial state; when that ends in an error the machine is left
  stopped. A second start, a stop of a stopped machine and an event for one are refused without
  any handler being called.
\<close>

theorem fsm_lifecycle:
  assumes "leaves_fsm app" and "fsm_inv f"
  shows "(started f \<longrightarrow> simple_fsm_start app (Some f) w = Inr (ERR_NOOP, f, w))
    \<and> (\<not> started f \<longrightarrow> simple_fsm_force_stop app (Some f) w = Inr (ERR_NOOP, f, w)
         \<and> simple_fsm_on_event app (Some f) ev w = Inr (ERR_NOT_INITIALISED, f, w)
         \<and> (\<exists>e g w'. simple_fsm_start app (Some f) w = Inr (e, g, w')
              \<and> (started g \<longleftrightarrow> e = ERR_NONE) \<and> fsm_inv g))"
proof (cases "started f")
  case True
  then show ?thesis by (simp add: simple_fsm_start_def)
next
  case False
  define g where "g = f\<lparr>started := True, state := initial_state (config f)\<rparr>"
  have g: "fsm_inv g" using assms(2) by (simp add: g_def fsm_inv_def fsm_config_ok_def)
  obtain e h w' where h: "simple_fsm_resolve_transitions app g (fst (entry_of app g (state g) w))
        (snd (entry_of app g (state g) w)) = Inr (e, h, w')" "fsm_inv h" "started h"
    using resolve_transitions_safe [OF assms(1) g] by (metis g_def SimpleFSM.select_convs(1)
        SimpleFSM.surjective SimpleFSM.update_convs(1,3))
  have "simple_fsm_start app (Some f) w
      = Inr (e, if e \<noteq> ERR_NONE then h\<lparr>started := False\<rparr> else h, w')"
    using start_eq [OF assms False, of w] h(1) by (simp add: g_def)
  then show ?thesis
    using False h(2,3)
    by (auto simp: simple_fsm_force_stop_def simple_fsm_on_event_def fsm_inv_def)
qed

theorem fsm_lifecycle_witness:
  "\<exists>e g w'. simple_fsm_start echo_app (Some (two_state_fsm 5 False)) [] = Inr (e, g, w')
    \<and> (started g \<longleftrightarrow> e = ERR_NONE) \<and> fsm_inv g"
proof -
  have "\<not> started (two_state_fsm 5 False)" by (simp add: two_state_fsm_def)
  then show ?thesis
    using fsm_lifecycle [OF echo_leaves two_state_inv, of 5 False "[]"] by simp
qed

end
