(* ===== verification/Simple_Fsm_Runs.thy ===== *)
theory Simple_Fsm_Runs
  imports Simple_Fsm
begin

text \<open>
  More about the runs of \<open>src/simple_fsm/simple_fsm.c\<close>. First, handlers that use the machine that runs them, for
  example to stop it: they get its pointer, so they can call every function of \<open>include/cemb/simple_fsm.h\<close>
  on it. Then, machines that settle: when every state asks to stay or to go to a state of smaller rank, a
  run ends before the limit on transitions and is not reported as a timeout.
\<close>

section \<open>Handlers that use their machine\<close>

text \<open>
  The handlers keep the machine in working order and do not replace its configuration. Anything that
  the functions of the machine do to it is allowed.
\<close>

definition respects_fsm :: "'w handlers \<Rightarrow> bool" where
  "respects_fsm app \<longleftrightarrow>
     (\<forall>h ctx f w r g w'. fsm_inv f \<longrightarrow> run_entry_exit app h ctx (f, w) = (r, g, w') \<longrightarrow>
        fsm_inv g \<and> config g = config f)
     \<and> (\<forall>h ev ctx f w r g w'. fsm_inv f \<longrightarrow> run_event app h ev ctx (f, w) = (r, g, w') \<longrightarrow>
        fsm_inv g \<and> config g = config f)"

lemma calls_respect:
  assumes "respects_fsm app" and "fsm_inv f"
  shows "h \<noteq> NULL \<Longrightarrow> \<exists>r g w'. call_entry_exit app h f w = Inr (r, g, w') \<and> fsm_inv g \<and> config g = config f"
    and "h \<noteq> NULL \<Longrightarrow> \<exists>r g w'. call_event app h ev f w = Inr (r, g, w') \<and> fsm_inv g \<and> config g = config f"
proof -
  obtain r g w' where run: "run_entry_exit app h (fsm_context (config f)) (f, w) = (r, g, w')"
    by (metis prod_cases3)
  moreover have "fsm_inv g \<and> config g = config f"
    using assms run unfolding respects_fsm_def by blast
  ultimately show "\<exists>r g w'. call_entry_exit app h f w = Inr (r, g, w') \<and> fsm_inv g \<and> config g = config f"
    if "h \<noteq> NULL"
    using that by (simp add: call_entry_exit_def)
next
  obtain r g w' where run: "run_event app h ev (fsm_context (config f)) (f, w) = (r, g, w')"
    by (metis prod_cases3)
  moreover have "fsm_inv g \<and> config g = config f"
    using assms run unfolding respects_fsm_def by blast
  ultimately show "\<exists>r g w'. call_event app h ev f w = Inr (r, g, w') \<and> fsm_inv g \<and> config g = config f"
    if "h \<noteq> NULL"
    using that by (simp add: call_event_def)
qed

lemma state_upd: "state (f\<lparr>state := t\<rparr>) = t"
  and config_upd: "config (f\<lparr>state := t\<rparr>) = config f" "config (f\<lparr>started := b\<rparr>) = config f"
  by simp_all

lemma current_delegate:
  assumes "fsm_inv f"
  shows "arr_get (state_delegates (config f)) (state f) = Inr (delegate f (state f))"
    and "on_entry_handler (delegate f (state f)) \<noteq> NULL" "on_event_handler (delegate f (state f)) \<noteq> NULL"
    and "on_exit_handler (delegate f (state f)) \<noteq> NULL"
  using assms delegate_ok [of f "state f"] by (auto simp: fsm_inv_def)

lemma resolve_loop_respects:
  assumes "respects_fsm app" and "fsm_inv f"
  shows "\<exists>e g w'. resolve_loop app n c l f w = Inr (e, g, w') \<and> fsm_inv g \<and> config g = config f"
  using assms
proof (induction app n c l f w rule: resolve_loop.induct)
  case (1 app n c l f w)
  note d = current_delegate [OF "1.prems"(2)]
  obtain r g w1 where exit: "call_entry_exit app (on_exit_handler (delegate f (state f))) f w = Inr (r, g, w1)"
      "fsm_inv g" "config g = config f"
    using calls_respect(1) [OF "1.prems"(1,2) d(4)] by blast
  define t where "t = (if r = state g then n else r)"
  show ?case
  proof (cases "(n \<noteq> state f \<and> \<not> l) \<and> \<not> state_count (config g) \<le> t")
    case False
    then show ?thesis
      using d exit "1.prems" by (auto simp: resolve_loop.simps [of app n] t_def Let_def)
  next
    case go: True
    let ?g = "g\<lparr>state := t\<rparr>"
    have inv: "fsm_inv ?g" using exit go by (simp add: fsm_inv_def not_le)
    note e = current_delegate [OF inv]
    obtain r' g' w2 where entry: "call_entry_exit app (on_entry_handler (delegate ?g t)) ?g w1 = Inr (r', g', w2)"
        "fsm_inv g'" "config g' = config ?g"
      using calls_respect(1) [OF "1.prems"(1) inv e(2), of w1] by (simp only: state_upd) blast
    have "resolve_loop app n c l f w
        = resolve_loop app r' (c + 1) (max_transition_count (config g') \<le> c + 1) g' w2"
      using d(1) exit entry e(1) go by (simp add: resolve_loop.simps [of app n] t_def [symmetric] Let_def)
    moreover have "\<exists>e h w'. resolve_loop app r' (c + 1) (max_transition_count (config g') \<le> c + 1) g' w2
        = Inr (e, h, w') \<and> fsm_inv h \<and> config h = config g'"
      using "1.IH" [of "delegate f (state f)" "(r, g, w1)" r "(g, w1)" g w1 t ?g "delegate ?g t" "(r', g', w2)"
          r' "(g', w2)" g' w2 "c + 1"] d(1) exit entry e(1) go "1.prems"(1)
      by (simp add: t_def)
    ultimately show ?thesis using exit(3) entry(3) by auto
  qed
qed

lemma fsm_apply_respects:
  assumes "respects_fsm app" and "fsm_inv f"
  shows "\<exists>e g w'. fsm_apply app op (f, w) = Inr (e, g, w') \<and> fsm_inv g \<and> config g = config f"
proof (cases op)
  case Op_start
  let ?f = "f\<lparr>started := True, state := initial_state (config f)\<rparr>"
  have inv: "fsm_inv ?f" using assms(2) by (simp add: fsm_inv_def fsm_config_ok_def)
  obtain r g w1 where g: "call_entry_exit app (on_entry_handler (delegate ?f (initial_state (config f)))) ?f w
      = Inr (r, g, w1)" "fsm_inv g" "config g = config f"
    using calls_respect(1) [OF assms(1) inv current_delegate(2) [OF inv], of w]
    by (simp only: state_upd config_upd) blast
  obtain e h w2 where h: "simple_fsm_resolve_transitions app g r w1 = Inr (e, h, w2)" "fsm_inv h"
      "config h = config g"
    unfolding simple_fsm_resolve_transitions_def using resolve_loop_respects [OF assms(1) g(2)] by blast
  have "fsm_inv (h\<lparr>started := b\<rparr>)" for b using h(2) by (simp add: fsm_inv_def)
  then show ?thesis
    using Op_start assms(2) current_delegate(1) [OF inv] g h
    by (auto simp: simple_fsm_start_def Let_def)
next
  case (Op_event ev)
  obtain r g w1 where g: "call_event app (on_event_handler (delegate f (state f))) ev f w = Inr (r, g, w1)"
      "fsm_inv g" "config g = config f"
    using calls_respect(2) [OF assms] current_delegate(3) [OF assms(2)] by blast
  then show ?thesis
    using Op_event assms(2) current_delegate(1) [OF assms(2)] resolve_loop_respects [OF assms(1) g(2), of r 0 False w1]
    by (auto simp: simple_fsm_on_event_def simple_fsm_resolve_transitions_def)
next
  case Op_force_stop
  obtain r g w1 where g: "call_entry_exit app (on_exit_handler (delegate f (state f))) f w = Inr (r, g, w1)"
      "fsm_inv g" "config g = config f"
    using calls_respect(1) [OF assms] current_delegate(4) [OF assms(2)] by blast
  then have "fsm_inv (g\<lparr>started := False\<rparr>)" by (simp add: fsm_inv_def)
  then show ?thesis
    using Op_force_stop assms(2) current_delegate(1) [OF assms(2)] g
    by (auto simp: simple_fsm_force_stop_def Let_def)
next
  case Op_deinit
  then show ?thesis using assms(2) by (simp add: simple_fsm_deinit_def fsm_inv_def fsm_config_ok_def)
qed

lemma reachable_respects:
  assumes "fsm_reachable app c s" "respects_fsm app"
    and "state_delegates c = Some ds" "unat (state_count c) \<le> length ds"
  shows "fsm_inv (fst s) \<and> config (fst s) = c"
  using assms(1)
proof (induction rule: fsm_reachable.induct)
  case (reach_init f0 f w)
  then show ?case using init_inv [OF assms(3,4)] by simp
next
  case (reach_step s op e s')
  then show ?case using fsm_apply_respects [OF assms(2), of "fst s" op "snd s"] by auto
qed

text \<open>An application whose event handler deinitialises the machine that runs it.\<close>

definition quitting_app :: "ptr list handlers" where
  "quitting_app =
     \<lparr>run_entry_exit = (\<lambda>h ctx (f, w). (state f, f, w @ [h])),
      run_event = (\<lambda>h ev ctx (f, w).
        case simple_fsm_deinit (Some f) of Inr g \<Rightarrow> (state g, g, w @ [h]) | Inl _ \<Rightarrow> (0, f, w))\<rparr>"

lemma quitting_respects: "respects_fsm quitting_app"
  by (auto simp: respects_fsm_def quitting_app_def simple_fsm_deinit_def fsm_inv_def fsm_config_ok_def)

section \<open>Machines that settle\<close>

text \<open>
  Every state, when entered, asks to stay or for a state of smaller rank; an exit handler that redirects
  does so to a state of rank 0, for example an error state.
\<close>

definition settling :: "(size_t \<Rightarrow> nat) \<Rightarrow> 'w behaviour \<Rightarrow> 'w behaviour \<Rightarrow> size_t \<Rightarrow> bool" where
  "settling rank ex en states \<longleftrightarrow>
     (\<forall>s w. fst (ex s w) = s \<or> fst (ex s w) < states \<and> rank (fst (ex s w)) = 0)
     \<and> (\<forall>t w. t < states \<longrightarrow> fst (en t w) = t \<or> fst (en t w) < states \<and> rank (fst (en t w)) < rank t)"

lemma spec_run_settles:
  assumes "settling rank ex en states" and "0 < n" and "req \<noteq> s \<Longrightarrow> req < states \<and> Suc (rank req) < n"
  shows "\<exists>s' w'. spec_run ex en states n req s w = (ERR_NONE, s', w')"
  using assms(2,3)
proof (induction n arbitrary: req s w)
  case (Suc n)
  show ?case
  proof (cases "req = s")
    case False
    define t where "t = target ex req s w"
    define w1 where "w1 = snd (ex s w)"
    have req: "req < states" "rank req < n" using Suc.prems(2) [OF False] by auto
    have t: "t < states" "rank t \<le> rank req"
      using assms(1) [unfolded settling_def, THEN conjunct1, rule_format, of s w] req
      by (auto simp: t_def target_def)
    have "fst (en t w1) = t \<or> fst (en t w1) < states \<and> rank (fst (en t w1)) < rank t"
      using assms(1) t(1) by (auto simp: settling_def)
    then have "fst (en t w1) \<noteq> t \<Longrightarrow> fst (en t w1) < states \<and> Suc (rank (fst (en t w1))) < n"
      using t(2) req(2) by auto
    then obtain s' w' where "spec_run ex en states n (fst (en t w1)) t (snd (en t w1)) = (ERR_NONE, s', w')"
      using Suc.IH [of "fst (en t w1)" t "snd (en t w1)"] req(2) by auto
    moreover have "spec_run ex en states (Suc n) req s w
        = spec_run ex en states n (fst (en t w1)) t (snd (en t w1))"
      using False t(1) by (auto simp: case_prod_beta Let_def w1_def t_def target_def not_le split: if_splits)
    ultimately show ?thesis by simp
  qed simp
qed simp

lemma resolve_settles:
  assumes "leaves_fsm app" and "fsm_inv f"
    and "settling rank (exit_of app f) (entry_of app f) (state_count (config f))"
    and "req \<noteq> state f \<Longrightarrow> req < state_count (config f) \<and> Suc (rank req) < unat (max_transition_count (config f))"
  shows "\<exists>s w'. simple_fsm_resolve_transitions app f req w = Inr (ERR_NONE, f\<lparr>state := s\<rparr>, w')"
proof -
  have "0 < unat (max_transition_count (config f))"
    using assms(2) by (simp add: fsm_inv_def fsm_config_ok_def unat_gt_0)
  then obtain s w' where "spec_run (exit_of app f) (entry_of app f) (state_count (config f))
      (unat (max_transition_count (config f))) req (state f) w = (ERR_NONE, s, w')"
    using spec_run_settles [OF assms(3)] assms(4) by blast
  then have "simple_fsm_resolve_transitions app f req w = Inr (ERR_NONE, f\<lparr>state := s\<rparr>, w')"
    using resolve_transitions_spec [OF assms(1,2), of req w] by simp
  then show ?thesis by blast
qed

section \<open>Properties\<close>

text \<open>
  C23. Handlers may use the machine that runs them. As long as they keep it in working order, no sequence of
  start, event, force-stop and deinit calls after a successful initialisation faults, the current state
  stays in range, and the configuration is never lost.
\<close>

theorem fsm_reentrant_history_safe:
  assumes "fsm_reachable app c (f, w)" and "respects_fsm app"
    and "state_delegates c = Some ds" and "unat (state_count c) \<le> length ds"
  shows "state f < state_count c \<and> config f = c
    \<and> (\<exists>e s'. fsm_apply app op (f, w) = Inr (e, s') \<and> fsm_reachable app c s')"
proof -
  have inv: "fsm_inv f" "config f = c" using reachable_respects [OF assms] by simp_all
  then obtain e g w' where "fsm_apply app op (f, w) = Inr (e, g, w')"
    using fsm_apply_respects [OF assms(2)] by blast
  then show ?thesis using inv reach_step [OF assms(1)] by (auto simp: fsm_inv_def)
qed

theorem fsm_reentrant_history_safe_witness:
  "fsm_apply quitting_app Op_start (two_state_fsm 5 False, []) = Inr (ERR_NONE, two_state_fsm 5 True, [1])
    \<and> (\<exists>e s'. fsm_apply quitting_app (Op_event 1) (two_state_fsm 5 True, [1]) = Inr (e, s')
         \<and> fsm_reachable quitting_app (two_states 5) s')"
proof -
  have "simple_fsm_init (Some (two_state_fsm 5 False)) (Some (two_states 5))
      = Inr (ERR_NONE, two_state_fsm 5 False)"
    by (simp add: simple_fsm_init_def simple_fsm_validate_config_def two_state_fsm_def two_states_def
        for_each.simps [of 0] for_each.simps [of 1] for_each.simps [of 2] arr_get_def)
  then have "fsm_reachable quitting_app (two_states 5) (two_state_fsm 5 False, [])"
    by (rule reach_init)
  moreover have start: "fsm_apply quitting_app Op_start (two_state_fsm 5 False, [])
      = Inr (ERR_NONE, two_state_fsm 5 True, [1])"
    by (simp add: simple_fsm_start_def simple_fsm_resolve_transitions_def resolve_loop.simps call_entry_exit_def
        two_state_fsm_def two_states_def quitting_app_def arr_get_def)
  ultimately have "fsm_reachable quitting_app (two_states 5) (two_state_fsm 5 True, [1])"
    by (rule reach_step)
  then show ?thesis
    using start fsm_reentrant_history_safe [OF _ quitting_respects, of "two_states 5" "two_state_fsm 5 True" "[1]"
        "the (state_delegates (two_states 5))" "Op_event 1"]
    by (simp add: two_states_def)
qed

text \<open>
  C39. A machine settles. When every entered state asks to stay or for a state of smaller rank, and the limit
  on transitions is above the ranks by two, every start and every event that asks for a state of the machine
  ends with \<open>ERR_NONE\<close>, and leaves the machine running in one of its states.
\<close>

theorem fsm_settles:
  assumes "leaves_fsm app" and "fsm_inv f"
    and "settling rank (exit_of app (f\<lparr>started := True\<rparr>)) (entry_of app (f\<lparr>started := True\<rparr>))
      (state_count (config f))"
    and "\<forall>s < state_count (config f). Suc (rank s) < unat (max_transition_count (config f))"
  shows "(\<not> started f \<longrightarrow> (\<exists>g w'. simple_fsm_start app (Some f) w = Inr (ERR_NONE, g, w')
           \<and> started g \<and> fsm_inv g))
    \<and> (started f \<longrightarrow> fst (event_of app f ev (state f) w) < state_count (config f) \<longrightarrow>
         (\<exists>g w'. simple_fsm_on_event app (Some f) ev w = Inr (ERR_NONE, g, w') \<and> started g \<and> fsm_inv g))"
proof (intro conjI impI)
  assume off: "\<not> started f"
  define i where "i = initial_state (config f)"
  define g where "g = f\<lparr>started := True, state := i\<rparr>"
  have g: "fsm_inv g" "state g = i" "config g = config f" "i < state_count (config f)"
    using assms(2) by (simp_all add: g_def i_def fsm_inv_def fsm_config_ok_def)
  have settles: "settling rank (exit_of app g) (entry_of app g) (state_count (config g))"
    using assms(3) by (simp add: g_def)
  have "fst (entry_of app g i w) = i \<or> fst (entry_of app g i w) < state_count (config f)"
    using settles g(3,4) by (auto simp: settling_def)
  then obtain s w' where "simple_fsm_resolve_transitions app g (fst (entry_of app g i w))
      (snd (entry_of app g i w)) = Inr (ERR_NONE, g\<lparr>state := s\<rparr>, w')"
    using resolve_settles [OF assms(1) g(1) settles] assms(4) g(2,3) by metis
  then have "simple_fsm_start app (Some f) w = Inr (ERR_NONE, g\<lparr>state := s\<rparr>, w')"
    using start_eq [OF assms(1,2) off, of w] by (simp add: g_def i_def)
  then show "\<exists>g w'. simple_fsm_start app (Some f) w = Inr (ERR_NONE, g, w') \<and> started g \<and> fsm_inv g"
    using fsm_apply_safe [OF assms(1,2), of Op_start w] by (auto simp: g_def)
next
  assume on: "started f" and ev: "fst (event_of app f ev (state f) w) < state_count (config f)"
  then have same: "f\<lparr>started := True\<rparr> = f" by simp
  obtain s w' where "simple_fsm_on_event app (Some f) ev w = Inr (ERR_NONE, f\<lparr>state := s\<rparr>, w')"
    using resolve_settles [OF assms(1,2) assms(3) [unfolded same]] assms(4) ev
      on_event_eq [OF assms(1,2) on, of ev w] by metis
  then show "\<exists>g w'. simple_fsm_on_event app (Some f) ev w = Inr (ERR_NONE, g, w') \<and> started g \<and> fsm_inv g"
    using fsm_apply_safe [OF assms(1,2), of "Op_event ev" w] on by auto
qed

theorem fsm_settles_witness:
  "\<exists>g w'. simple_fsm_on_event echo_app (Some (two_state_fsm 5 True)) 1 [] = Inr (ERR_NONE, g, w')
     \<and> started g \<and> fsm_inv g"
proof -
  have "settling (\<lambda>_. 0) (exit_of echo_app ((two_state_fsm 5 True)\<lparr>started := True\<rparr>))
      (entry_of echo_app ((two_state_fsm 5 True)\<lparr>started := True\<rparr>)) (state_count (config (two_state_fsm 5 True)))"
    by (simp add: settling_def two_state_simps Let_def)
  moreover have "\<forall>s < state_count (config (two_state_fsm 5 True)).
      Suc 0 < unat (max_transition_count (config (two_state_fsm 5 True)))"
    by (simp add: two_state_fsm_def two_states_def)
  moreover have "started (two_state_fsm 5 True)"
      "fst (event_of echo_app (two_state_fsm 5 True) 1 (state (two_state_fsm 5 True)) [])
        < state_count (config (two_state_fsm 5 True))"
    by (simp_all add: two_state_simps Let_def)
  ultimately show ?thesis
    using fsm_settles [where rank = "\<lambda>_. 0" and w = "[]" and ev = 1, OF echo_leaves two_state_inv [of 5 True]] by simp
qed

end
