(* ===== verification/Static_Event_Publisher.thy ===== *)
theory Static_Event_Publisher
  imports Error_Codes
begin

text \<open>
  The publisher of \<open>src/events/static_event_publisher.c\<close>. A callback is the address of a function of the
  application; what the application's functions do is a parameter of the model. It takes the
  callback, its context and the event data, and works on the publisher (which the application can
  reach) and on the rest of the application's state.
\<close>

section \<open>Model\<close>

record StaticEventPublisherEntry =
  callback_context :: ptr
  callback :: ptr

record StaticEventPublisherConfig =
  subscribers :: "StaticEventPublisherEntry list option"
  subscriber_count :: size_t

record StaticEventPublisher =
  config :: StaticEventPublisherConfig

type_synonym 'w callbacks =
  "ptr \<Rightarrow> ptr \<Rightarrow> ptr \<Rightarrow> StaticEventPublisher \<times> 'w \<Rightarrow> StaticEventPublisher \<times> 'w"

definition static_event_publisher_validate_config ::
    "StaticEventPublisherConfig \<Rightarrow> ErrorCodes result" where
  "static_event_publisher_validate_config cfg =
     r_bind (assert_ptr (subscribers cfg)) (\<lambda>_.
       if subscriber_count cfg = 0 then Inr ERR_INVALID_ARG
       else r_bind (for_each 0 (subscriber_count cfg) (\<lambda>idx.
              r_bind (arr_get (subscribers cfg) idx) (\<lambda>e.
              r_assert (callback e \<noteq> NULL)))) (\<lambda>_.
            Inr ERR_NONE))"

definition static_event_publisher_init ::
    "StaticEventPublisher option \<Rightarrow> StaticEventPublisherConfig option
      \<Rightarrow> (ErrorCodes \<times> StaticEventPublisher) result" where
  "static_event_publisher_init pub cfg =
     r_bind (assert_ptr pub) (\<lambda>p.
     r_bind (assert_ptr cfg) (\<lambda>c.
     r_bind (static_event_publisher_validate_config c) (\<lambda>ret.
       if ret \<noteq> ERR_NONE then Inr (ret, p) else Inr (ERR_NONE, p\<lparr>config := c\<rparr>))))"

definition static_event_publisher_deinit ::
    "StaticEventPublisher option \<Rightarrow> StaticEventPublisher result" where
  "static_event_publisher_deinit pub =
     r_bind (assert_ptr pub) (\<lambda>p. Inr (p\<lparr>config := (config p)\<lparr>subscriber_count := 0\<rparr>\<rparr>))"

text \<open>
  The loop reads the publisher again in every round, as the code does: a callback may have
  changed it. The index stays below a \<open>size_t\<close>, so the loop ends whatever the callbacks do.
\<close>

definition call_callback ::
    "'w callbacks \<Rightarrow> StaticEventPublisherEntry \<Rightarrow> ptr \<Rightarrow> StaticEventPublisher \<times> 'w
      \<Rightarrow> (StaticEventPublisher \<times> 'w) result" where
  "call_callback app e event_data s =
     (if callback e = NULL then Inl Null_dereference
      else Inr (app (callback e) (callback_context e) event_data s))"

function notify_loop ::
    "'w callbacks \<Rightarrow> ptr \<Rightarrow> size_t \<Rightarrow> StaticEventPublisher \<times> 'w
      \<Rightarrow> (StaticEventPublisher \<times> 'w) result" where
  "notify_loop app event_data idx (p, w) =
     (if idx < subscriber_count (config p) then
        r_bind (arr_get (subscribers (config p)) idx) (\<lambda>e.
        r_bind (call_callback app e event_data (p, w)) (\<lambda>s.
        notify_loop app event_data (idx + 1) s))
      else Inr (p, w))"
  by pat_completeness auto
termination
proof (relation "measure (\<lambda>(_, _, idx, _). 2 ^ 64 - unat idx)")
  fix idx app event_data w s e and p :: StaticEventPublisher
  assume "idx < subscriber_count (config p)"
  then have "unat (idx + 1) = Suc (unat idx)"
    by (intro unat_Suc_size [of idx "subscriber_count (config p)"]) (simp add: word_less_nat_alt)
  then show "((app, event_data, idx + 1, s), app, event_data, idx, p, w)
      \<in> measure (\<lambda>(_, _, idx, _). 2 ^ 64 - unat idx)"
    using unat_size_lt [of idx] by (simp del: unat_size_lt)
qed simp

declare notify_loop.simps [simp del]

definition static_event_publisher_notify_subscribers ::
    "'w callbacks \<Rightarrow> StaticEventPublisher option \<Rightarrow> ptr \<Rightarrow> 'w
      \<Rightarrow> (StaticEventPublisher \<times> 'w) result" where
  "static_event_publisher_notify_subscribers app pub event_data w =
     r_bind (assert_ptr pub) (\<lambda>p. notify_loop app event_data 0 (p, w))"

section \<open>Who is called\<close>

text \<open>
  The subscribers of a publisher, in order, and the invariant that a successful initialisation
  establishes.
\<close>

definition pub_subscribers :: "StaticEventPublisher \<Rightarrow> StaticEventPublisherEntry list" where
  "pub_subscribers p =
     (case subscribers (config p) of
        None \<Rightarrow> [] | Some es \<Rightarrow> take (unat (subscriber_count (config p))) es)"

definition pub_inv :: "StaticEventPublisher \<Rightarrow> bool" where
  "pub_inv p \<longleftrightarrow> (\<exists>es. subscribers (config p) = Some es
     \<and> unat (subscriber_count (config p)) \<le> length es)
     \<and> (\<forall>e \<in> set (pub_subscribers p). callback e \<noteq> NULL)"

text \<open>The application's functions do not modify the publisher while it notifies.\<close>

definition leaves_publisher :: "'w callbacks \<Rightarrow> bool" where
  "leaves_publisher app \<longleftrightarrow> (\<forall>cb ctx ev p w. fst (app cb ctx ev (p, w)) = p)"

definition deliver ::
    "'w callbacks \<Rightarrow> StaticEventPublisher \<Rightarrow> ptr \<Rightarrow> StaticEventPublisherEntry \<Rightarrow> 'w \<Rightarrow> 'w" where
  "deliver app p ev e w = snd (app (callback e) (callback_context e) ev (p, w))"

lemma pub_subscribers_length:
  "pub_inv p \<Longrightarrow> length (pub_subscribers p) = unat (subscriber_count (config p))"
  by (auto simp: pub_inv_def pub_subscribers_def)

lemma pub_entry:
  assumes "pub_inv p" and "unat idx < length (pub_subscribers p)"
  shows "arr_get (subscribers (config p)) idx = Inr (pub_subscribers p ! unat idx)"
    and "callback (pub_subscribers p ! unat idx) \<noteq> NULL"
proof -
  show "callback (pub_subscribers p ! unat idx) \<noteq> NULL"
    using assms(1) nth_mem [OF assms(2)] unfolding pub_inv_def by blast
  show "arr_get (subscribers (config p)) idx = Inr (pub_subscribers p ! unat idx)"
    using assms by (auto simp: pub_inv_def pub_subscribers_def arr_get_def)
qed

text \<open>
  A notification whose callbacks leave the publisher alone delivers to the subscribers in order. The callbacks may
  rely on a condition \<open>I\<close> of the rest of the state, which they keep.
\<close>

lemma notify_loop_deliver_inv:
  assumes "pub_inv p" and "I w"
    and "\<And>e w. e \<in> set (pub_subscribers p) \<Longrightarrow> I w \<Longrightarrow>
      fst (app (callback e) (callback_context e) ev (p, w)) = p \<and> I (deliver app p ev e w)"
  shows "notify_loop app ev idx (p, w)
    = Inr (p, fold (deliver app p ev) (drop (unat idx) (pub_subscribers p)) w)"
  using assms(2)
proof (induction "length (pub_subscribers p) - unat idx" arbitrary: idx w)
  case 0
  then show ?case
    by (simp add: notify_loop.simps word_less_nat_alt pub_subscribers_length [OF assms(1)])
next
  case (Suc n)
  define es where "es = pub_subscribers p"
  define e where "e = es ! unat idx"
  have lt: "unat idx < length es" using Suc.hyps(2) by (simp add: es_def)
  then have idx: "idx < subscriber_count (config p)"
    by (simp add: es_def pub_subscribers_length [OF assms(1)] word_less_nat_alt)
  have next_idx: "unat (idx + 1) = Suc (unat idx)"
    using idx by (intro unat_Suc_size) (simp add: word_less_nat_alt)
  note entry = pub_entry [OF assms(1) lt [unfolded es_def], folded es_def, folded e_def]
  have e: "fst (app (callback e) (callback_context e) ev (p, w)) = p" "I (deliver app p ev e w)"
    using assms(3) [of e w] Suc.prems lt by (simp_all add: es_def e_def)
  then have "notify_loop app ev idx (p, w) = notify_loop app ev (idx + 1) (p, deliver app p ev e w)"
    using entry idx by (simp add: notify_loop.simps [of _ _ idx] call_callback_def deliver_def prod_eq_iff)
       (metis prod.collapse)
  also have "\<dots> = Inr (p, fold (deliver app p ev) (drop (Suc (unat idx)) es) (deliver app p ev e w))"
    using Suc.hyps(1) [of "idx + 1"] Suc.hyps(2) e(2) next_idx by (simp add: es_def)
  finally show ?case
    using Cons_nth_drop_Suc [OF lt] unfolding es_def [symmetric] e_def by (metis fold_simps(2))
qed

lemma notify_loop_deliver:
  assumes "leaves_publisher app" "pub_inv p"
  shows "notify_loop app ev idx (p, w)
    = Inr (p, fold (deliver app p ev) (drop (unat idx) (pub_subscribers p)) w)"
  using assms by (intro notify_loop_deliver_inv [where I = "\<lambda>_. True"]) (simp_all add: leaves_publisher_def)

lemma publisher_init_state:
  assumes "subscribers c = Some es" "unat (subscriber_count c) \<le> length es"
    and "static_event_publisher_init (Some p0) (Some c) = Inr (ERR_NONE, p)"
  shows "pub_inv p \<and> pub_subscribers p = take (unat (subscriber_count c)) es"
proof -
  have p: "p = p0\<lparr>config := c\<rparr>"
    and chk: "\<And>i. i < subscriber_count c \<Longrightarrow> callback (es ! unat i) \<noteq> NULL"
  proof -
    have "static_event_publisher_validate_config c = Inr ERR_NONE" "p = p0\<lparr>config := c\<rparr>"
      using assms(3) by (auto simp: static_event_publisher_init_def split: if_splits)
    moreover from this(1) have "for_each 0 (subscriber_count c) (\<lambda>idx.
        r_bind (arr_get (subscribers c) idx) (\<lambda>e. r_assert (callback e \<noteq> NULL))) = Inr ()"
      by (auto simp: static_event_publisher_validate_config_def split: if_splits)
    ultimately show "p = p0\<lparr>config := c\<rparr>"
        "\<And>i. i < subscriber_count c \<Longrightarrow> callback (es ! unat i) \<noteq> NULL"
      using assms(1,2) by (auto simp: for_each_iff arr_get_def word_less_nat_alt)
  qed
  have "callback e \<noteq> NULL" if e: "e \<in> set (take (unat (subscriber_count c)) es)" for e
  proof -
    obtain k where k: "k < unat (subscriber_count c)" "e = es ! k"
      using e assms(2) by (auto simp: in_set_conv_nth)
    then have "unat (of_nat k :: size_t) = k"
      using unat_size_lt [of "subscriber_count c"]
      by (simp add: unsigned_of_nat take_bit_nat_eq_self del: unat_size_lt)
    then show ?thesis using chk [of "of_nat k"] k by (simp add: word_less_nat_alt)
  qed
  then show ?thesis using assms(1,2) by (simp add: p pub_inv_def pub_subscribers_def)
qed

text \<open>A publisher taken down notifies nobody.\<close>

lemma publisher_deinit_silent:
  "static_event_publisher_deinit (Some p) = Inr p' \<Longrightarrow>
    static_event_publisher_notify_subscribers app (Some p') ev w = Inr (p', w)"
  by (auto simp: static_event_publisher_deinit_def static_event_publisher_notify_subscribers_def
      notify_loop.simps [of _ _ 0])

section \<open>Callbacks that use their publisher\<close>

text \<open>
  Callbacks may do to the publisher whatever keeps it in working order: take it down, initialise it
  again with other subscribers, notify through it. The calls made by a notification are described
  by the entries called, each found in the publisher as the calls before it have left it.
\<close>

definition respects_publisher :: "'w callbacks \<Rightarrow> bool" where
  "respects_publisher app \<longleftrightarrow> (\<forall>cb ctx ev p w. pub_inv p \<longrightarrow> pub_inv (fst (app cb ctx ev (p, w))))"

inductive calls_from ::
    "'w callbacks \<Rightarrow> ptr \<Rightarrow> nat \<Rightarrow> StaticEventPublisher \<times> 'w \<Rightarrow> StaticEventPublisherEntry list
      \<Rightarrow> StaticEventPublisher \<times> 'w \<Rightarrow> bool"
  for app ev where
  no_more: "length (pub_subscribers p) \<le> i \<Longrightarrow> calls_from app ev i (p, w) [] (p, w)"
| next_call: "i < length (pub_subscribers p) \<Longrightarrow> pub_subscribers p ! i = e \<Longrightarrow>
    calls_from app ev (Suc i) (app (callback e) (callback_context e) ev (p, w)) es s \<Longrightarrow>
    calls_from app ev i (p, w) (e # es) s"

text \<open>The calls are determined by where they start: a notification has one sequence of calls and one outcome.\<close>

inductive_simps calls_from_pair: "calls_from app ev i (p, w) es s"

lemma calls_from_deterministic:
  "calls_from app ev i s es s' \<Longrightarrow> calls_from app ev i s es2 s2 \<Longrightarrow> es2 = es \<and> s2 = s'"
proof (induction arbitrary: es2 s2 rule: calls_from.induct)
  case (no_more p i w)
  then show ?case by (simp add: calls_from_pair)
next
  case (next_call i p e w es s)
  from next_call.prems next_call.hyps(1,2) obtain fs where "es2 = e # fs"
      "calls_from app ev (Suc i) (app (callback e) (callback_context e) ev (p, w)) fs s2"
    unfolding calls_from_pair by auto
  then show ?case using next_call.IH by simp
qed

lemma notify_loop_calls:
  assumes "respects_publisher app"
  shows "pub_inv p \<Longrightarrow> \<exists>es p' w'. notify_loop app ev idx (p, w) = Inr (p', w') \<and> pub_inv p'
    \<and> calls_from app ev (unat idx) (p, w) es (p', w')"
proof (induction "2 ^ 64 - unat idx" arbitrary: idx p w rule: less_induct)
  case less
  note len = pub_subscribers_length [OF less.prems]
  show ?case
  proof (cases "idx < subscriber_count (config p)")
    case False
    then show ?thesis
      using less.prems len
      by (intro exI [of _ "[]"]) (auto simp: notify_loop.simps [of _ _ idx] word_less_nat_alt intro: no_more)
  next
    case True
    let ?e = "pub_subscribers p ! unat idx"
    obtain q v where q: "app (callback ?e) (callback_context ?e) ev (p, w) = (q, v)" by fastforce
    have lt: "unat idx < length (pub_subscribers p)" using True len by (simp add: word_less_nat_alt)
    have suc: "unat (idx + 1) = Suc (unat idx)"
      using True by (intro unat_Suc_size) (simp add: word_less_nat_alt)
    have "pub_inv q"
      using assms less.prems q unfolding respects_publisher_def by (metis fst_conv)
    moreover have "2 ^ 64 - unat (idx + 1) < 2 ^ 64 - unat idx"
      using suc unat_size_lt [of "idx + 1"] unat_size_lt [of idx] by (simp del: unat_size_lt)
    ultimately obtain es p' w' where "notify_loop app ev (idx + 1) (q, v) = Inr (p', w')" "pub_inv p'"
        "calls_from app ev (Suc (unat idx)) (q, v) es (p', w')"
      using less.hyps [of "idx + 1" q v] suc by auto
    then show ?thesis
      using True pub_entry [OF less.prems lt] q lt next_call [OF lt refl, of app ev w es]
      by (intro exI [of _ "?e # es"]) (auto simp: notify_loop.simps [of _ _ idx] call_callback_def)
  qed
qed

section \<open>Properties\<close>

text \<open>
  A publisher initialised with \<open>n\<close> subscribers calls each of the first \<open>n\<close> entries exactly once,
  in the order of the array, with the entry's context and the event data, provided the callbacks
  leave the publisher alone.
\<close>

theorem publisher_notifies_in_order:
  assumes "leaves_publisher app" and "subscribers c = Some es"
    and "unat (subscriber_count c) \<le> length es"
    and "static_event_publisher_init (Some p0) (Some c) = Inr (ERR_NONE, p)"
  shows "static_event_publisher_notify_subscribers app (Some p) ev w
    = Inr (p, fold (\<lambda>e w. snd (app (callback e) (callback_context e) ev (p, w)))
               (take (unat (subscriber_count c)) es) w)"
  using publisher_init_state [OF assms(2-4)] notify_loop_deliver [OF assms(1), of p ev 0 w]
  by (simp add: static_event_publisher_notify_subscribers_def deliver_def [abs_def])

theorem publisher_notifies_in_order_witness:
  "static_event_publisher_notify_subscribers (\<lambda>cb ctx ev (p, w). (p, w @ [(cb, ctx, ev)]))
      (Some \<lparr>config = \<lparr>subscribers = Some [\<lparr>callback_context = 1, callback = 10\<rparr>,
        \<lparr>callback_context = 2, callback = 20\<rparr>], subscriber_count = 2\<rparr>\<rparr>) 5 []
    = Inr (\<lparr>config = \<lparr>subscribers = Some [\<lparr>callback_context = 1, callback = 10\<rparr>,
        \<lparr>callback_context = 2, callback = 20\<rparr>], subscriber_count = 2\<rparr>\<rparr>, [(10, 1, 5), (20, 2, 5)])"
proof -
  define c where "c = \<lparr>subscribers = Some [\<lparr>callback_context = 1, callback = 10\<rparr>,
    \<lparr>callback_context = 2, callback = 20\<rparr>], subscriber_count = 2\<rparr>"
  have init: "static_event_publisher_init (Some \<lparr>config = c\<rparr>) (Some c) = Inr (ERR_NONE, \<lparr>config = c\<rparr>)"
    by (simp add: static_event_publisher_init_def static_event_publisher_validate_config_def c_def
        for_each.simps [of 0] for_each.simps [of 1] for_each.simps [of 2] arr_get_def)
  have "leaves_publisher (\<lambda>cb ctx ev (p, w). (p, w @ [(cb, ctx, ev)]))"
    by (simp add: leaves_publisher_def)
  then show ?thesis
    using publisher_notifies_in_order [OF _ _ _ init, of "\<lambda>cb ctx ev (p, w). (p, w @ [(cb, ctx, ev)])"
        "[\<lparr>callback_context = 1, callback = 10\<rparr>, \<lparr>callback_context = 2, callback = 20\<rparr>]" 5 "[]"]
    unfolding c_def [symmetric] by (simp add: c_def)
qed

text \<open>
  A callback may take the publisher down while it notifies: when the first subscriber called
  leaves it de-initialised, no other subscriber is called and the notification returns.
\<close>

theorem publisher_deinit_in_callback:
  assumes "pub_inv p" and "pub_subscribers p = e # es"
    and "static_event_publisher_deinit (Some p) = Inr p'"
    and "app (callback e) (callback_context e) ev (p, w) = (p', w')"
  shows "static_event_publisher_notify_subscribers app (Some p) ev w = Inr (p', w')"
proof -
  have p': "subscriber_count (config p') = 0"
    using assms(3) by (auto simp: static_event_publisher_deinit_def)
  obtain ds where ds: "subscribers (config p) = Some ds" "take (unat (subscriber_count (config p))) ds = e # es"
    using assms(1,2) by (auto simp: pub_inv_def pub_subscribers_def)
  then have "unat (subscriber_count (config p)) \<noteq> 0" "ds \<noteq> []" "ds ! 0 = e"
    by (cases ds; auto simp: take_Cons' split: if_splits)+
  then have n: "0 < subscriber_count (config p)" "arr_get (subscribers (config p)) 0 = Inr e"
    using ds(1) by (simp_all add: word_gt_0 c_simps)
  have "callback e \<noteq> NULL" using assms(1,2) by (simp add: pub_inv_def)
  then show ?thesis
    using n p' assms(4)
    by (simp add: static_event_publisher_notify_subscribers_def notify_loop.simps [of _ _ 0]
        notify_loop.simps [of _ _ 1] call_callback_def)
qed

theorem publisher_deinit_in_callback_witness:
  "static_event_publisher_notify_subscribers
      (\<lambda>cb ctx ev (p, w). (\<lparr>config = (config p)\<lparr>subscriber_count := 0\<rparr>\<rparr>, w @ [cb]))
      (Some \<lparr>config = \<lparr>subscribers = Some [\<lparr>callback_context = 1, callback = 10\<rparr>,
        \<lparr>callback_context = 2, callback = 20\<rparr>], subscriber_count = 2\<rparr>\<rparr>) 5 []
    = Inr (\<lparr>config = \<lparr>subscribers = Some [\<lparr>callback_context = 1, callback = 10\<rparr>,
        \<lparr>callback_context = 2, callback = 20\<rparr>], subscriber_count = 0\<rparr>\<rparr>, [10])"
  by (rule publisher_deinit_in_callback [where e = "\<lparr>callback_context = 1, callback = 10\<rparr>"
        and es = "[\<lparr>callback_context = 2, callback = 20\<rparr>]"])
     (simp_all add: pub_inv_def pub_subscribers_def static_event_publisher_deinit_def)

text \<open>
  C24. Notifying is safe whatever the callbacks do to the publisher, as long as they leave it in working order:
  the notification ends without a fault, the publisher is in working order again, and the entries called are,
  for the indices from 0 on, the subscribers of the publisher at the time of the call. Where the publisher
  is and what its callbacks do determine the calls.
\<close>

theorem publisher_reentrant_safe:
  assumes "respects_publisher app" and "subscribers c = Some es" and "unat (subscriber_count c) \<le> length es"
    and "static_event_publisher_init (Some p0) (Some c) = Inr (ERR_NONE, p)"
  shows "\<exists>called p' w'. static_event_publisher_notify_subscribers app (Some p) ev w = Inr (p', w')
    \<and> pub_inv p' \<and> calls_from app ev 0 (p, w) called (p', w')
    \<and> (\<forall>others s. calls_from app ev 0 (p, w) others s \<longrightarrow> others = called \<and> s = (p', w'))"
proof -
  obtain called p' w' where run: "notify_loop app ev 0 (p, w) = Inr (p', w')" "pub_inv p'"
      "calls_from app ev 0 (p, w) called (p', w')"
    using notify_loop_calls [OF assms(1), of p ev 0 w] publisher_init_state [OF assms(2-4)] by auto
  have "static_event_publisher_notify_subscribers app (Some p) ev w = Inr (p', w')"
    using run(1) by (simp add: static_event_publisher_notify_subscribers_def)
  then show ?thesis using run(2,3) calls_from_deterministic [OF run(3)] by blast
qed

theorem publisher_reentrant_safe_witness:
  "\<exists>called p' w'. static_event_publisher_notify_subscribers
      (\<lambda>cb ctx ev (p, w). (if cb = 20 then \<lparr>config = (config p)\<lparr>subscriber_count := 0\<rparr>\<rparr> else p, w @ [cb]))
      (Some \<lparr>config = \<lparr>subscribers = Some [\<lparr>callback_context = 1, callback = 10\<rparr>,
        \<lparr>callback_context = 2, callback = 20\<rparr>, \<lparr>callback_context = 3, callback = 30\<rparr>], subscriber_count = 3\<rparr>\<rparr>) 5 []
    = Inr (p', w') \<and> pub_inv p'"
proof -
  define c where "c = \<lparr>subscribers = Some [\<lparr>callback_context = 1, callback = 10\<rparr>,
    \<lparr>callback_context = 2, callback = 20\<rparr>, \<lparr>callback_context = 3, callback = 30\<rparr>], subscriber_count = 3\<rparr>"
  let ?app = "\<lambda>cb ctx ev (p, w). (if cb = 20 then \<lparr>config = (config p)\<lparr>subscriber_count := 0\<rparr>\<rparr> else p, w @ [cb])"
  have init: "static_event_publisher_init (Some \<lparr>config = c\<rparr>) (Some c) = Inr (ERR_NONE, \<lparr>config = c\<rparr>)"
    by (simp add: static_event_publisher_init_def static_event_publisher_validate_config_def c_def
        for_each.simps [of 0] for_each.simps [of 1] for_each.simps [of 2] for_each.simps [of 3] arr_get_def)
  have "respects_publisher ?app"
    by (auto simp: respects_publisher_def pub_inv_def pub_subscribers_def)
  then show ?thesis
    using publisher_reentrant_safe [of ?app c _ "\<lparr>config = c\<rparr>" "\<lparr>config = c\<rparr>" 5 "[]"] init
    unfolding c_def [symmetric] by (simp add: c_def) blast
qed

end
