(* ===== verification/Published_Machines.thy ===== *)
theory Published_Machines
  imports Simple_Fsm_Runs Static_Event_Publisher
begin

text \<open>
  State machines driven by a publisher: the application of \<open>src/events/static_event_publisher.c\<close> whose subscribers are
  machines of \<open>src/simple_fsm/simple_fsm.c\<close>, each found at the address that is the context of its entry. The callback
  belongs to the application; what is asked of it is that it hands the event on to the machine.
\<close>

section \<open>Subscribed machines\<close>

text \<open>The state of the application: its machines, by address, and what their handlers work on.\<close>

type_synonym 'w machines = "(ptr \<rightharpoonup> SimpleFSM) \<times> 'w"

definition forwards :: "'w handlers \<Rightarrow> 'w machines callbacks \<Rightarrow> ptr \<Rightarrow> bool" where
  "forwards app cbs cb \<longleftrightarrow> (\<forall>ctx ev p M w e g w'. simple_fsm_on_event app (M ctx) ev w = Inr (e, g, w') \<longrightarrow>
     cbs cb ctx ev (p, M, w) = (p, M(ctx \<mapsto> g), w'))"

text \<open>The machines at some addresses are running and in working order.\<close>

definition machines_run :: "ptr set \<Rightarrow> 'w machines \<Rightarrow> bool" where
  "machines_run A = (\<lambda>(M, w). \<forall>a \<in> A. \<exists>f. M a = Some f \<and> fsm_inv f \<and> started f)"

text \<open>Machines that handle an event one after the other, each on the state that the one before has left.\<close>

fun handled_in_turn :: "'w handlers \<Rightarrow> ptr \<Rightarrow> SimpleFSM list \<Rightarrow> 'w \<Rightarrow> SimpleFSM list \<Rightarrow> 'w \<Rightarrow> bool" where
  "handled_in_turn app ev [] w [] w' \<longleftrightarrow> w' = w"
| "handled_in_turn app ev (f # fs) w (g # gs) w' \<longleftrightarrow>
     (case simple_fsm_on_event app (Some f) ev w of
        Inl _ \<Rightarrow> False
      | Inr (e, h, v) \<Rightarrow> h = g \<and> handled_in_turn app ev fs v gs w')"
| "handled_in_turn app ev _ w _ w' \<longleftrightarrow> False"

lemma running_machine_handles:
  assumes "leaves_fsm app" "fsm_inv f" "started f"
  shows "\<exists>e g w'. simple_fsm_on_event app (Some f) ev w = Inr (e, g, w') \<and> fsm_inv g \<and> started g"
proof -
  let ?r = "event_of app f ev (state f) w"
  obtain e g w' where "simple_fsm_resolve_transitions app f (fst ?r) (snd ?r) = Inr (e, g, w')" "fsm_inv g" "started g"
    using resolve_transitions_safe [OF assms(1,2)] assms(3) by metis
  then show ?thesis using on_event_eq [OF assms] by auto
qed

lemma forwards_step:
  assumes "leaves_fsm app" "forwards app cbs (callback e)" "machines_run A (M, w)" "callback_context e \<in> A"
  shows "\<exists>f c g w'. M (callback_context e) = Some f \<and> simple_fsm_on_event app (Some f) ev w = Inr (c, g, w')
    \<and> cbs (callback e) (callback_context e) ev (p, M, w) = (p, M(callback_context e \<mapsto> g), w')
    \<and> machines_run A (M(callback_context e \<mapsto> g), w')"
proof -
  obtain f where f: "M (callback_context e) = Some f" "fsm_inv f" "started f"
    using assms(3,4) by (auto simp: machines_run_def)
  then obtain c g w' where g: "simple_fsm_on_event app (Some f) ev w = Inr (c, g, w')" "fsm_inv g" "started g"
    using running_machine_handles [OF assms(1)] by blast
  then have "cbs (callback e) (callback_context e) ev (p, M, w) = (p, M(callback_context e \<mapsto> g), w')"
    using assms(2) f(1) unfolding forwards_def by metis
  moreover have "machines_run A (M(callback_context e \<mapsto> g), w')"
    using assms(3) g by (auto simp: machines_run_def)
  ultimately show ?thesis using f(1) g(1) by blast
qed

lemma deliver_in_turn:
  assumes "leaves_fsm app" and "distinct (map callback_context es)"
    and "\<And>e. e \<in> set es \<Longrightarrow> forwards app cbs (callback e)"
    and "machines_run A (M, w)" and "callback_context ` set es \<subseteq> A"
  shows "\<exists>gs M' w'. fold (deliver cbs p ev) es (M, w) = (M', w') \<and> machines_run A (M', w')
    \<and> map M' (map callback_context es) = map Some gs \<and> (\<forall>a. a \<notin> callback_context ` set es \<longrightarrow> M' a = M a)
    \<and> handled_in_turn app ev (map (\<lambda>e. the (M (callback_context e))) es) w gs w'"
  using assms(2-5)
proof (induction es arbitrary: M w)
  case Nil
  then show ?case by simp
next
  case (Cons e es)
  let ?a = "callback_context e"
  obtain f c g w1 where step: "M ?a = Some f" "simple_fsm_on_event app (Some f) ev w = Inr (c, g, w1)"
      "cbs (callback e) ?a ev (p, M, w) = (p, M(?a \<mapsto> g), w1)" "machines_run A (M(?a \<mapsto> g), w1)"
    using forwards_step [OF assms(1) Cons.prems(2), of e A M w ev p] Cons.prems(3,4) by auto
  define N where "N = M(?a \<mapsto> g)"
  have fresh: "?a \<notin> callback_context ` set es" using Cons.prems(1) by simp
  then have others: "N (callback_context e') = M (callback_context e')" if "e' \<in> set es" for e'
    using that by (auto simp: N_def image_iff)
  have "distinct (map callback_context es)" "\<And>e. e \<in> set es \<Longrightarrow> forwards app cbs (callback e)"
      "machines_run A (N, w1)" "callback_context ` set es \<subseteq> A"
    using Cons.prems step(4) by (simp_all add: N_def)
  then obtain gs M' w' where rest: "fold (deliver cbs p ev) es (N, w1) = (M', w')" "machines_run A (M', w')"
      "map M' (map callback_context es) = map Some gs" "\<forall>a. a \<notin> callback_context ` set es \<longrightarrow> M' a = N a"
      "handled_in_turn app ev (map (\<lambda>e. the (N (callback_context e))) es) w1 gs w'"
    using Cons.IH [of N w1] by blast
  have "map (\<lambda>e. the (N (callback_context e))) es = map (\<lambda>e. the (M (callback_context e))) es"
    using others by simp
  then have "handled_in_turn app ev (map (\<lambda>e. the (M (callback_context e))) es) w1 gs w'"
    using rest(5) by (simp only:)
  moreover have "M' ?a = Some g" "\<forall>a. a \<notin> callback_context ` set (e # es) \<longrightarrow> M' a = M a"
    using rest(4) fresh by (auto simp: N_def)
  moreover have "fold (deliver cbs p ev) (e # es) (M, w) = (M', w')"
    using rest(1) step(3) by (simp add: deliver_def N_def)
  ultimately show ?case
    using rest(2,3) step(1,2) by (intro exI [of _ "g # gs"] exI [of _ M'] exI [of _ w']) simp
qed

section \<open>Properties\<close>

text \<open>
  C18. An event published to state machines that run, each subscribed once at its own address, is handled by every one of
  them exactly once, in the order of subscription: the notification does not fault, each machine is afterwards what
  its handling of the event has made of it, and still running, and machines that are not subscribed are as before.
\<close>

theorem published_event_drives_machines:
  assumes "leaves_fsm app" and "subscribers c = Some es" and "unat (subscriber_count c) = length es"
    and "static_event_publisher_init (Some p0) (Some c) = Inr (ERR_NONE, p)"
    and "\<forall>e \<in> set es. forwards app cbs (callback e)" and "distinct (map callback_context es)"
    and "machines_run (callback_context ` set es) (M, w)"
  shows "\<exists>gs M' w'. static_event_publisher_notify_subscribers cbs (Some p) ev (M, w) = Inr (p, M', w')
    \<and> map M' (map callback_context es) = map Some gs \<and> list_all (\<lambda>g. fsm_inv g \<and> started g) gs
    \<and> handled_in_turn app ev (map (\<lambda>e. the (M (callback_context e))) es) w gs w'
    \<and> (\<forall>a. a \<notin> callback_context ` set es \<longrightarrow> M' a = M a)"
proof -
  let ?A = "callback_context ` set es"
  have p: "pub_inv p" "pub_subscribers p = es"
    using publisher_init_state [OF assms(2) _ assms(4)] assms(3) by simp_all
  have "fst (cbs (callback e) (callback_context e) ev (p, v)) = p \<and> machines_run ?A (deliver cbs p ev e v)"
    if "e \<in> set (pub_subscribers p)" "machines_run ?A v" for e v
  proof -
    obtain N u where v: "v = (N, u)" by fastforce
    show ?thesis
      using forwards_step [OF assms(1), of cbs e ?A N u ev p] that assms(5) p(2) by (auto simp: v deliver_def)
  qed
  then have "notify_loop cbs ev 0 (p, M, w) = Inr (p, fold (deliver cbs p ev) es (M, w))"
    using notify_loop_deliver_inv [where I = "machines_run ?A" and app = cbs and ev = ev and idx = 0, OF p(1) assms(7)] p(2)
    by simp
  moreover obtain gs M' w' where run: "fold (deliver cbs p ev) es (M, w) = (M', w')" "machines_run ?A (M', w')"
      "map M' (map callback_context es) = map Some gs" "\<forall>a. a \<notin> ?A \<longrightarrow> M' a = M a"
      "handled_in_turn app ev (map (\<lambda>e. the (M (callback_context e))) es) w gs w'"
    using deliver_in_turn [OF assms(1,6) _ assms(7), of cbs p ev] assms(5) by auto
  moreover have "list_all (\<lambda>g. fsm_inv g \<and> started g) gs"
  proof -
    have "Some ` set gs = M' ` ?A" using run(3) by (metis list.set_map)
    then have "Some g \<in> M' ` ?A" if "g \<in> set gs" for g using that by blast
    then show ?thesis using run(2) unfolding machines_run_def list_all_iff by force
  qed
  ultimately show ?thesis
    by (intro exI [of _ gs] exI [of _ M'] exI [of _ w']) (simp add: static_event_publisher_notify_subscribers_def)
qed

text \<open>An application whose callbacks all hand the event on to the machine at their context.\<close>

definition forwarding_callbacks :: "'w handlers \<Rightarrow> 'w machines callbacks" where
  "forwarding_callbacks app cb ctx ev s =
     (case s of (p, M, w) \<Rightarrow>
        case simple_fsm_on_event app (M ctx) ev w of
          Inl _ \<Rightarrow> s
        | Inr (e, g, w') \<Rightarrow> (p, M(ctx \<mapsto> g), w'))"

lemma forwarding_forwards: "forwards app (forwarding_callbacks app) cb"
  by (simp add: forwards_def forwarding_callbacks_def)

theorem published_event_drives_machines_witness:
  "\<exists>gs M' w'. static_event_publisher_notify_subscribers (forwarding_callbacks echo_app)
      (Some \<lparr>config = \<lparr>subscribers = Some [\<lparr>callback_context = 100, callback = 10\<rparr>,
        \<lparr>callback_context = 200, callback = 10\<rparr>], subscriber_count = 2\<rparr>\<rparr>) 1
      ([100 \<mapsto> two_state_fsm 5 True, 200 \<mapsto> two_state_fsm 7 True], [])
    = Inr (\<lparr>config = \<lparr>subscribers = Some [\<lparr>callback_context = 100, callback = 10\<rparr>,
        \<lparr>callback_context = 200, callback = 10\<rparr>], subscriber_count = 2\<rparr>\<rparr>, M', w')
    \<and> handled_in_turn echo_app 1 [two_state_fsm 5 True, two_state_fsm 7 True] [] gs w'"
proof -
  define es where "es = [\<lparr>callback_context = 100, callback = 10\<rparr>, \<lparr>callback_context = 200, callback = 10\<rparr>]"
  define c where "c = \<lparr>subscribers = Some es, subscriber_count = 2\<rparr>"
  let ?M = "[100 \<mapsto> two_state_fsm 5 True, 200 \<mapsto> two_state_fsm 7 True]"
  have init: "static_event_publisher_init (Some \<lparr>config = c\<rparr>) (Some c) = Inr (ERR_NONE, \<lparr>config = c\<rparr>)"
    by (simp add: static_event_publisher_init_def static_event_publisher_validate_config_def c_def es_def
        for_each.simps [of 0] for_each.simps [of 1] for_each.simps [of 2] arr_get_def)
  have run: "machines_run (callback_context ` set es) (?M, [])"
    using two_state_inv [of 5 True] two_state_inv [of 7 True]
    by (simp add: machines_run_def es_def) (simp add: two_state_fsm_def)
  have start: "map (\<lambda>e. the (?M (callback_context e))) es = [two_state_fsm 5 True, two_state_fsm 7 True]"
    by (simp add: es_def)
  have "\<exists>gs M' w'. static_event_publisher_notify_subscribers (forwarding_callbacks echo_app) (Some \<lparr>config = c\<rparr>) 1
        (?M, []) = Inr (\<lparr>config = c\<rparr>, M', w')
      \<and> handled_in_turn echo_app 1 (map (\<lambda>e. the (?M (callback_context e))) es) [] gs w'"
    using published_event_drives_machines [OF echo_leaves _ _ init, of es "forwarding_callbacks echo_app" ?M "[]" 1]
      forwarding_forwards [of echo_app] run by (simp add: c_def) (simp add: es_def, blast)
  then show ?thesis unfolding start by (simp add: c_def es_def)
qed

end
