(* ===== verification/Copy_Queue.thy ===== *)
theory Copy_Queue
  imports Error_Codes
begin

text \<open>
  The queue of fixed-size elements of \<open>src/collections/copy_queue.c\<close>: elements are copied
  byte by byte into a caller-provided array at \<open>tail_idx\<close> and out of it at \<open>head_idx\<close>.

  Both indices only ever grow: no operation of the C code brings them back to the start of
  the array. The interface \<open>fifo_queue\<close> therefore has a predicate \<open>room\<close> for the states in
  which an enqueue is served, and the model shows which states those are: fewer than
  \<open>element_count\<close> enqueues since initialisation. What happens after that is stated and
  proved as well.
\<close>

section \<open>Model\<close>

record CopyQueueConfig =
  queue_buffer :: "uint8_t list option"
  queue_size :: size_t
  element_count :: size_t
  cfg_element_size :: size_t

record CopyQueue =
  count :: size_t
  max_size :: size_t
  element_size :: size_t
  buffer :: "uint8_t list option"
  tail_idx :: size_t
  head_idx :: size_t

definition copy_queue_validate_config :: "CopyQueueConfig \<Rightarrow> ErrorCodes result" where
  "copy_queue_validate_config config =
     r_bind (assert_ptr (queue_buffer config)) (\<lambda>_.
       if cfg_element_size config = 0 then Inr ERR_INVALID_ARG
       else if queue_size config = 0 then Inr ERR_INVALID_ARG
       else if element_count config = 0 then Inr ERR_INVALID_ARG
       else if queue_size config < element_count config * cfg_element_size config
       then Inr ERR_INVALID_ARG
       else Inr ERR_NONE)"

definition copy_queue_init ::
    "CopyQueue option \<Rightarrow> CopyQueueConfig option \<Rightarrow> (ErrorCodes \<times> CopyQueue) result" where
  "copy_queue_init queue config =
     r_bind (assert_ptr queue) (\<lambda>q.
     r_bind (assert_ptr config) (\<lambda>cfg.
     r_bind (copy_queue_validate_config cfg) (\<lambda>ret.
       if ret \<noteq> ERR_NONE then Inr (ret, q)
       else Inr (ret,
                 q\<lparr>buffer := queue_buffer cfg, element_size := cfg_element_size cfg,
                   max_size := element_count cfg, count := 0, tail_idx := 0, head_idx := 0\<rparr>))))"

definition copy_queue_deinit :: "CopyQueue option \<Rightarrow> CopyQueue result" where
  "copy_queue_deinit queue =
     r_bind (assert_ptr queue) (\<lambda>q.
       Inr (q\<lparr>buffer := None, element_size := 0, max_size := 0, count := 0,
              tail_idx := 0, head_idx := 0\<rparr>))"

definition copy_queue_get_remaining :: "CopyQueue option \<Rightarrow> size_t result" where
  "copy_queue_get_remaining queue =
     r_bind (assert_ptr queue) (\<lambda>q. Inr (max_size q - count q))"

definition copy_queue_get_size :: "CopyQueue option \<Rightarrow> size_t result" where
  "copy_queue_get_size queue = r_bind (assert_ptr queue) (\<lambda>q. Inr (count q))"

definition copy_queue_enqueue ::
    "CopyQueue option \<Rightarrow> uint8_t list option \<Rightarrow> (ErrorCodes \<times> CopyQueue) result" where
  "copy_queue_enqueue queue element =
     r_bind (assert_ptr queue) (\<lambda>q.
     r_bind (assert_ptr element) (\<lambda>_.
     r_bind (copy_queue_get_remaining (Some q)) (\<lambda>n.
       if n = 0 then Inr (ERR_NO_MEM, q)
       else r_bind (mem_copy (buffer q) (tail_idx q) element 0 (element_size q)) (\<lambda>cells.
         Inr (ERR_NONE,
              q\<lparr>buffer := cells, tail_idx := tail_idx q + element_size q, count := count q + 1\<rparr>)))))"

definition copy_queue_dequeue ::
    "CopyQueue option \<Rightarrow> uint8_t list option
     \<Rightarrow> (ErrorCodes \<times> CopyQueue \<times> uint8_t list option) result" where
  "copy_queue_dequeue queue element =
     r_bind (assert_ptr queue) (\<lambda>q.
     r_bind (assert_ptr element) (\<lambda>_.
     r_bind (copy_queue_get_size (Some q)) (\<lambda>n.
       if n = 0 then Inr (ERR_EMPTY, q, element)
       else r_bind (mem_copy element 0 (buffer q) (head_idx q) (element_size q)) (\<lambda>out.
         Inr (ERR_NONE,
              q\<lparr>head_idx := head_idx q + element_size q, count := count q - 1\<rparr>, out)))))"

definition copy_queue_peek ::
    "CopyQueue option \<Rightarrow> uint8_t list option
     \<Rightarrow> (ErrorCodes \<times> uint8_t list option) result" where
  "copy_queue_peek queue element =
     r_bind (assert_ptr queue) (\<lambda>q.
     r_bind (assert_ptr element) (\<lambda>_.
     r_bind (copy_queue_get_size (Some q)) (\<lambda>n.
       if n = 0 then Inr (ERR_EMPTY, element)
       else r_bind (mem_copy element 0 (buffer q) (head_idx q) (element_size q)) (\<lambda>out.
         Inr (ERR_NONE, out)))))"

text \<open>The cells, the invariant, the elements held (oldest first), and the room left.\<close>

definition cq_cells :: "CopyQueue \<Rightarrow> uint8_t list" where
  "cq_cells q = (case buffer q of None \<Rightarrow> [] | Some xs \<Rightarrow> xs)"

definition cq_bytes :: "CopyQueue \<Rightarrow> nat" where
  "cq_bytes q = unat (max_size q) * unat (element_size q)"

definition cq_inv :: "CopyQueue \<Rightarrow> bool" where
  "cq_inv q \<longleftrightarrow> buffer q \<noteq> None \<and> element_size q \<noteq> 0
     \<and> cq_bytes q \<le> length (cq_cells q) \<and> cq_bytes q < 2 ^ 64
     \<and> unat (tail_idx q) = unat (head_idx q) + unat (count q) * unat (element_size q)
     \<and> unat (tail_idx q) \<le> cq_bytes q"

definition cq_contents :: "CopyQueue \<Rightarrow> uint8_t list list" where
  "cq_contents q =
     map (\<lambda>k. take (unat (element_size q))
                 (drop (unat (head_idx q) + k * unat (element_size q)) (cq_cells q)))
       [0..<unat (count q)]"

definition cq_room :: "CopyQueue \<Rightarrow> bool" where
  "cq_room q \<longleftrightarrow> unat (tail_idx q) + unat (element_size q) \<le> cq_bytes q"

section \<open>The interface\<close>

text \<open>Enqueueing a list, and dequeueing a number of times into copies of one variable.\<close>

fun enqueue_all :: "('q \<Rightarrow> 'e \<Rightarrow> (ErrorCodes \<times> 'q) result) \<Rightarrow> 'q \<Rightarrow> 'e list \<Rightarrow> 'q result" where
  "enqueue_all enq q [] = Inr q"
| "enqueue_all enq q (e # es) = r_bind (enq q e) (\<lambda>(_, q'). enqueue_all enq q' es)"

fun dequeue_all ::
    "('q \<Rightarrow> 'e \<Rightarrow> (ErrorCodes \<times> 'q \<times> 'e option) result) \<Rightarrow> 'q \<Rightarrow> 'e \<Rightarrow> nat
     \<Rightarrow> ('e option list \<times> 'q) result" where
  "dequeue_all deq q d 0 = Inr ([], q)"
| "dequeue_all deq q d (Suc n) =
     r_bind (deq q d) (\<lambda>(_, q', e).
     r_bind (dequeue_all deq q' d n) (\<lambda>(es, q''). Inr (e # es, q'')))"

text \<open>
  A session of enqueues and dequeues in any order, with the replies of the unbounded first-in first-out
  queue, and the same session run on an implementation.
\<close>

datatype 'e queue_op = Enqueue 'e | Dequeue

datatype 'e queue_reply = Enqueued ErrorCodes | Dequeued ErrorCodes "'e option"

fun spec_queue_session :: "'e \<Rightarrow> 'e list \<Rightarrow> 'e queue_op list \<Rightarrow> 'e queue_reply list" where
  "spec_queue_session d q [] = []"
| "spec_queue_session d q (Enqueue e # ops) = Enqueued ERR_NONE # spec_queue_session d (q @ [e]) ops"
| "spec_queue_session d [] (Dequeue # ops) = Dequeued ERR_EMPTY (Some d) # spec_queue_session d [] ops"
| "spec_queue_session d (e # q) (Dequeue # ops) = Dequeued ERR_NONE (Some e) # spec_queue_session d q ops"

fun run_queue_session ::
    "('q \<Rightarrow> 'e \<Rightarrow> (ErrorCodes \<times> 'q) result) \<Rightarrow> ('q \<Rightarrow> 'e \<Rightarrow> (ErrorCodes \<times> 'q \<times> 'e option) result)
     \<Rightarrow> 'e \<Rightarrow> 'q \<Rightarrow> 'e queue_op list \<Rightarrow> 'e queue_reply list result" where
  "run_queue_session enq deq d q [] = Inr []"
| "run_queue_session enq deq d q (Enqueue e # ops) =
     r_bind (enq q e) (\<lambda>(r, q').
     r_bind (run_queue_session enq deq d q' ops) (\<lambda>rs. Inr (Enqueued r # rs)))"
| "run_queue_session enq deq d q (Dequeue # ops) =
     r_bind (deq q d) (\<lambda>(r, q', e).
     r_bind (run_queue_session enq deq d q' ops) (\<lambda>rs. Inr (Dequeued r e # rs)))"

fun enqueued :: "'e queue_op list \<Rightarrow> 'e list" where
  "enqueued [] = []"
| "enqueued (Enqueue e # ops) = e # enqueued ops"
| "enqueued (Dequeue # ops) = enqueued ops"

locale fifo_queue =
  fixes enqueue :: "'q \<Rightarrow> 'e \<Rightarrow> (ErrorCodes \<times> 'q) result"
    and dequeue :: "'q \<Rightarrow> 'e \<Rightarrow> (ErrorCodes \<times> 'q \<times> 'e option) result"
    and inv :: "'q \<Rightarrow> bool"
    and element :: "'q \<Rightarrow> 'e \<Rightarrow> bool"
    and slots :: "'q \<Rightarrow> nat"
    and contents :: "'q \<Rightarrow> 'e list"
  assumes enqueue_step: "inv q \<Longrightarrow> element q e \<Longrightarrow> 0 < slots q \<Longrightarrow>
        \<exists>q'. enqueue q e = Inr (ERR_NONE, q') \<and> inv q' \<and> element q' = element q
             \<and> slots q' = slots q - 1 \<and> contents q' = contents q @ [e]"
    and dequeue_empty: "inv q \<Longrightarrow> contents q = [] \<Longrightarrow> dequeue q d = Inr (ERR_EMPTY, q, Some d)"
    and dequeue_step: "inv q \<Longrightarrow> element q d \<Longrightarrow> contents q = e # es \<Longrightarrow>
        \<exists>q'. dequeue q d = Inr (ERR_NONE, q', Some e) \<and> inv q' \<and> element q' = element q
             \<and> slots q' = slots q \<and> contents q' = es"
begin

lemma enqueue_all_appends:
  assumes "inv q" and "list_all (element q) es" and "length es \<le> slots q"
  shows "\<exists>q'. enqueue_all enqueue q es = Inr q' \<and> inv q' \<and> element q' = element q
           \<and> slots q' = slots q - length es \<and> contents q' = contents q @ es"
  using assms
proof (induction es arbitrary: q)
  case Nil
  then show ?case by simp
next
  case (Cons e es)
  then obtain q1 where q1: "enqueue q e = Inr (ERR_NONE, q1)" "inv q1" "element q1 = element q"
    "slots q1 = slots q - 1" "contents q1 = contents q @ [e]"
    using enqueue_step [of q e] by auto
  then show ?case
    using Cons.IH [OF q1(2)] Cons.prems by auto
qed

lemma dequeue_all_contents:
  assumes "inv q" and "element q d"
  shows "\<exists>q'. dequeue_all dequeue q d (length (contents q)) = Inr (map Some (contents q), q')
           \<and> inv q' \<and> contents q' = []"
  using assms
proof (induction "contents q" arbitrary: q)
  case Nil
  then show ?case by auto
next
  case (Cons e es)
  then obtain q1 where q1: "dequeue q d = Inr (ERR_NONE, q1, Some e)" "inv q1"
    "element q1 = element q" "contents q1 = es"
    using dequeue_step [of q d e es] by metis
  then show ?case
    using Cons.hyps(1) [of q1] Cons.hyps(2) [symmetric] Cons.prems by auto
qed

text \<open>A session whose enqueues find room gets the replies of the unbounded queue.\<close>

lemma queue_session:
  assumes "inv q" and "element q d" and "list_all (element q) (enqueued ops)"
    and "length (enqueued ops) \<le> slots q"
  shows "run_queue_session enqueue dequeue d q ops = Inr (spec_queue_session d (contents q) ops)"
  using assms
proof (induction ops arbitrary: q)
  case (Cons op ops)
  show ?case
  proof (cases op)
    case (Enqueue e)
    obtain q' where "enqueue q e = Inr (ERR_NONE, q')" "inv q'" "element q' = element q"
        "slots q' = slots q - 1" "contents q' = contents q @ [e]"
      using enqueue_step [OF Cons.prems(1), of e] Cons.prems(3,4) Enqueue by auto
    then show ?thesis using Cons.IH [of q'] Cons.prems Enqueue by simp
  next
    case Dequeue
    show ?thesis
    proof (cases "contents q")
      case Nil
      then show ?thesis
        using dequeue_empty [OF Cons.prems(1) Nil, of d] Cons.IH [of q] Cons.prems Dequeue by simp
    next
      case (Cons e es)
      obtain q' where "dequeue q d = Inr (ERR_NONE, q', Some e)" "inv q'" "element q' = element q"
          "slots q' = slots q" "contents q' = es"
        using dequeue_step [OF Cons.prems(1,2) Cons] by auto
      then show ?thesis using Cons.IH [of q'] Cons.prems Dequeue Cons by simp
    qed
  qed
qed simp

text \<open>Elements come out in the order they went in.\<close>

lemma fifo_order:
  assumes "inv q" and "contents q = []" and "list_all (element q) es" and "length es \<le> slots q"
    and "element q d"
  shows "\<exists>q' q''. enqueue_all enqueue q es = Inr q'
           \<and> dequeue_all dequeue q' d (length es) = Inr (map Some es, q'') \<and> contents q'' = []"
  using enqueue_all_appends [OF assms(1,3,4)] dequeue_all_contents assms by fastforce

end

section \<open>Layout of the elements\<close>

lemma take_drop_append:
  assumes "a + e \<le> t" and "t \<le> length xs"
  shows "take e (drop a (take t xs @ ys)) = take e (drop a xs)"
proof -
  have "e \<le> t - a" using assms(1) by simp
  then show ?thesis using assms by (simp add: drop_take)
qed

lemma cq_invD:
  assumes "cq_inv q"
  shows "\<exists>xs. buffer q = Some xs \<and> cq_cells q = xs \<and> cq_bytes q \<le> length xs"
    and "0 < unat (element_size q)" and "cq_bytes q < 2 ^ 64"
    and "unat (tail_idx q) = unat (head_idx q) + unat (count q) * unat (element_size q)"
    and "unat (tail_idx q) \<le> cq_bytes q"
  using assms by (auto simp: cq_inv_def cq_cells_def unat_gt_0)

lemma cq_count_le: "cq_inv q \<Longrightarrow> unat (count q) \<le> unat (max_size q)"
proof -
  assume "cq_inv q"
  then have "unat (count q) * unat (element_size q) \<le> unat (max_size q) * unat (element_size q)"
    using cq_invD(4,5) [of q] unfolding cq_bytes_def by linarith
  then show ?thesis using cq_invD(2) [OF \<open>cq_inv q\<close>] by (simp only: mult_le_cancel2)
qed

lemma cq_room_count_lt: "cq_inv q \<Longrightarrow> cq_room q \<Longrightarrow> unat (count q) < unat (max_size q)"
proof -
  assume "cq_inv q" "cq_room q"
  then have "Suc (unat (count q)) * unat (element_size q) \<le> unat (max_size q) * unat (element_size q)"
    using cq_invD(4) [of q] by (simp add: cq_room_def cq_bytes_def)
  then have "Suc (unat (count q)) \<le> unat (max_size q)"
    using cq_invD(2) [OF \<open>cq_inv q\<close>] by (simp only: mult_le_cancel2)
  then show ?thesis by simp
qed

text \<open>The enqueues still possible before \<open>tail_idx\<close> reaches the end of the array.\<close>

definition cq_slots :: "CopyQueue \<Rightarrow> nat" where
  "cq_slots q = (cq_bytes q - unat (tail_idx q)) div unat (element_size q)"

lemma cq_slots_pos: "cq_inv q \<Longrightarrow> 0 < cq_slots q \<longleftrightarrow> cq_room q"
  using cq_invD(2,5) [of q] by (auto simp: cq_slots_def cq_room_def div_greater_zero_iff)

lemma cq_chunk_below_tail:
  "cq_inv q \<Longrightarrow> k < unat (count q) \<Longrightarrow>
   unat (head_idx q) + k * unat (element_size q) + unat (element_size q) \<le> unat (tail_idx q)"
proof -
  assume inv: "cq_inv q" and k: "k < unat (count q)"
  have "Suc k * unat (element_size q) \<le> unat (count q) * unat (element_size q)"
    using k by (intro mult_right_mono) auto
  then show ?thesis using cq_invD(4) [OF inv] by simp
qed

lemma copy_queue_enqueue_step:
  assumes inv: "cq_inv q" and room: "cq_room q" and len: "length e = unat (element_size q)"
  shows "\<exists>q'. copy_queue_enqueue (Some q) (Some e) = Inr (ERR_NONE, q') \<and> cq_inv q'
           \<and> max_size q' = max_size q \<and> element_size q' = element_size q
           \<and> cq_slots q' = cq_slots q - 1 \<and> cq_contents q' = cq_contents q @ [e]"
proof -
  let ?e = "unat (element_size q)" and ?t = "unat (tail_idx q)" and ?h = "unat (head_idx q)"
  obtain xs where xs: "buffer q = Some xs" "cq_cells q = xs" "cq_bytes q \<le> length xs"
    using cq_invD(1) [OF inv] by blast
  have lt: "unat (count q) < unat (max_size q)" by (rule cq_room_count_lt [OF inv room])
  let ?ys = "take ?t xs @ e @ drop (?t + ?e) xs"
  let ?q' = "q\<lparr>buffer := Some ?ys, tail_idx := tail_idx q + element_size q, count := count q + 1\<rparr>"
  have fit: "?t + ?e \<le> length xs" using room xs(3) by (simp add: cq_room_def)
  have "max_size q \<noteq> count q" using lt by auto
  then have run: "copy_queue_enqueue (Some q) (Some e) = Inr (ERR_NONE, ?q')"
    using xs fit len by (simp add: copy_queue_enqueue_def copy_queue_get_remaining_def mem_copy_def)
  have cnt: "unat (count q + 1) = Suc (unat (count q))" by (rule unat_Suc_size [OF lt])
  have tl: "unat (tail_idx q + element_size q) = ?t + ?e"
    using room cq_invD(3) [OF inv] by (simp add: unat_word_ariths(1) cq_room_def)
  have cells: "cq_cells ?q' = ?ys" by (simp add: cq_cells_def)
  have bytes: "cq_bytes ?q' = cq_bytes q" by (simp add: cq_bytes_def)
  have inv': "cq_inv ?q'"
    using inv room xs fit len cnt tl bytes cells by (simp add: cq_inv_def cq_room_def)
  have "cq_slots ?q' = cq_slots q - 1"
    using cq_invD(2) [OF inv] bytes tl
      le_div_geq [of ?e "cq_bytes q - ?t"] room
    by (simp add: cq_slots_def cq_room_def)
  moreover have "cq_contents ?q' = cq_contents q @ [e]"
  proof -
    have "take ?e (drop (?h + k * ?e) ?ys) = take ?e (drop (?h + k * ?e) xs)" if "k < unat (count q)" for k
      using cq_chunk_below_tail [OF inv that] fit by (intro take_drop_append) auto
    moreover have "take ?e (drop (?h + unat (count q) * ?e) ?ys) = e"
      using cq_invD(4) [OF inv] fit len by simp
    ultimately show ?thesis by (simp add: cq_contents_def cnt cells xs(2))
  qed
  ultimately show ?thesis using run inv' by auto
qed

lemma copy_queue_head:
  assumes inv: "cq_inv q" and cons: "cq_contents q = e # es" and len: "length d = unat (element_size q)"
  shows "count q \<noteq> 0"
    and "mem_copy (Some d) 0 (buffer q) (head_idx q) (element_size q) = Inr (Some e)"
    and "length e = unat (element_size q)"
proof -
  let ?e = "unat (element_size q)" and ?h = "unat (head_idx q)"
  obtain xs where xs: "buffer q = Some xs" "cq_cells q = xs" "cq_bytes q \<le> length xs"
    using cq_invD(1) [OF inv] by blast
  show nz: "count q \<noteq> 0" using cons by (auto simp: cq_contents_def)
  then have c: "0 < unat (count q)" by (simp add: unat_gt_0)
  have "?h + ?e \<le> length xs"
    using cq_chunk_below_tail [OF inv c] cq_invD(5) [OF inv] xs(3) by simp
  moreover have "e = take ?e (drop ?h xs)"
    using cons c xs(2) by (simp add: cq_contents_def upt_conv_Cons)
  ultimately show "mem_copy (Some d) 0 (buffer q) (head_idx q) (element_size q) = Inr (Some e)"
    and "length e = ?e"
    using xs(1) len by (auto simp: mem_copy_def)
qed

lemma copy_queue_dequeue_step:
  assumes inv: "cq_inv q" and cons: "cq_contents q = e # es" and len: "length d = unat (element_size q)"
  shows "\<exists>q'. copy_queue_dequeue (Some q) (Some d) = Inr (ERR_NONE, q', Some e) \<and> cq_inv q'
           \<and> max_size q' = max_size q \<and> element_size q' = element_size q
           \<and> cq_slots q' = cq_slots q \<and> cq_contents q' = es"
proof -
  let ?e = "unat (element_size q)" and ?h = "unat (head_idx q)"
  note head = copy_queue_head [OF assms]
  let ?q' = "q\<lparr>head_idx := head_idx q + element_size q, count := count q - 1\<rparr>"
  have run: "copy_queue_dequeue (Some q) (Some d) = Inr (ERR_NONE, ?q', Some e)"
    using head by (simp add: copy_queue_dequeue_def copy_queue_get_size_def)
  obtain c where c: "unat (count q) = Suc c" using head(1) by (cases "unat (count q)") auto
  have cnt: "unat (count q - 1) = c" using unat_pred_size [OF head(1)] c by simp
  have "?h + ?e \<le> unat (tail_idx q)" using cq_chunk_below_tail [OF inv, of 0] c by simp
  then have hd: "unat (head_idx q + element_size q) = ?h + ?e"
    using cq_invD(3,5) [OF inv] by (simp add: unat_word_ariths(1))
  have cells: "cq_cells ?q' = cq_cells q" "cq_bytes ?q' = cq_bytes q"
    by (simp_all add: cq_cells_def cq_bytes_def)
  have "cq_inv ?q'"
    using inv cells cnt hd cq_invD(4) [OF inv] c by (simp add: cq_inv_def)
  moreover have "cq_contents ?q' = es"
    using cons c by (simp add: cq_contents_def cells cnt hd map_upt_Suc add.assoc del: upt_Suc)
  ultimately show ?thesis using run cells by (auto simp: cq_slots_def)
qed

section \<open>The contract\<close>

interpretation cq: fifo_queue
  "\<lambda>q e. copy_queue_enqueue (Some q) (Some e)" "\<lambda>q d. copy_queue_dequeue (Some q) (Some d)"
  cq_inv "\<lambda>q e. length e = unat (element_size q)" cq_slots cq_contents
proof unfold_locales
  fix q d e es
  assume inv: "cq_inv q"
  show "\<exists>q'. copy_queue_enqueue (Some q) (Some e) = Inr (ERR_NONE, q') \<and> cq_inv q'
      \<and> (\<lambda>e. length e = unat (element_size q')) = (\<lambda>e. length e = unat (element_size q))
      \<and> cq_slots q' = cq_slots q - 1 \<and> cq_contents q' = cq_contents q @ [e]"
    if "length e = unat (element_size q)" and "0 < cq_slots q"
    using copy_queue_enqueue_step [OF inv _ that(1)] that(2) cq_slots_pos [OF inv] by auto
  show "copy_queue_dequeue (Some q) (Some d) = Inr (ERR_EMPTY, q, Some d)"
    if "cq_contents q = []"
    using that by (simp add: copy_queue_dequeue_def copy_queue_get_size_def cq_contents_def)
  show "\<exists>q'. copy_queue_dequeue (Some q) (Some d) = Inr (ERR_NONE, q', Some e) \<and> cq_inv q'
      \<and> (\<lambda>e. length e = unat (element_size q')) = (\<lambda>e. length e = unat (element_size q))
      \<and> cq_slots q' = cq_slots q \<and> cq_contents q' = es"
    if "length d = unat (element_size q)" and "cq_contents q = e # es"
    using copy_queue_dequeue_step [OF inv that(2,1)] by auto
qed

lemma copy_queue_init_state:
  assumes "queue_buffer cfg = Some xs" and "cfg_element_size cfg \<noteq> 0" and "element_count cfg \<noteq> 0"
    and "unat (element_count cfg) * unat (cfg_element_size cfg) \<le> unat (queue_size cfg)"
    and "unat (queue_size cfg) \<le> length xs"
  shows "\<exists>q. copy_queue_init (Some junk) (Some cfg) = Inr (ERR_NONE, q) \<and> cq_inv q
           \<and> max_size q = element_count cfg \<and> element_size q = cfg_element_size cfg
           \<and> cq_contents q = [] \<and> cq_slots q = unat (element_count cfg)"
proof -
  let ?n = "unat (element_count cfg)" and ?e = "unat (cfg_element_size cfg)"
  have pos: "0 < ?n" "0 < ?e" using assms(2,3) by (simp_all add: unat_gt_0)
  have lt: "?n * ?e < 18446744073709551616"
    using assms(4) unat_size_lt [of "queue_size cfg"] by linarith
  then have "unat (element_count cfg * cfg_element_size cfg) = ?n * ?e"
    by (simp add: unat_word_ariths(2))
  then have ok: "\<not> queue_size cfg < element_count cfg * cfg_element_size cfg"
    using assms(4) by (simp add: word_less_nat_alt)
  have "0 < ?n * ?e" using pos by simp
  then have "queue_size cfg \<noteq> 0" using assms(4) by auto
  then show ?thesis
    using assms ok lt pos
    by (auto simp: copy_queue_init_def copy_queue_validate_config_def cq_inv_def cq_cells_def
        cq_bytes_def cq_contents_def cq_slots_def)
qed

lemma copy_queue_enqueue_past_end:
  assumes "cq_inv q" and "cq_slots q = 0" and "count q \<noteq> max_size q"
    and "length (cq_cells q) = cq_bytes q"
  shows "copy_queue_enqueue (Some q) (Some e) = Inl Out_of_bounds"
proof -
  obtain xs where xs: "buffer q = Some xs" "cq_cells q = xs" using cq_invD(1) [OF assms(1)] by blast
  have "\<not> unat (tail_idx q) + unat (element_size q) \<le> length xs"
    using cq_slots_pos [OF assms(1)] assms(2,4) xs(2) by (simp add: cq_room_def)
  then show ?thesis
    using assms(3) xs(1)
    by (simp add: copy_queue_enqueue_def copy_queue_get_remaining_def mem_copy_def)
qed

lemma enqueue_shape:
  "copy_queue_enqueue (Some q) (Some e) = Inr (r, q') \<Longrightarrow> length (cq_cells q') = length (cq_cells q)
    \<and> max_size q' = max_size q \<and> element_size q' = element_size q"
  by (auto simp: copy_queue_enqueue_def mem_copy_def cq_cells_def split: if_splits)

lemma enqueue_all_shape:
  "enqueue_all (\<lambda>q e. copy_queue_enqueue (Some q) (Some e)) q es = Inr q' \<Longrightarrow>
    length (cq_cells q') = length (cq_cells q) \<and> max_size q' = max_size q
    \<and> element_size q' = element_size q"
  by (induction es arbitrary: q) (auto dest: enqueue_shape)

section \<open>Properties\<close>

text \<open>
  C17. From initialisation, every session of enqueues and dequeues in any order, with at most
  \<open>element_count\<close> enqueues, returns what a first-in first-out queue returns: no call faults, elements come
  out in order with their bytes intact, and a dequeue from an empty queue reports \<open>ERR_EMPTY\<close> and leaves
  the caller's variable.
\<close>

theorem copy_queue_session:
  assumes "queue_buffer cfg = Some xs" and "cfg_element_size cfg \<noteq> 0" and "element_count cfg \<noteq> 0"
    and "unat (element_count cfg) * unat (cfg_element_size cfg) \<le> unat (queue_size cfg)"
    and "unat (queue_size cfg) \<le> length xs"
    and "list_all (\<lambda>e. length e = unat (cfg_element_size cfg)) (d # enqueued ops)"
    and "length (enqueued ops) \<le> unat (element_count cfg)"
  shows "\<exists>q. copy_queue_init (Some junk) (Some cfg) = Inr (ERR_NONE, q)
    \<and> run_queue_session (\<lambda>q e. copy_queue_enqueue (Some q) (Some e))
        (\<lambda>q d. copy_queue_dequeue (Some q) (Some d)) d q ops = Inr (spec_queue_session d [] ops)"
proof -
  obtain q where q: "copy_queue_init (Some junk) (Some cfg) = Inr (ERR_NONE, q)" "cq_inv q"
      "element_size q = cfg_element_size cfg" "cq_contents q = []"
      "cq_slots q = unat (element_count cfg)"
    using copy_queue_init_state [OF assms(1-5)] by blast
  then show ?thesis using cq.queue_session [OF q(2), of d ops] assms(6,7) by simp
qed

theorem copy_queue_session_witness:
  "\<exists>q. copy_queue_init (Some \<lparr>count = 0, max_size = 0, element_size = 0, buffer = None,
        tail_idx = 0, head_idx = 0\<rparr>)
      (Some \<lparr>queue_buffer = Some [0, 0, 0, 0], queue_size = 4, element_count = 2,
        cfg_element_size = 2\<rparr>) = Inr (ERR_NONE, q)
    \<and> run_queue_session (\<lambda>q e. copy_queue_enqueue (Some q) (Some e))
        (\<lambda>q d. copy_queue_dequeue (Some q) (Some d)) [0, 0] q
        [Enqueue [1, 2], Dequeue, Dequeue, Enqueue [3, 4], Dequeue]
      = Inr [Enqueued ERR_NONE, Dequeued ERR_NONE (Some [1, 2]), Dequeued ERR_EMPTY (Some [0, 0]),
          Enqueued ERR_NONE, Dequeued ERR_NONE (Some [3, 4])]"
  using copy_queue_session [of "\<lparr>queue_buffer = Some [0, 0, 0, 0], queue_size = 4, element_count = 2,
        cfg_element_size = 2\<rparr>" "[0, 0, 0, 0]" "[0, 0]"
      "[Enqueue [1, 2], Dequeue, Dequeue, Enqueue [3, 4], Dequeue]"]
  by (simp del: run_queue_session.simps)

text \<open>
  From initialisation, up to \<open>element_count\<close> elements of \<open>element_size\<close> bytes go in and come out
  in the same order with their bytes intact.
\<close>

theorem copy_queue_fifo:
  assumes "queue_buffer cfg = Some xs" and "cfg_element_size cfg \<noteq> 0" and "element_count cfg \<noteq> 0"
    and "unat (element_count cfg) * unat (cfg_element_size cfg) \<le> unat (queue_size cfg)"
    and "unat (queue_size cfg) \<le> length xs"
    and "list_all (\<lambda>e. length e = unat (cfg_element_size cfg)) es"
    and "length es \<le> unat (element_count cfg)" and "length d = unat (cfg_element_size cfg)"
  shows "\<exists>q q' q''. copy_queue_init (Some junk) (Some cfg) = Inr (ERR_NONE, q)
    \<and> enqueue_all (\<lambda>q e. copy_queue_enqueue (Some q) (Some e)) q es = Inr q'
    \<and> dequeue_all (\<lambda>q d. copy_queue_dequeue (Some q) (Some d)) q' d (length es) = Inr (map Some es, q'')
    \<and> cq_contents q'' = []"
proof -
  obtain q where q: "copy_queue_init (Some junk) (Some cfg) = Inr (ERR_NONE, q)" "cq_inv q"
      "element_size q = cfg_element_size cfg" "cq_contents q = []"
      "cq_slots q = unat (element_count cfg)"
    using copy_queue_init_state [OF assms(1-5)] by blast
  show ?thesis using cq.fifo_order [OF q(2,4), of es d] assms(6-8) q by auto
qed

theorem copy_queue_fifo_witness:
  "\<exists>q q' q''. copy_queue_init (Some \<lparr>count = 0, max_size = 0, element_size = 0, buffer = None,
        tail_idx = 0, head_idx = 0\<rparr>)
      (Some \<lparr>queue_buffer = Some [0, 0, 0, 0], queue_size = 4, element_count = 2,
        cfg_element_size = 2\<rparr>) = Inr (ERR_NONE, q)
    \<and> enqueue_all (\<lambda>q e. copy_queue_enqueue (Some q) (Some e)) q [[1, 2], [3, 4]] = Inr q'
    \<and> dequeue_all (\<lambda>q d. copy_queue_dequeue (Some q) (Some d)) q' [0, 0] (length [[1, 2], [3, 4 :: uint8_t]])
        = Inr (map Some [[1, 2], [3, 4]], q'')
    \<and> cq_contents q'' = []"
  by (rule copy_queue_fifo [where xs = "[0, 0, 0, 0]"]) simp_all

text \<open>
  C36. On a buffer of exactly \<open>element_count * element_size\<close> bytes the queue cannot be reused: after
  \<open>element_count\<close> enqueues and one dequeue it reports room for one element, and enqueueing it
  writes past the end of the buffer.
\<close>

theorem copy_queue_reuse_overruns:
  assumes "queue_buffer cfg = Some xs" and "cfg_element_size cfg \<noteq> 0" and "element_count cfg \<noteq> 0"
    and "unat (element_count cfg) * unat (cfg_element_size cfg) = length xs"
    and "unat (queue_size cfg) = length xs"
    and "list_all (\<lambda>e. length e = unat (cfg_element_size cfg)) es"
    and "length es = unat (element_count cfg)" and "length d = unat (cfg_element_size cfg)"
  shows "\<exists>q q' q'' x. copy_queue_init (Some junk) (Some cfg) = Inr (ERR_NONE, q)
    \<and> enqueue_all (\<lambda>q e. copy_queue_enqueue (Some q) (Some e)) q es = Inr q'
    \<and> copy_queue_dequeue (Some q') (Some d) = Inr (ERR_NONE, q'', x)
    \<and> copy_queue_get_remaining (Some q'') = Inr 1
    \<and> copy_queue_enqueue (Some q'') (Some e) = Inl Out_of_bounds"
proof -
  obtain q where q: "copy_queue_init (Some junk) (Some cfg) = Inr (ERR_NONE, q)" "cq_inv q"
      "max_size q = element_count cfg" "element_size q = cfg_element_size cfg" "cq_contents q = []"
      "cq_slots q = unat (element_count cfg)"
    using copy_queue_init_state [OF assms(1-3)] assms(4,5) by (metis order_refl)
  have "q = junk\<lparr>buffer := queue_buffer cfg, element_size := cfg_element_size cfg,
      max_size := element_count cfg, count := 0, tail_idx := 0, head_idx := 0\<rparr>"
    using q(1) by (auto simp: copy_queue_init_def split: if_splits)
  then have "cq_cells q = xs" by (simp add: cq_cells_def assms(1))
  obtain q' where q': "enqueue_all (\<lambda>q e. copy_queue_enqueue (Some q) (Some e)) q es = Inr q'"
      "cq_inv q'" "cq_slots q' = 0" "cq_contents q' = es"
    using cq.enqueue_all_appends [OF q(2), of es] assms(6,7) q by auto
  note shape = enqueue_all_shape [OF q'(1)]
  have full: "count q' = max_size q'"
    using arg_cong [OF q'(4), of length] assms(7) shape q(3) by (simp add: cq_contents_def)
  obtain x es' where es: "es = x # es'" using assms(3,7) by (cases es) auto
  obtain q'' where q'': "copy_queue_dequeue (Some q') (Some d) = Inr (ERR_NONE, q'', Some x)"
      "cq_inv q''" "cq_slots q'' = 0" "max_size q'' = max_size q'" "element_size q'' = element_size q'"
    using copy_queue_dequeue_step [OF q'(2), of x es' d] q'(3,4) es shape q(4) assms(8) by auto
  have run: "count q'' = count q' - 1" "cq_cells q'' = cq_cells q'"
    using q''(1) assms(3) full shape q(3)
    by (auto simp: copy_queue_dequeue_def copy_queue_get_size_def cq_cells_def split: if_splits)
  have "copy_queue_get_remaining (Some q'') = Inr 1"
    using run full q''(4) by (simp add: copy_queue_get_remaining_def)
  moreover have "copy_queue_enqueue (Some q'') (Some e) = Inl Out_of_bounds"
    using run full q'' shape q assms(4) \<open>cq_cells q = xs\<close>
    by (intro copy_queue_enqueue_past_end) (simp_all add: cq_bytes_def)
  ultimately show ?thesis using q(1) q'(1) q''(1) by blast
qed

theorem copy_queue_reuse_overruns_witness:
  "\<exists>q q' q'' x. copy_queue_init (Some \<lparr>count = 0, max_size = 0, element_size = 0, buffer = None,
        tail_idx = 0, head_idx = 0\<rparr>)
      (Some \<lparr>queue_buffer = Some [0, 0], queue_size = 2, element_count = 2,
        cfg_element_size = 1\<rparr>) = Inr (ERR_NONE, q)
    \<and> enqueue_all (\<lambda>q e. copy_queue_enqueue (Some q) (Some e)) q [[1], [2]] = Inr q'
    \<and> copy_queue_dequeue (Some q') (Some [0]) = Inr (ERR_NONE, q'', x)
    \<and> copy_queue_get_remaining (Some q'') = Inr 1
    \<and> copy_queue_enqueue (Some q'') (Some [3]) = Inl Out_of_bounds"
  by (rule copy_queue_reuse_overruns [where xs = "[0, 0]"]) simp_all

text \<open>
  The size check multiplies at the width of \<open>size_t\<close>: a configuration that promises \<open>2 ^ 63\<close>
  elements of two bytes in a buffer of one byte is accepted.
\<close>

theorem copy_queue_accepts_wrapped_size:
  "copy_queue_validate_config \<lparr>queue_buffer = Some [0], queue_size = 1,
     element_count = 0x8000000000000000, cfg_element_size = 2\<rparr> = Inr ERR_NONE"
  by (simp add: copy_queue_validate_config_def word_less_nat_alt)

text \<open>
  \<open>copy_queue_peek\<close> copies out the oldest element, the one the next dequeue returns, or reports
  \<open>ERR_EMPTY\<close> and leaves the caller's variable.
\<close>

theorem copy_queue_peek_oldest:
  assumes "cq_inv q" and "length d = unat (element_size q)"
  shows "case cq_contents q of
      [] \<Rightarrow> copy_queue_peek (Some q) (Some d) = Inr (ERR_EMPTY, Some d)
    | e # es \<Rightarrow> copy_queue_peek (Some q) (Some d) = Inr (ERR_NONE, Some e)
        \<and> (\<exists>q'. copy_queue_dequeue (Some q) (Some d) = Inr (ERR_NONE, q', Some e)
              \<and> cq_contents q' = es)"
proof (cases "cq_contents q")
  case Nil
  then show ?thesis
    by (simp add: copy_queue_peek_def copy_queue_get_size_def cq_contents_def)
next
  case (Cons e es)
  then show ?thesis
    using copy_queue_head [OF assms(1) Cons assms(2)] copy_queue_dequeue_step [OF assms(1) Cons assms(2)]
    by (auto simp: copy_queue_peek_def copy_queue_get_size_def)
qed

theorem copy_queue_peek_oldest_witness:
  "copy_queue_peek (Some \<lparr>count = 1, max_size = 2, element_size = 1, buffer = Some [5, 6],
     tail_idx = 2, head_idx = 1\<rparr>) (Some [0]) = Inr (ERR_NONE, Some [6])"
  using copy_queue_peek_oldest [of "\<lparr>count = 1, max_size = 2, element_size = 1, buffer = Some [5, 6],
     tail_idx = 2, head_idx = 1\<rparr>" "[0]"]
  by (simp add: cq_inv_def cq_bytes_def cq_cells_def cq_contents_def)

end
