(* ===== verification/Bsearch_Iter.thy ===== *)
theory Bsearch_Iter
  imports Error_Codes "HOL-Library.Signed_Division"
begin

text \<open>
  The generator-style binary search of \<open>src/search_algos/bsearch_iter.c\<close>: the caller asks for an index,
  looks the element up and reports the comparison. The 32-bit indices are integers whose every
  operation is checked against the range of the type, so a signed overflow is a fault of
  the model. The iterator is shown to implement a search on the set of the indices that can still
  hold the element; the loop of the header comment is then total, sound and complete.
\<close>

section \<open>Model\<close>

definition s32 :: "int \<Rightarrow> int result" where
  "s32 n = (if - (2 ^ 31) \<le> n \<and> n < 2 ^ 31 then Inr n else Inl Signed_overflow)"

datatype BsearchIteratorStatus =
    BSEARCH_CONTINUE
  | BSEARCH_DONE_NOT_FOUND
  | BSEARCH_DONE_FOUND

datatype BsearchNotification =
    BSEARCH_NOTIFY_LEFT
  | BSEARCH_NOTIFY_RIGHT
  | BSEARCH_NOTIFY_EQ
  | BSEARCH_NOTIFY_ERR_SKIP
  | BSEARCH_NOTIFY_ERR_ABORT

record BsearchIterator =
  status :: BsearchIteratorStatus
  left_idx :: int
  right_idx :: int
  pivot_idx :: int
  pivot_offset :: int

definition bsearch_get_next_pivot_offset :: "int \<Rightarrow> int result" where
  "bsearch_get_next_pivot_offset current_pivot_offset =
     (if current_pivot_offset = 0 then Inr 1
      else if current_pivot_offset > 0 then s32 (current_pivot_offset * - 1)
      else r_bind (s32 (current_pivot_offset * - 1)) (\<lambda>n. s32 (n + 1)))"

definition bsearch_get_midpoint_safe :: "int \<Rightarrow> int \<Rightarrow> int result" where
  "bsearch_get_midpoint_safe l r =
     r_bind (s32 (r - l)) (\<lambda>d. s32 (l + d sdiv 2))"

definition bsearch_iter_init ::
    "BsearchIterator option \<Rightarrow> int \<Rightarrow> int \<Rightarrow> (ErrorCodes \<times> BsearchIterator) result" where
  "bsearch_iter_init iter start_idx stop_idx =
     r_bind (assert_ptr iter) (\<lambda>it.
       if start_idx \<ge> stop_idx then Inr (ERR_INVALID_ARG, it)
       else
         let it1 = it\<lparr>status := BSEARCH_CONTINUE, left_idx := start_idx, right_idx := stop_idx\<rparr>
         in r_bind (bsearch_get_midpoint_safe (left_idx it1) (right_idx it1)) (\<lambda>m.
            Inr (ERR_NONE, it1\<lparr>pivot_idx := m, pivot_offset := 0\<rparr>)))"

definition bsearch_iter_deinit :: "BsearchIterator option \<Rightarrow> BsearchIterator result" where
  "bsearch_iter_deinit iter =
     r_bind (assert_ptr iter) (\<lambda>it.
       Inr (if status it = BSEARCH_CONTINUE then it\<lparr>status := BSEARCH_DONE_NOT_FOUND\<rparr> else it))"

definition bsearch_iter_get_check_index :: "BsearchIterator option \<Rightarrow> int result" where
  "bsearch_iter_get_check_index iter =
     r_bind (assert_ptr iter) (\<lambda>it. s32 (pivot_idx it + pivot_offset it))"

definition bsearch_iter_get_found_index :: "BsearchIterator option \<Rightarrow> int result" where
  "bsearch_iter_get_found_index iter =
     r_bind (assert_ptr iter) (\<lambda>it.
       if status it = BSEARCH_DONE_FOUND then s32 (pivot_idx it + pivot_offset it) else Inr (- 1))"

definition bsearch_iter_status :: "BsearchIterator option \<Rightarrow> BsearchIteratorStatus result" where
  "bsearch_iter_status iter = r_bind (assert_ptr iter) (\<lambda>it. Inr (status it))"

definition notify_left :: "BsearchIterator \<Rightarrow> BsearchIterator result" where
  "notify_left it =
     r_bind (if pivot_offset it > 0
             then r_bind (bsearch_get_next_pivot_offset (pivot_offset it)) (\<lambda>next_pivot_offset.
                  s32 (pivot_idx it + next_pivot_offset))
             else r_bind (s32 (pivot_idx it + pivot_offset it)) (\<lambda>n. s32 (n - 1)))
       (\<lambda>next_right_idx.
       if next_right_idx \<ge> right_idx it \<or> next_right_idx < left_idx it
       then Inr (it\<lparr>status := BSEARCH_DONE_NOT_FOUND\<rparr>)
       else
         let it1 = it\<lparr>right_idx := next_right_idx\<rparr>
         in r_bind (bsearch_get_midpoint_safe (left_idx it1) (right_idx it1)) (\<lambda>m.
            Inr (it1\<lparr>pivot_idx := m, pivot_offset := 0\<rparr>)))"

definition notify_right :: "BsearchIterator \<Rightarrow> BsearchIterator result" where
  "notify_right it =
     r_bind (if pivot_offset it < 0
             then r_bind (bsearch_get_next_pivot_offset (pivot_offset it)) (\<lambda>next_pivot_offset.
                  s32 (pivot_idx it + next_pivot_offset))
             else r_bind (s32 (pivot_idx it + pivot_offset it)) (\<lambda>n. s32 (n + 1)))
       (\<lambda>next_left_idx.
       if next_left_idx \<le> left_idx it \<or> next_left_idx > right_idx it
       then Inr (it\<lparr>status := BSEARCH_DONE_NOT_FOUND\<rparr>)
       else
         let it1 = it\<lparr>left_idx := next_left_idx\<rparr>
         in r_bind (bsearch_get_midpoint_safe (left_idx it1) (right_idx it1)) (\<lambda>m.
            Inr (it1\<lparr>pivot_idx := m, pivot_offset := 0\<rparr>)))"

definition notify_skip :: "BsearchIterator \<Rightarrow> BsearchIterator result" where
  "notify_skip it =
     r_bind (bsearch_get_next_pivot_offset (pivot_offset it)) (\<lambda>off.
     let it1 = it\<lparr>pivot_offset := off\<rparr> in
     r_bind (s32 (pivot_idx it1 + pivot_offset it1)) (\<lambda>next_idx.
       Inr (if next_idx > right_idx it1 \<or> next_idx < left_idx it1
            then it1\<lparr>status := BSEARCH_DONE_NOT_FOUND\<rparr> else it1)))"

definition bsearch_iter_notify ::
    "BsearchIterator option \<Rightarrow> BsearchNotification \<Rightarrow> BsearchIterator result" where
  "bsearch_iter_notify iter notification =
     r_bind (assert_ptr iter) (\<lambda>it.
       if status it \<noteq> BSEARCH_CONTINUE then Inr it
       else case notification of
           BSEARCH_NOTIFY_EQ \<Rightarrow> Inr (it\<lparr>status := BSEARCH_DONE_FOUND\<rparr>)
         | BSEARCH_NOTIFY_LEFT \<Rightarrow> notify_left it
         | BSEARCH_NOTIFY_RIGHT \<Rightarrow> notify_right it
         | BSEARCH_NOTIFY_ERR_SKIP \<Rightarrow> notify_skip it
         | BSEARCH_NOTIFY_ERR_ABORT \<Rightarrow> Inr (it\<lparr>status := BSEARCH_DONE_NOT_FOUND\<rparr>))"

section \<open>The contract of an index search\<close>

text \<open>What a notification about index \<open>i\<close> leaves of the indices that can hold the element.\<close>

fun narrow :: "BsearchNotification \<Rightarrow> int \<Rightarrow> int set \<Rightarrow> int set" where
  "narrow BSEARCH_NOTIFY_LEFT i c = {j \<in> c. j < i}"
| "narrow BSEARCH_NOTIFY_RIGHT i c = {j \<in> c. i < j}"
| "narrow BSEARCH_NOTIFY_ERR_SKIP i c = c - {i}"
| "narrow BSEARCH_NOTIFY_EQ i c = {}"
| "narrow BSEARCH_NOTIFY_ERR_ABORT i c = {}"

text \<open>
  The loop of the header comment: while the search continues, ask for an index, compare, notify.
  The comparison is a function of the index.
\<close>

partial_function (option) drive ::
    "('it option \<Rightarrow> BsearchIteratorStatus result) \<Rightarrow> ('it option \<Rightarrow> int result)
      \<Rightarrow> ('it option \<Rightarrow> BsearchNotification \<Rightarrow> 'it result)
      \<Rightarrow> (int \<Rightarrow> BsearchNotification) \<Rightarrow> 'it \<Rightarrow> 'it result option" where
  "drive st chk ntf cmp it =
     (case st (Some it) of
        Inl f \<Rightarrow> Some (Inl f)
      | Inr s \<Rightarrow>
          if s \<noteq> BSEARCH_CONTINUE then Some (Inr it)
          else case r_bind (chk (Some it)) (\<lambda>i. ntf (Some it) (cmp i)) of
              Inl f \<Rightarrow> Some (Inl f)
            | Inr it' \<Rightarrow> drive st chk ntf cmp it')"

text \<open>
  The answers of a comparison are consistent on a set of indices when an answer to the left or
  to the right rules out a match on the other side, and the caller never aborts.
\<close>

definition consistent :: "(int \<Rightarrow> BsearchNotification) \<Rightarrow> int set \<Rightarrow> bool" where
  "consistent cmp c \<longleftrightarrow>
     (\<forall>i \<in> c. cmp i \<noteq> BSEARCH_NOTIFY_ERR_ABORT
       \<and> (cmp i = BSEARCH_NOTIFY_LEFT \<longrightarrow> (\<forall>j \<in> c. i \<le> j \<longrightarrow> cmp j \<noteq> BSEARCH_NOTIFY_EQ))
       \<and> (cmp i = BSEARCH_NOTIFY_RIGHT \<longrightarrow> (\<forall>j \<in> c. j \<le> i \<longrightarrow> cmp j \<noteq> BSEARCH_NOTIFY_EQ)))"

locale index_search =
  fixes st :: "'it option \<Rightarrow> BsearchIteratorStatus result"
    and chk :: "'it option \<Rightarrow> int result"
    and ntf :: "'it option \<Rightarrow> BsearchNotification \<Rightarrow> 'it result"
    and ok :: "'it \<Rightarrow> bool"
    and live :: "'it \<Rightarrow> int set"
  assumes live_finite: "ok it \<Longrightarrow> finite (live it)"
    and check_live: "ok it \<Longrightarrow> st (Some it) = Inr BSEARCH_CONTINUE \<Longrightarrow>
      \<exists>i. chk (Some it) = Inr i \<and> i \<in> live it"
    and status_ok: "ok it \<Longrightarrow> \<exists>s. st (Some it) = Inr s"
    and notify_eq: "ok it \<Longrightarrow> st (Some it) = Inr BSEARCH_CONTINUE \<Longrightarrow> chk (Some it) = Inr i \<Longrightarrow>
      \<exists>it'. ntf (Some it) BSEARCH_NOTIFY_EQ = Inr it' \<and> ok it'
        \<and> st (Some it') = Inr BSEARCH_DONE_FOUND \<and> chk (Some it') = Inr i"
    and notify_narrow: "ok it \<Longrightarrow> st (Some it) = Inr BSEARCH_CONTINUE \<Longrightarrow> chk (Some it) = Inr i \<Longrightarrow>
      n \<noteq> BSEARCH_NOTIFY_EQ \<Longrightarrow>
      \<exists>it'. ntf (Some it) n = Inr it' \<and> ok it' \<and> live it' = narrow n i (live it)
        \<and> st (Some it')
          = Inr (if live it' = {} then BSEARCH_DONE_NOT_FOUND else BSEARCH_CONTINUE)"
begin

lemma narrow_smaller:
  assumes "finite c" "i \<in> c"
  shows "card (narrow n i c) < card c"
proof -
  have "narrow n i c \<subset> c" using assms(2) by (cases n) auto
  then show ?thesis using assms(1) by (rule psubset_card_mono [rotated])
qed

lemma consistent_narrow: "consistent cmp c \<Longrightarrow> consistent cmp (narrow n i c)"
  by (cases n) (auto simp: consistent_def)

lemma narrow_keeps_matches:
  assumes "consistent cmp c" "i \<in> c" "j \<in> c" "cmp j = BSEARCH_NOTIFY_EQ" "cmp i \<noteq> BSEARCH_NOTIFY_EQ"
  shows "j \<in> narrow (cmp i) i c"
  using assms by (cases "cmp i") (force simp: consistent_def not_less not_le)+

text \<open>
  The loop ends, whatever the answers; a found index is a match, and when the answers are
  consistent, not finding one means there is none.
\<close>

lemma drive_ends:
  assumes "ok it" "st (Some it) = Inr BSEARCH_CONTINUE"
  shows "\<exists>it'. drive st chk ntf cmp it = Some (Inr it') \<and> ok it' \<and>
    (st (Some it') = Inr BSEARCH_DONE_NOT_FOUND \<and>
     (consistent cmp (live it) \<longrightarrow> (\<forall>j \<in> live it. cmp j \<noteq> BSEARCH_NOTIFY_EQ)) \<or>
     st (Some it') = Inr BSEARCH_DONE_FOUND \<and>
     (\<exists>i \<in> live it. chk (Some it') = Inr i \<and> cmp i = BSEARCH_NOTIFY_EQ))"
  using assms
proof (induction "card (live it)" arbitrary: it rule: less_induct)
  case less
  obtain i where i: "chk (Some it) = Inr i" "i \<in> live it" using check_live less.prems by blast
  show ?case
  proof (cases "cmp i = BSEARCH_NOTIFY_EQ")
    case True
    then obtain it' where "ntf (Some it) (cmp i) = Inr it'" "ok it'"
        "st (Some it') = Inr BSEARCH_DONE_FOUND" "chk (Some it') = Inr i"
      using notify_eq less.prems i by metis
    then show ?thesis using less.prems i True
      by (intro exI [of _ it']) (auto simp: drive.simps [of _ _ _ _ it] drive.simps [of _ _ _ _ it'])
  next
    case False
    then obtain it' where it': "ntf (Some it) (cmp i) = Inr it'" "ok it'"
        "live it' = narrow (cmp i) i (live it)"
        "st (Some it') = Inr (if live it' = {} then BSEARCH_DONE_NOT_FOUND else BSEARCH_CONTINUE)"
      using notify_narrow less.prems i by metis
    have smaller: "card (live it') < card (live it)"
      using narrow_smaller live_finite less.prems i it'(3) by metis
    have sub: "live it' \<subseteq> live it" unfolding it'(3) by (cases "cmp i") auto
    have rest: "\<forall>j \<in> live it. cmp j \<noteq> BSEARCH_NOTIFY_EQ"
      if "consistent cmp (live it)" "\<forall>j \<in> live it'. cmp j \<noteq> BSEARCH_NOTIFY_EQ"
      using narrow_keeps_matches [OF that(1) i(2) _ _ False] that(2) it'(3) by auto
    have step: "drive st chk ntf cmp it = drive st chk ntf cmp it'"
      using less.prems i it'(1) by (simp add: drive.simps [of _ _ _ _ it])
    show ?thesis
    proof (cases "live it' = {}")
      case True
      then have "drive st chk ntf cmp it' = Some (Inr it')"
        using it' by (simp add: drive.simps [of _ _ _ _ it'])
      then show ?thesis using it' step rest True by (intro exI [of _ it']) simp
    next
      case False
      then obtain it'' where "drive st chk ntf cmp it' = Some (Inr it'')" "ok it''"
          "st (Some it'') = Inr BSEARCH_DONE_NOT_FOUND \<and>
           (consistent cmp (live it') \<longrightarrow> (\<forall>j \<in> live it'. cmp j \<noteq> BSEARCH_NOTIFY_EQ)) \<or>
           st (Some it'') = Inr BSEARCH_DONE_FOUND \<and>
           (\<exists>i \<in> live it'. chk (Some it'') = Inr i \<and> cmp i = BSEARCH_NOTIFY_EQ)"
        using less.hyps [OF smaller it'(2)] it'(4) by auto
      then show ?thesis
        using step sub rest consistent_narrow [of cmp "live it" "cmp i" i] it'(3)
        by (intro exI [of _ it'']) auto
    qed
  qed
qed

end

section \<open>The iterator implements the contract\<close>

text \<open>
  Around a pivot the offsets are tried in the order 0, 1, -1, 2, -2 and so on; the rank of an
  offset is its place in that order. The indices still in play are those of the window whose
  offset has not been tried. The window keeps clear of the ends of the type, because the code
  computes the index next to it.
\<close>

definition offset_rank :: "int \<Rightarrow> int" where
  "offset_rank d = (if 0 < d then 2 * d - 1 else - 2 * d)"

definition index_range_ok :: "int \<Rightarrow> int \<Rightarrow> bool" where
  "index_range_ok lo hi \<longleftrightarrow> - (2 ^ 31) < lo \<and> hi < 2 ^ 31 - 1 \<and> hi - lo < 2 ^ 31"

definition bs_inv :: "BsearchIterator \<Rightarrow> bool" where
  "bs_inv it \<longleftrightarrow> index_range_ok (left_idx it) (right_idx it)
     \<and> pivot_idx it = left_idx it + (right_idx it - left_idx it) div 2
     \<and> (status it = BSEARCH_CONTINUE \<longrightarrow> left_idx it \<le> pivot_idx it + pivot_offset it
         \<and> pivot_idx it + pivot_offset it \<le> right_idx it)"

definition untried :: "int \<Rightarrow> int \<Rightarrow> int \<Rightarrow> int \<Rightarrow> int set" where
  "untried l r p d = {i \<in> {l..r}. offset_rank d \<le> offset_rank (i - p)}"

definition bs_live :: "BsearchIterator \<Rightarrow> int set" where
  "bs_live it =
     (if status it = BSEARCH_CONTINUE
      then untried (left_idx it) (right_idx it) (pivot_idx it) (pivot_offset it)
      else {})"

text \<open>What is left of a window after each answer, as sets of indices.\<close>

definition next_off :: "int \<Rightarrow> int" where
  "next_off d = (if d = 0 then 1 else if 0 < d then - d else 1 - d)"

lemma s32_in: "- (2 ^ 31) \<le> n \<Longrightarrow> n < 2 ^ 31 \<Longrightarrow> s32 n = Inr n"
  by (simp add: s32_def)

lemma midpoint_safe:
  assumes "index_range_ok l r" "l \<le> r"
  shows "bsearch_get_midpoint_safe l r = Inr (l + (r - l) div 2)"
proof -
  have "s32 (r - l) = Inr (r - l)"
    using assms by (intro s32_in) (simp_all add: index_range_ok_def)
  moreover have "(r - l) sdiv 2 = (r - l) div 2"
    using assms(2) by (simp add: signed_divide_int_def sgn_if)
  moreover have "s32 (l + (r - l) div 2) = Inr (l + (r - l) div 2)"
    using assms unfolding index_range_ok_def by (intro s32_in) linarith+
  ultimately show ?thesis by (simp add: bsearch_get_midpoint_safe_def)
qed

lemma next_offset:
  assumes "- (2 ^ 30) \<le> d" "d \<le> 2 ^ 30"
  shows "bsearch_get_next_pivot_offset d
    = Inr (next_off d)"
  using assms by (simp add: bsearch_get_next_pivot_offset_def s32_in next_off_def)

lemma untried_start [simp]: "untried l r p 0 = {l..r}"
  by (auto simp: untried_def offset_rank_def)

lemma untried_left:
  assumes "l \<le> p + d" "p + d \<le> r"
  shows "{j \<in> untried l r p d. j < p + d} = {l..(if 0 < d then p - d else p + d - 1)}"
  using assms by (auto simp: untried_def offset_rank_def split: if_splits)

lemma untried_right:
  assumes "l \<le> p + d" "p + d \<le> r"
  shows "{j \<in> untried l r p d. p + d < j} = {(if d < 0 then p - d + 1 else p + d + 1)..r}"
  using assms by (auto simp: untried_def offset_rank_def split: if_splits)

lemma untried_skip: "untried l r p d - {p + d} = untried l r p (next_off d)"
  by (auto simp: untried_def offset_rank_def next_off_def split: if_splits; presburger)

text \<open>
  The window is centred: when the next index falls out on one side, nothing untried is left on
  the other.
\<close>

lemma untried_empty:
  assumes "p - l \<le> r - p" "r - p \<le> p - l + 1" "l \<le> p + d" "p + d \<le> r"
  shows "untried l r p (next_off d) = {} \<longleftrightarrow> r < p + next_off d \<or> p + next_off d < l"
proof
  assume "untried l r p (next_off d) = {}"
  then have "p + next_off d \<notin> untried l r p (next_off d)" by simp
  then show "r < p + next_off d \<or> p + next_off d < l" by (auto simp: untried_def)
next
  assume "r < p + next_off d \<or> p + next_off d < l"
  then show "untried l r p (next_off d) = {}"
    using assms by (auto simp: untried_def offset_rank_def next_off_def split: if_splits)
qed

lemma bs_window:
  assumes "bs_inv it" "status it = BSEARCH_CONTINUE"
  defines "l \<equiv> left_idx it" and "r \<equiv> right_idx it" and "p \<equiv> pivot_idx it"
    and "d \<equiv> pivot_offset it"
  shows "p - l \<le> r - p" "r - p \<le> p - l + 1" "l \<le> p + d" "p + d \<le> r"
    and "- (2 ^ 31) < l" "r < 2 ^ 31 - 1" "- (2 ^ 30) \<le> d" "d \<le> 2 ^ 30"
  using assms unfolding bs_inv_def index_range_ok_def by simp_all linarith+

lemma bs_live_done [simp]: "status it \<noteq> BSEARCH_CONTINUE \<Longrightarrow> bs_live it = {}"
  by (simp add: bs_live_def)

lemma index_range_sub:
  "index_range_ok l r \<Longrightarrow> l \<le> l' \<Longrightarrow> r' \<le> r \<Longrightarrow> index_range_ok l' r'"
  by (simp add: index_range_ok_def)

text \<open>A window around its midpoint, before any index of it has been tried.\<close>

lemma bs_centred:
  assumes "index_range_ok (left_idx it) (right_idx it)" "left_idx it \<le> right_idx it"
    and "status it = BSEARCH_CONTINUE" "pivot_offset it = 0"
    and "pivot_idx it = left_idx it + (right_idx it - left_idx it) div 2"
  shows "bs_inv it \<and> bs_live it = {left_idx it..right_idx it}"
  using assms by (auto simp: bs_inv_def bs_live_def)

lemma bs_notify_left:
  assumes "bs_inv it" "status it = BSEARCH_CONTINUE"
  defines "i \<equiv> pivot_idx it + pivot_offset it"
  shows "\<exists>it'. notify_left it = Inr it' \<and> bs_inv it' \<and> bs_live it' = {j \<in> bs_live it. j < i}
    \<and> status it' = (if bs_live it' = {} then BSEARCH_DONE_NOT_FOUND else BSEARCH_CONTINUE)"
proof -
  note w = bs_window [OF assms(1,2)]
  define d nr where "d = pivot_offset it" and "nr = (if 0 < d then pivot_idx it - d else i - 1)"
  have nr: "(if pivot_offset it > 0
      then r_bind (bsearch_get_next_pivot_offset (pivot_offset it)) (\<lambda>n. s32 (pivot_idx it + n))
      else r_bind (s32 (pivot_idx it + pivot_offset it)) (\<lambda>n. s32 (n - 1))) = Inr nr"
    using w by (simp add: next_offset next_off_def s32_in nr_def d_def i_def)
  have live: "{j \<in> bs_live it. j < i} = {left_idx it..nr}"
    using untried_left [OF w(3,4)] assms(2) by (simp add: bs_live_def i_def nr_def d_def)
  have lt: "nr < right_idx it" using w by (auto simp: nr_def d_def i_def)
  show ?thesis
  proof (cases "nr < left_idx it")
    case True
    then show ?thesis using assms(1)
      by (simp add: notify_left_def nr live bs_inv_def)
  next
    case False
    then have "index_range_ok (left_idx it) nr"
      using lt assms(1) by (auto simp: bs_inv_def intro: index_range_sub)
    moreover define it' where "it' = it\<lparr>right_idx := nr, pivot_idx := left_idx it + (nr - left_idx it) div 2,
        pivot_offset := 0\<rparr>"
    ultimately have "notify_left it = Inr it'" "bs_inv it' \<and> bs_live it' = {left_idx it..nr}"
      using False lt assms(2) bs_centred [of it']
      by (simp_all add: notify_left_def nr midpoint_safe)
    then show ?thesis using False assms(2) by (simp add: live it'_def)
  qed
qed

lemma bs_notify_right:
  assumes "bs_inv it" "status it = BSEARCH_CONTINUE"
  defines "i \<equiv> pivot_idx it + pivot_offset it"
  shows "\<exists>it'. notify_right it = Inr it' \<and> bs_inv it' \<and> bs_live it' = {j \<in> bs_live it. i < j}
    \<and> status it' = (if bs_live it' = {} then BSEARCH_DONE_NOT_FOUND else BSEARCH_CONTINUE)"
proof -
  note w = bs_window [OF assms(1,2)]
  define d nl where "d = pivot_offset it" and "nl = (if d < 0 then pivot_idx it - d + 1 else i + 1)"
  have nl: "(if pivot_offset it < 0
      then r_bind (bsearch_get_next_pivot_offset (pivot_offset it)) (\<lambda>n. s32 (pivot_idx it + n))
      else r_bind (s32 (pivot_idx it + pivot_offset it)) (\<lambda>n. s32 (n + 1))) = Inr nl"
    using w by (simp add: next_offset next_off_def s32_in nl_def d_def i_def)
  have live: "{j \<in> bs_live it. i < j} = {nl..right_idx it}"
    using untried_right [OF w(3,4)] assms(2) by (simp add: bs_live_def i_def nl_def d_def)
  have lt: "left_idx it < nl" using w by (auto simp: nl_def d_def i_def)
  show ?thesis
  proof (cases "right_idx it < nl")
    case True
    then show ?thesis using assms(1)
      by (simp add: notify_right_def nl live bs_inv_def)
  next
    case False
    then have "index_range_ok nl (right_idx it)"
      using lt assms(1) by (auto simp: bs_inv_def intro: index_range_sub)
    moreover define it' where "it' = it\<lparr>left_idx := nl, pivot_idx := nl + (right_idx it - nl) div 2,
        pivot_offset := 0\<rparr>"
    ultimately have "notify_right it = Inr it'" "bs_inv it' \<and> bs_live it' = {nl..right_idx it}"
      using False lt assms(2) bs_centred [of it']
      by (simp_all add: notify_right_def nl midpoint_safe)
    then show ?thesis using False assms(2) by (simp add: live it'_def)
  qed
qed

lemma bs_notify_skip:
  assumes "bs_inv it" "status it = BSEARCH_CONTINUE"
  defines "i \<equiv> pivot_idx it + pivot_offset it"
  shows "\<exists>it'. notify_skip it = Inr it' \<and> bs_inv it' \<and> bs_live it' = bs_live it - {i}
    \<and> status it' = (if bs_live it' = {} then BSEARCH_DONE_NOT_FOUND else BSEARCH_CONTINUE)"
proof -
  note w = bs_window [OF assms(1,2)]
  define d where "d = next_off (pivot_offset it)"
  have off: "bsearch_get_next_pivot_offset (pivot_offset it) = Inr d"
    using w by (simp add: next_offset d_def)
  have idx: "s32 (pivot_idx it + d) = Inr (pivot_idx it + d)"
    using w by (intro s32_in) (auto simp: d_def next_off_def)
  have live: "bs_live it - {i} = untried (left_idx it) (right_idx it) (pivot_idx it) d"
    using assms(2) by (simp add: bs_live_def i_def d_def untried_skip)
  have empty: "untried (left_idx it) (right_idx it) (pivot_idx it) d = {}
      \<longleftrightarrow> right_idx it < pivot_idx it + d \<or> pivot_idx it + d < left_idx it"
    unfolding d_def by (rule untried_empty [OF w(1-4)])
  define it' where "it' = (if right_idx it < pivot_idx it + d \<or> pivot_idx it + d < left_idx it
      then it\<lparr>pivot_offset := d, status := BSEARCH_DONE_NOT_FOUND\<rparr> else it\<lparr>pivot_offset := d\<rparr>)"
  have "notify_skip it = Inr it'"
    by (simp add: notify_skip_def off idx it'_def)
  moreover have "bs_inv it'" using assms(1,2) by (simp add: it'_def bs_inv_def)
  moreover have "bs_live it' = untried (left_idx it) (right_idx it) (pivot_idx it) d"
    using assms(2) empty by (auto simp: it'_def bs_live_def)
  moreover have "status it' = (if bs_live it' = {} then BSEARCH_DONE_NOT_FOUND else BSEARCH_CONTINUE)"
    unfolding calculation(3) empty using assms(2) by (simp add: it'_def)
  ultimately show ?thesis using live by metis
qed

interpretation bs: index_search bsearch_iter_status bsearch_iter_get_check_index
  bsearch_iter_notify bs_inv bs_live
proof
  fix it n i
  assume it: "bs_inv it" "bsearch_iter_status (Some it) = Inr BSEARCH_CONTINUE"
    "bsearch_iter_get_check_index (Some it) = Inr i" "n \<noteq> BSEARCH_NOTIFY_EQ"
  then have st: "status it = BSEARCH_CONTINUE" and i: "i = pivot_idx it + pivot_offset it"
    by (auto simp: bsearch_iter_status_def bsearch_iter_get_check_index_def s32_def split: if_splits)
  show "\<exists>it'. bsearch_iter_notify (Some it) n = Inr it' \<and> bs_inv it'
      \<and> bs_live it' = narrow n i (bs_live it)
      \<and> bsearch_iter_status (Some it')
        = Inr (if bs_live it' = {} then BSEARCH_DONE_NOT_FOUND else BSEARCH_CONTINUE)"
    using bs_notify_left [OF it(1) st] bs_notify_right [OF it(1) st] bs_notify_skip [OF it(1) st]
      it(1,4) st
    by (cases n) (auto simp: bsearch_iter_notify_def bsearch_iter_status_def i bs_inv_def)
next
  fix it
  assume "bs_inv it" "bsearch_iter_status (Some it) = Inr BSEARCH_CONTINUE"
  then show "\<exists>i. bsearch_iter_get_check_index (Some it) = Inr i \<and> i \<in> bs_live it"
    using bs_window [of it]
    by (auto simp: bsearch_iter_status_def bsearch_iter_get_check_index_def bs_live_def untried_def
        s32_in)
qed (auto simp: bsearch_iter_status_def bsearch_iter_get_check_index_def bsearch_iter_notify_def
    bs_live_def untried_def bs_inv_def intro: finite_subset [of _ "{a..b}" for a b])

section \<open>Starting a search\<close>

lemma bsearch_iter_init_state:
  assumes "start < stop" "index_range_ok start stop"
  shows "\<exists>it. bsearch_iter_init (Some it0) start stop = Inr (ERR_NONE, it)
    \<and> bs_inv it \<and> bs_live it = {start..stop} \<and> bsearch_iter_status (Some it) = Inr BSEARCH_CONTINUE"
  using assms bs_centred [of "it0\<lparr>status := BSEARCH_CONTINUE, left_idx := start, right_idx := stop,
      pivot_idx := start + (stop - start) div 2, pivot_offset := 0\<rparr>"]
  by (simp add: bsearch_iter_init_def midpoint_safe bsearch_iter_status_def)

text \<open>
  The caller's comparison in an array some of whose elements cannot be read: the answer at an
  index, and what it means for the readable elements to be in order.
\<close>

definition table_answer :: "(int \<Rightarrow> int option) \<Rightarrow> int \<Rightarrow> int \<Rightarrow> BsearchNotification" where
  "table_answer tab x i =
     (case tab i of
        None \<Rightarrow> BSEARCH_NOTIFY_ERR_SKIP
      | Some v \<Rightarrow> if v = x then BSEARCH_NOTIFY_EQ
                 else if x < v then BSEARCH_NOTIFY_LEFT else BSEARCH_NOTIFY_RIGHT)"

definition table_sorted :: "(int \<Rightarrow> int option) \<Rightarrow> int \<Rightarrow> int \<Rightarrow> bool" where
  "table_sorted tab lo hi \<longleftrightarrow>
     (\<forall>i \<in> {lo..hi}. \<forall>j \<in> {lo..hi}. \<forall>v w. i \<le> j \<longrightarrow> tab i = Some v \<longrightarrow> tab j = Some w \<longrightarrow> v \<le> w)"

lemma table_answer_eq: "table_answer tab x i = BSEARCH_NOTIFY_EQ \<longleftrightarrow> tab i = Some x"
  by (auto simp: table_answer_def split: option.splits)

lemma table_answer_consistent:
  assumes "table_sorted tab lo hi"
  shows "consistent (table_answer tab x) {lo..hi}"
proof -
  have "tab i = Some v \<Longrightarrow> tab j = Some w \<Longrightarrow> i \<in> {lo..hi} \<Longrightarrow> j \<in> {lo..hi} \<Longrightarrow> i \<le> j \<Longrightarrow> v \<le> w" for i j v w
    using assms unfolding table_sorted_def by blast
  then show ?thesis
    unfolding consistent_def table_answer_eq
    by (auto simp: table_answer_def not_less [symmetric] split: option.splits if_splits)
      (metis linorder_neqE_linordered_idom)
qed

definition search_table ::
    "(int \<Rightarrow> int option) \<Rightarrow> int \<Rightarrow> BsearchIterator \<Rightarrow> BsearchIterator result" where
  "search_table tab x it =
     loop_result (drive bsearch_iter_status bsearch_iter_get_check_index bsearch_iter_notify
       (table_answer tab x) it)"

lemma search_table_result:
  assumes "start < stop" "index_range_ok start stop" "table_sorted tab start stop"
    and "bsearch_iter_init (Some it0) start stop = Inr (ERR_NONE, it)"
  shows "\<exists>it'. search_table tab x it = Inr it' \<and>
    (if \<exists>i \<in> {start..stop}. tab i = Some x
     then \<exists>i \<in> {start..stop}. tab i = Some x \<and> status it' = BSEARCH_DONE_FOUND
            \<and> bsearch_iter_get_found_index (Some it') = Inr i
     else status it' = BSEARCH_DONE_NOT_FOUND
            \<and> bsearch_iter_get_found_index (Some it') = Inr (- 1))"
proof -
  have it: "bs_inv it" "bs_live it = {start..stop}"
      "bsearch_iter_status (Some it) = Inr BSEARCH_CONTINUE"
    using bsearch_iter_init_state [OF assms(1,2), of it0] assms(4) by auto
  obtain it' where drive: "search_table tab x it = Inr it'" and
      res: "bsearch_iter_status (Some it') = Inr BSEARCH_DONE_NOT_FOUND \<and>
        (\<forall>j \<in> {start..stop}. tab j \<noteq> Some x) \<or>
      bsearch_iter_status (Some it') = Inr BSEARCH_DONE_FOUND \<and>
        (\<exists>i \<in> {start..stop}. bsearch_iter_get_check_index (Some it') = Inr i \<and> tab i = Some x)"
    using bs.drive_ends [OF it(1,3), of "table_answer tab x"] table_answer_consistent [OF assms(3)]
    unfolding it(2) table_answer_eq search_table_def by (metis loop_result.simps(2))
  show ?thesis
  proof (cases "status it' = BSEARCH_DONE_FOUND")
    case True
    then show ?thesis using res drive
      by (auto simp: bsearch_iter_status_def bsearch_iter_get_found_index_def
          bsearch_iter_get_check_index_def)
  next
    case False
    then show ?thesis using res drive
      by (auto simp: bsearch_iter_status_def bsearch_iter_get_found_index_def)
  qed
qed

section \<open>The number of questions\<close>

text \<open>Notifications one after another, whatever index they are about.\<close>

fun notify_all :: "BsearchIterator \<Rightarrow> BsearchNotification list \<Rightarrow> BsearchIterator result" where
  "notify_all it [] = Inr it"
| "notify_all it (n # ns) = r_bind (bsearch_iter_notify (Some it) n) (\<lambda>it. notify_all it ns)"

lemma notify_done: "status it \<noteq> BSEARCH_CONTINUE \<Longrightarrow> notify_all it ns = Inr it"
  by (induction ns) (simp_all add: bsearch_iter_notify_def)

text \<open>Whatever the answers, every index is asked about at most once.\<close>

lemma notify_step_live:
  assumes "bs_inv it" "status it = BSEARCH_CONTINUE"
  shows "\<exists>it'. bsearch_iter_notify (Some it) n = Inr it' \<and> bs_inv it'
    \<and> (status it' = BSEARCH_CONTINUE \<longrightarrow> card (bs_live it') < card (bs_live it))"
proof -
  have st: "bsearch_iter_status (Some it) = Inr BSEARCH_CONTINUE"
    using assms(2) by (simp add: bsearch_iter_status_def)
  obtain i where i: "bsearch_iter_get_check_index (Some it) = Inr i" "i \<in> bs_live it"
    using bs.check_live [OF assms(1) st] by blast
  show ?thesis
  proof (cases "n = BSEARCH_NOTIFY_EQ")
    case True
    then show ?thesis using bs.notify_eq [OF assms(1) st i(1)]
      by (auto simp: bsearch_iter_status_def)
  next
    case False
    then show ?thesis
      using bs.notify_narrow [OF assms(1) st i(1) False]
        bs.narrow_smaller [OF bs.live_finite [OF assms(1)] i(2), of n] by auto
  qed
qed

lemma notify_all_ends:
  assumes "bs_inv it" "card (bs_live it) \<le> length ns"
  shows "\<exists>it'. notify_all it ns = Inr it' \<and> status it' \<noteq> BSEARCH_CONTINUE"
  using assms
proof (induction ns arbitrary: it)
  case Nil
  then have "bs_live it = {}" using bs.live_finite by simp
  then show ?case
    using bs.check_live [OF Nil(1)] by (auto simp: bsearch_iter_status_def)
next
  case (Cons n ns)
  show ?case
  proof (cases "status it = BSEARCH_CONTINUE")
    case True
    then obtain it' where it': "bsearch_iter_notify (Some it) n = Inr it'" "bs_inv it'"
        "status it' = BSEARCH_CONTINUE \<longrightarrow> card (bs_live it') < card (bs_live it)"
      using notify_step_live Cons.prems by blast
    show ?thesis
      using it' Cons.IH [OF it'(2)] Cons.prems(2) notify_done [of it' ns]
      by (cases "status it' = BSEARCH_CONTINUE") auto
  qed (use notify_done [of it "n # ns"] in auto)
qed

text \<open>Without unreadable elements, every question halves the window.\<close>

definition window :: "BsearchIterator \<Rightarrow> int" where
  "window it = right_idx it - left_idx it + 1"

lemma notify_halves:
  assumes "bs_inv it" "status it = BSEARCH_CONTINUE" "pivot_offset it = 0"
    and "n \<in> {BSEARCH_NOTIFY_LEFT, BSEARCH_NOTIFY_RIGHT}"
  shows "\<exists>it'. bsearch_iter_notify (Some it) n = Inr it'
    \<and> (status it' = BSEARCH_DONE_NOT_FOUND
       \<or> bs_inv it' \<and> status it' = BSEARCH_CONTINUE \<and> pivot_offset it' = 0
         \<and> 2 * window it' \<le> window it)"
proof -
  note w = bs_window [OF assms(1,2)]
  have range: "index_range_ok (left_idx it) (right_idx it)"
    using assms(1) by (simp add: bs_inv_def)
  define l r p where "l = left_idx it" and "r = right_idx it" and "p = pivot_idx it"
  note defs = l_def r_def p_def
  show ?thesis
  proof (cases "n = BSEARCH_NOTIFY_LEFT")
    case True
    have "notify_left it = Inr (if p - 1 < l then it\<lparr>status := BSEARCH_DONE_NOT_FOUND\<rparr>
        else it\<lparr>right_idx := p - 1, pivot_idx := l + (p - 1 - l) div 2, pivot_offset := 0\<rparr>)"
      using w assms(3) index_range_sub [OF range, of l "p - 1"]
      by (simp add: notify_left_def s32_in midpoint_safe defs)
    then show ?thesis using True w assms index_range_sub [OF range, of l "p - 1"]
        bs_centred [of "it\<lparr>right_idx := p - 1, pivot_idx := l + (p - 1 - l) div 2, pivot_offset := 0\<rparr>"]
      by (simp add: bsearch_iter_notify_def window_def defs)
  next
    case False
    have "notify_right it = Inr (if r < p + 1 then it\<lparr>status := BSEARCH_DONE_NOT_FOUND\<rparr>
        else it\<lparr>left_idx := p + 1, pivot_idx := p + 1 + (r - (p + 1)) div 2, pivot_offset := 0\<rparr>)"
      using w assms(3) index_range_sub [OF range, of "p + 1" r]
      by (simp add: notify_right_def s32_in midpoint_safe defs)
    then show ?thesis using False w assms index_range_sub [OF range, of "p + 1" r]
        bs_centred [of "it\<lparr>left_idx := p + 1, pivot_idx := p + 1 + (r - (p + 1)) div 2, pivot_offset := 0\<rparr>"]
      by (simp add: bsearch_iter_notify_def window_def defs)
  qed
qed

lemma notify_all_logarithmic:
  assumes "bs_inv it" "status it = BSEARCH_CONTINUE" "pivot_offset it = 0"
    and "set ns \<subseteq> {BSEARCH_NOTIFY_LEFT, BSEARCH_NOTIFY_RIGHT}" "window it < 2 ^ length ns"
  shows "\<exists>it'. notify_all it ns = Inr it' \<and> status it' = BSEARCH_DONE_NOT_FOUND"
  using assms
proof (induction ns arbitrary: it)
  case Nil
  then show ?case using bs_window [OF Nil(1,2)] by (simp add: window_def)
next
  case (Cons n ns)
  obtain it' where it': "bsearch_iter_notify (Some it) n = Inr it'"
    "status it' = BSEARCH_DONE_NOT_FOUND \<or> bs_inv it' \<and> status it' = BSEARCH_CONTINUE
       \<and> pivot_offset it' = 0 \<and> 2 * window it' \<le> window it"
    using notify_halves [OF Cons.prems(1-3), of n] Cons.prems(4) by auto
  then show ?case
    using Cons.IH [of it'] Cons.prems(4,5) notify_done [of it' ns] by auto
qed

text \<open>While the search goes on, what is left of the window was in it at the start.\<close>

lemma notify_all_safe:
  assumes "bs_inv it"
  shows "\<exists>it'. notify_all it ns = Inr it' \<and> bs_inv it' \<and> bs_live it' \<subseteq> bs_live it"
  using assms
proof (induction ns arbitrary: it)
  case (Cons n ns)
  show ?case
  proof (cases "status it = BSEARCH_CONTINUE")
    case True
    then have st: "bsearch_iter_status (Some it) = Inr BSEARCH_CONTINUE"
      by (simp add: bsearch_iter_status_def)
    obtain i where i: "bsearch_iter_get_check_index (Some it) = Inr i"
      using bs.check_live [OF Cons.prems st] by blast
    have "\<exists>it'. bsearch_iter_notify (Some it) n = Inr it' \<and> bs_inv it' \<and> bs_live it' \<subseteq> bs_live it"
    proof (cases "n = BSEARCH_NOTIFY_EQ")
      case True
      then show ?thesis using bs.notify_eq [OF Cons.prems st i] by (auto simp: bsearch_iter_status_def)
    next
      case False
      have "narrow n i c \<subseteq> c" for c by (cases n) auto
      then show ?thesis using bs.notify_narrow [OF Cons.prems st i False] by metis
    qed
    then show ?thesis using Cons.IH by fastforce
  qed (use notify_done [of it "n # ns"] Cons.prems in auto)
qed simp

section \<open>Properties\<close>

text \<open>
  C11. Searching a sorted array from \<open>start\<close> to \<open>stop\<close> (inclusive), some of whose elements may be
  unreadable: the loop ends; if a readable element equals the key, the search ends found and
  \<open>bsearch_iter_get_found_index\<close> is the index of such an element; otherwise it ends not found
  and the index is -1.
\<close>

theorem bsearch_finds:
  assumes "start < stop" and "index_range_ok start stop" and "table_sorted tab start stop"
  shows "\<exists>it it'. bsearch_iter_init (Some it0) start stop = Inr (ERR_NONE, it)
    \<and> search_table tab x it = Inr it'
    \<and> (if \<exists>i \<in> {start..stop}. tab i = Some x
       then \<exists>i \<in> {start..stop}. tab i = Some x \<and> status it' = BSEARCH_DONE_FOUND
              \<and> bsearch_iter_get_found_index (Some it') = Inr i
       else status it' = BSEARCH_DONE_NOT_FOUND
              \<and> bsearch_iter_get_found_index (Some it') = Inr (- 1))"
proof -
  obtain it where it: "bsearch_iter_init (Some it0) start stop = Inr (ERR_NONE, it)"
    using bsearch_iter_init_state [OF assms(1,2), of it0] by blast
  show ?thesis using search_table_result [OF assms it, of x] it by blast
qed

theorem bsearch_finds_witness:
  "\<exists>it it'. bsearch_iter_init (Some \<lparr>status = BSEARCH_DONE_FOUND, left_idx = 0, right_idx = 0,
        pivot_idx = 0, pivot_offset = 0\<rparr>) 0 4 = Inr (ERR_NONE, it)
    \<and> search_table (\<lambda>i. if i = 2 then None else Some (10 * i)) 30 it = Inr it'
    \<and> bsearch_iter_get_found_index (Some it') = Inr 3"
proof -
  define tab :: "int \<Rightarrow> int option" where "tab = (\<lambda>i. if i = 2 then None else Some (10 * i))"
  have "table_sorted tab 0 4" by (auto simp: table_sorted_def tab_def split: if_splits)
  moreover have "\<exists>i \<in> {0..4}. tab i = Some 30" "\<And>i. tab i = Some 30 \<longleftrightarrow> i = 3"
    by (auto simp: tab_def intro!: bexI [of _ 3])
  ultimately show ?thesis
    using bsearch_finds [of 0 4 tab "\<lparr>status = BSEARCH_DONE_FOUND, left_idx = 0, right_idx = 0,
        pivot_idx = 0, pivot_offset = 0\<rparr>" 30]
    unfolding tab_def [symmetric] by (simp add: index_range_ok_def) metis
qed

text \<open>
  C33. Whatever the caller answers, and in whatever order, no notification faults, an index asked
  for lies between \<open>start\<close> and \<open>stop\<close>, and the search is over after at most as many answers as
  there are indices.
\<close>

theorem bsearch_stays_in_bounds:
  assumes "start < stop" and "index_range_ok start stop"
  shows "\<exists>it it'. bsearch_iter_init (Some it0) start stop = Inr (ERR_NONE, it)
    \<and> notify_all it ns = Inr it'
    \<and> (status it' = BSEARCH_CONTINUE \<longrightarrow> int (length ns) \<le> stop - start
         \<and> (\<exists>i \<in> {start..stop}. bsearch_iter_get_check_index (Some it') = Inr i))"
proof -
  obtain it where it: "bsearch_iter_init (Some it0) start stop = Inr (ERR_NONE, it)" "bs_inv it"
      "bs_live it = {start..stop}"
    using bsearch_iter_init_state [OF assms, of it0] by blast
  obtain it' where it': "notify_all it ns = Inr it'" "bs_inv it'" "bs_live it' \<subseteq> {start..stop}"
    using notify_all_safe [OF it(2), of ns] it(3) by auto
  have "int (length ns) \<le> stop - start" if "status it' = BSEARCH_CONTINUE"
    using notify_all_ends [OF it(2), of ns] it(3) it'(1) that assms(1) by fastforce
  moreover have "\<exists>i \<in> {start..stop}. bsearch_iter_get_check_index (Some it') = Inr i"
    if "status it' = BSEARCH_CONTINUE"
    using bs.check_live [OF it'(2)] it'(3) that by (auto simp: bsearch_iter_status_def)
  ultimately show ?thesis using it(1) it'(1) by blast
qed

theorem bsearch_stays_in_bounds_witness:
  "\<exists>it it'. bsearch_iter_init (Some \<lparr>status = BSEARCH_DONE_FOUND, left_idx = 0, right_idx = 0,
        pivot_idx = 0, pivot_offset = 0\<rparr>) 0 9 = Inr (ERR_NONE, it)
    \<and> notify_all it [BSEARCH_NOTIFY_ERR_SKIP, BSEARCH_NOTIFY_RIGHT] = Inr it'"
  using bsearch_stays_in_bounds [of 0 9 "\<lparr>status = BSEARCH_DONE_FOUND, left_idx = 0, right_idx = 0,
        pivot_idx = 0, pivot_offset = 0\<rparr>" "[BSEARCH_NOTIFY_ERR_SKIP, BSEARCH_NOTIFY_RIGHT]"]
  unfolding index_range_ok_def by (simp del: notify_all.simps) blast

text \<open>
  C34. When every element can be read and none matches, the search is over after \<open>k\<close> answers as soon
  as \<open>2 ^ k\<close> exceeds the number of indices.
\<close>

theorem bsearch_is_logarithmic:
  assumes "start < stop" and "index_range_ok start stop"
    and "set ns \<subseteq> {BSEARCH_NOTIFY_LEFT, BSEARCH_NOTIFY_RIGHT}"
    and "stop - start + 1 < 2 ^ length ns"
  shows "\<exists>it it'. bsearch_iter_init (Some it0) start stop = Inr (ERR_NONE, it)
    \<and> notify_all it ns = Inr it' \<and> status it' = BSEARCH_DONE_NOT_FOUND"
proof -
  define it where "it = it0\<lparr>status := BSEARCH_CONTINUE, left_idx := start, right_idx := stop,
    pivot_idx := start + (stop - start) div 2, pivot_offset := 0\<rparr>"
  have init: "bsearch_iter_init (Some it0) start stop = Inr (ERR_NONE, it)"
    using assms(1,2) by (simp add: bsearch_iter_init_def midpoint_safe it_def)
  have "bs_inv it" using bs_centred [of it] assms(1,2) by (simp add: it_def)
  then have "\<exists>it'. notify_all it ns = Inr it' \<and> status it' = BSEARCH_DONE_NOT_FOUND"
    using assms(3,4) by (intro notify_all_logarithmic) (simp_all add: it_def window_def)
  then show ?thesis using init by blast
qed

theorem bsearch_is_logarithmic_witness:
  "\<exists>it it'. bsearch_iter_init (Some \<lparr>status = BSEARCH_DONE_FOUND, left_idx = 0, right_idx = 0,
        pivot_idx = 0, pivot_offset = 0\<rparr>) 0 6 = Inr (ERR_NONE, it)
    \<and> notify_all it [BSEARCH_NOTIFY_RIGHT, BSEARCH_NOTIFY_RIGHT, BSEARCH_NOTIFY_LEFT] = Inr it'
    \<and> status it' = BSEARCH_DONE_NOT_FOUND"
  by (rule bsearch_is_logarithmic) (simp_all add: index_range_ok_def)

text \<open>
  At the ends of the index type the arithmetic overflows: initialising over the whole range of
  \<open>int32_t\<close> overflows in the midpoint, and a search whose stop index is the largest \<open>int32_t\<close>
  overflows when it is sent past it.
\<close>

theorem bsearch_overflows_at_ends:
  "bsearch_iter_init (Some it0) (- 2147483648) 2147483647 = Inl Signed_overflow
    \<and> r_bind (bsearch_iter_init (Some it0) 2147483646 2147483647) (\<lambda>(_, it).
        notify_all it [BSEARCH_NOTIFY_RIGHT, BSEARCH_NOTIFY_RIGHT]) = Inl Signed_overflow"
  by (simp add: bsearch_iter_init_def bsearch_get_midpoint_safe_def s32_def bsearch_iter_notify_def
      notify_right_def signed_divide_int_def)

end
