(* ===== verification/Header_Contracts.thy ===== *)
theory Header_Contracts
  imports Static_Pool Circular_Buffer Fast_Circular_Buffer Copy_Queue Bounded_Heap
    Bsearch_Iter Static_Event_Publisher Simple_Fsm
begin

text \<open>
  What the headers under \<open>include/cemb/\<close> document about what the functions return. For each
  function that returns an \<open>ErrorCode_t\<close> there is the code that its \<open>@retval\<close> lines give for a call. The
  conditions of these lines (the queue is full, the heap is empty, no slots are available, a
  state outside the machine was requested) are expressed by what the structure holds and by what the
  handlers request, not by the fields that the code tests.

  The theorems say, for well-formed structures, that a call does not fault, that it returns exactly the documented
  code, that a call that is refused changes nothing, and what a call that succeeds has done. The
  functions that return no code are here too: the search, and what deinitialising leaves.
\<close>

section \<open>A call with a documented code\<close>

text \<open>
  The call returns the code \<open>e\<close>; with \<open>ERR_NONE\<close> what it leaves is \<open>ok\<close>, with any other code it leaves what it
  found.
\<close>

definition answers :: "('a \<Rightarrow> bool) \<Rightarrow> ErrorCodes \<Rightarrow> 'a \<Rightarrow> (ErrorCodes \<times> 'a) result \<Rightarrow> bool" where
  "answers ok e x m \<longleftrightarrow> (\<exists>y. m = Inr (e, y) \<and> (if e = ERR_NONE then ok y else y = x))"

section \<open>The documented codes\<close>









text \<open>The machine has its own code for a configuration with a NULL in it.\<close>

definition fsm_config_has_null :: "SimpleFSMConfig \<Rightarrow> bool" where
  "fsm_config_has_null c \<longleftrightarrow>
     (case state_delegates c of
        None \<Rightarrow> True
      | Some ds \<Rightarrow> \<exists>d\<in>set (take (unat (state_count c)) ds).
          on_entry_handler d = NULL \<or> on_event_handler d = NULL \<or> on_exit_handler d = NULL)"

definition simple_fsm_init_retval :: "SimpleFSMConfig \<Rightarrow> ErrorCodes" where
  "simple_fsm_init_retval c =
     (if fsm_config_has_null c then ERR_NULL_POINTER
      else if max_transition_count c \<noteq> 0 \<and> unat (initial_state c) < unat (state_count c) then ERR_NONE
      else ERR_INVALID_ARG)"

text \<open>
  The collections: a removal or a look at an empty one is \<open>ERR_EMPTY\<close>, an insertion into a full one is
  \<open>ERR_NO_MEM\<close>. The two ring buffers are never full, they overwrite.
\<close>

definition circular_buffer_pop_byte_retval :: "CircularBuffer \<Rightarrow> ErrorCodes" where
  "circular_buffer_pop_byte_retval b = (if cb_contents b = [] then ERR_EMPTY else ERR_NONE)"

definition fast_circular_buffer_pop_byte_retval :: "FastCircularBuffer \<Rightarrow> ErrorCodes" where
  "fast_circular_buffer_pop_byte_retval b = (if fcb_contents b = [] then ERR_EMPTY else ERR_NONE)"

definition copy_queue_enqueue_retval :: "CopyQueue \<Rightarrow> ErrorCodes" where
  "copy_queue_enqueue_retval q =
     (if length (cq_contents q) < unat (max_size q) then ERR_NONE else ERR_NO_MEM)"

definition copy_queue_dequeue_retval :: "CopyQueue \<Rightarrow> ErrorCodes" where
  "copy_queue_dequeue_retval q = (if cq_contents q = [] then ERR_EMPTY else ERR_NONE)"

definition copy_queue_peek_retval :: "CopyQueue \<Rightarrow> ErrorCodes" where
  "copy_queue_peek_retval q = (if cq_contents q = [] then ERR_EMPTY else ERR_NONE)"

definition bounded_heap_peek_retval :: "BoundedHeap \<Rightarrow> ErrorCodes" where
  "bounded_heap_peek_retval h = (if heap_items h = [] then ERR_EMPTY else ERR_NONE)"

definition bounded_heap_pop_retval :: "BoundedHeap \<Rightarrow> ErrorCodes" where
  "bounded_heap_pop_retval h = (if heap_items h = [] then ERR_EMPTY else ERR_NONE)"

definition bounded_heap_push_retval :: "BoundedHeap \<Rightarrow> ErrorCodes" where
  "bounded_heap_push_retval h =
     (if length (heap_items h) < unat (heap_max_size h) then ERR_NONE else ERR_NO_MEM)"

definition ptr_stack_push_retval :: "PtrStack \<Rightarrow> ErrorCodes" where
  "ptr_stack_push_retval s =
     (if length (stack_contents s) < unat (max_item_count s) then ERR_NONE else ERR_NO_MEM)"

definition ptr_stack_pop_retval :: "PtrStack \<Rightarrow> ErrorCodes" where
  "ptr_stack_pop_retval s = (if stack_contents s = [] then ERR_EMPTY else ERR_NONE)"

text \<open>
  The pool, directly and through the allocator interface: \<open>ERR_NO_MEM\<close> when no slots are available,
  \<open>ERR_OUT_OF_BOUNDS\<close> for an object that is not a block of the pool.
\<close>

definition static_pool_allocate_retval :: "StaticPool \<Rightarrow> ErrorCodes" where
  "static_pool_allocate_retval p = (if pool_free p = [] then ERR_NO_MEM else ERR_NONE)"

definition static_pool_deallocate_retval :: "StaticPool \<Rightarrow> ptr \<Rightarrow> ErrorCodes" where
  "static_pool_deallocate_retval p obj =
     (if obj \<in> set (pool_blocks (StaticPool.config p)) then ERR_NONE else ERR_OUT_OF_BOUNDS)"

definition i_pool_allocator_allocate_retval :: "ptr \<Rightarrow> pool_store \<Rightarrow> ErrorCodes" where
  "i_pool_allocator_allocate_retval a m = (if store_free a m = [] then ERR_NO_MEM else ERR_NONE)"

definition i_pool_allocator_deallocate_retval :: "ptr \<Rightarrow> pool_store \<Rightarrow> ptr \<Rightarrow> ErrorCodes" where
  "i_pool_allocator_deallocate_retval a m obj =
     (if obj \<in> store_blocks a m then ERR_NONE else ERR_OUT_OF_BOUNDS)"

text \<open>
  The machine. The transitions that follow the request \<open>req\<close> in state \<open>s\<close> form a path, which ends when the
  machine has settled (\<open>ERR_NONE\<close>), when it has as many transitions as are allowed (\<open>ERR_TIMEOUT\<close>), or when a
  state outside of the machine is requested (\<open>ERR_OUT_OF_BOUNDS\<close>).
\<close>

definition transitions_retval ::
    "'w behaviour \<Rightarrow> 'w behaviour \<Rightarrow> size_t \<Rightarrow> nat \<Rightarrow> size_t \<Rightarrow> size_t \<Rightarrow> 'w \<Rightarrow> ErrorCodes \<Rightarrow> bool" where
  "transitions_retval ex en states n req s w e \<longleftrightarrow>
     (\<exists>path s' req' w'. legal_path ex en states req s w path
        \<and> after_path ex en req s w path = (s', req', w')
        \<and> (e = ERR_NONE \<and> length path < n \<and> req' = s'
           \<or> e = ERR_TIMEOUT \<and> length path = n
           \<or> e = ERR_OUT_OF_BOUNDS \<and> length path < n \<and> req' \<noteq> s' \<and> states \<le> target ex req' s' w'))"

definition simple_fsm_start_retval :: "'w handlers \<Rightarrow> SimpleFSM \<Rightarrow> 'w \<Rightarrow> ErrorCodes \<Rightarrow> bool" where
  "simple_fsm_start_retval app f w e \<longleftrightarrow>
     (if started f then e = ERR_NOOP
      else
        let g = f\<lparr>started := True, state := initial_state (SimpleFSM.config f)\<rparr>;
            (req, w0) = entry_of app g (state g) w
        in transitions_retval (exit_of app g) (entry_of app g) (state_count (SimpleFSM.config f))
             (unat (max_transition_count (SimpleFSM.config f))) req (state g) w0 e)"

definition simple_fsm_on_event_retval :: "'w handlers \<Rightarrow> SimpleFSM \<Rightarrow> ptr \<Rightarrow> 'w \<Rightarrow> ErrorCodes \<Rightarrow> bool" where
  "simple_fsm_on_event_retval app f ev w e \<longleftrightarrow>
     (if \<not> started f then e = ERR_NOT_INITIALISED
      else
        let (req, w0) = event_of app f ev (state f) w
        in transitions_retval (exit_of app f) (entry_of app f) (state_count (SimpleFSM.config f))
             (unat (max_transition_count (SimpleFSM.config f))) req (state f) w0 e)"

definition simple_fsm_force_stop_retval :: "'w handlers \<Rightarrow> SimpleFSM \<Rightarrow> 'w \<Rightarrow> ErrorCodes" where
  "simple_fsm_force_stop_retval app f w =
     (if \<not> started f then ERR_NOOP
      else if fst (exit_of app f (state f) w) = state f then ERR_NONE else ERR_INCOMPLETE)"

section \<open>The documented search\<close>

text \<open>
  \<open>include/cemb/bsearch_iter.h\<close>: the index to check is one that can still hold the element; the index found is \<open>- 1\<close> until
  the element was found; a notification says on which side of the index checked the element is, that it is
  there, that the index has to be skipped, or that no value can be fetched, and a search that is over is not changed
  by it. The status tells these apart.
\<close>

definition bsearch_iter_get_check_index_returns :: "BsearchIterator \<Rightarrow> int \<Rightarrow> bool" where
  "bsearch_iter_get_check_index_returns it i \<longleftrightarrow> i \<in> bs_live it"

definition bsearch_iter_get_found_index_returns :: "BsearchIterator \<Rightarrow> int \<Rightarrow> int" where
  "bsearch_iter_get_found_index_returns it i = (if status it = BSEARCH_DONE_FOUND then i else - 1)"

fun bsearch_iter_notify_updates ::
    "BsearchIterator \<Rightarrow> int \<Rightarrow> BsearchNotification \<Rightarrow> BsearchIterator \<Rightarrow> bool" where
  "bsearch_iter_notify_updates it i BSEARCH_NOTIFY_EQ it' \<longleftrightarrow> status it' = BSEARCH_DONE_FOUND"
| "bsearch_iter_notify_updates it i n it' \<longleftrightarrow> bs_live it' = narrow n i (bs_live it)
     \<and> status it' = (if bs_live it' = {} then BSEARCH_DONE_NOT_FOUND else BSEARCH_CONTINUE)"

section \<open>The documented states after deinitialisation\<close>

text \<open>
  \<open>circular_buffer_deinit\<close> and \<open>fast_circular_buffer_deinit\<close> lead to a safe state, and after \<open>bounded_heap_deinit\<close> all the
  functions of the heap return sensible values: what is put in is refused, there is nothing to take out, and
  the structure stays as it is.
\<close>

definition circular_buffer_safe_state :: "CircularBuffer \<Rightarrow> bool" where
  "circular_buffer_safe_state b \<longleftrightarrow>
     (\<forall>x. circular_buffer_push_byte (Some b) x = Inr (ERR_NO_MEM, b))
     \<and> (\<forall>y. circular_buffer_pop_byte (Some b) (Some y) = Inr (ERR_EMPTY, b, y))
     \<and> circular_buffer_get_count (Some b) = Inr 0"

definition fast_circular_buffer_safe_state :: "FastCircularBuffer \<Rightarrow> bool" where
  "fast_circular_buffer_safe_state b \<longleftrightarrow>
     (\<forall>x. fast_circular_buffer_push_byte (Some b) x = Inr (ERR_NO_MEM, b))
     \<and> (\<forall>y. fast_circular_buffer_pop_byte (Some b) (Some y) = Inr (ERR_EMPTY, b, y))
     \<and> fast_circular_buffer_get_count (Some b) = Inr 0"

definition bounded_heap_sensible_values :: "BoundedHeap \<Rightarrow> bool" where
  "bounded_heap_sensible_values h \<longleftrightarrow>
     (\<forall>v. bounded_heap_push (Some h) v = Inr (ERR_NO_MEM, h))
     \<and> (\<forall>v. bounded_heap_pop (Some h) (Some v) = Inr (ERR_EMPTY, h, v))
     \<and> (\<forall>item. bounded_heap_peek (Some h) item = Inr (ERR_EMPTY, item))
     \<and> bounded_heap_get_size (Some h) = Inr 0 \<and> bounded_heap_get_remaining (Some h) = Inr 0"

lemmas deinit_defs = circular_buffer_deinit_def fast_circular_buffer_deinit_def copy_queue_deinit_def
  bounded_heap_deinit_def ptr_stack_deinit_def static_event_publisher_deinit_def bsearch_iter_deinit_def

lemmas call_defs = circular_buffer_push_byte_def circular_buffer_pop_byte_def circular_buffer_get_count_def
  fast_circular_buffer_push_byte_def fast_circular_buffer_pop_byte_def fast_circular_buffer_get_count_def
  copy_queue_enqueue_def copy_queue_dequeue_def copy_queue_peek_def copy_queue_get_remaining_def
  copy_queue_get_size_def bounded_heap_peek_def bounded_heap_pop_def bounded_heap_push_def
  bounded_heap_get_size_def bounded_heap_get_remaining_def ptr_stack_push_def ptr_stack_pop_def
  ptr_stack_get_remaining_count_def static_event_publisher_notify_subscribers_def

lemmas safe_state_defs = circular_buffer_safe_state_def fast_circular_buffer_safe_state_def
  bounded_heap_sensible_values_def

section \<open>Initialisation\<close>










text \<open>For a NULL the header documents \<open>ERR_NULL_POINTER\<close>; the code asserts.\<close>

lemma init_fsm_null_asserts:
  assumes "state_delegates c = None"
  shows "simple_fsm_init_retval c = ERR_NULL_POINTER"
    and "simple_fsm_init (Some f0) (Some c) = Inl Assertion_failed"
  using assms
  by (simp_all add: simple_fsm_init_retval_def fsm_config_has_null_def simple_fsm_init_def
      simple_fsm_validate_config_def)

section \<open>The collections\<close>

lemma ring_answers:
  assumes "cb_inv b" and "fcb_inv f"
  shows "answers (\<lambda>b'. cb_inv b' \<and> cb_contents b' = ring_push (unat (buffer_max_size b)) (cb_contents b) x)
        ERR_NONE b (circular_buffer_push_byte (Some b) x)"
    and "answers (\<lambda>(b', y'). cb_inv b' \<and> cb_contents b = y' # cb_contents b')
        (circular_buffer_pop_byte_retval b) (b, y) (circular_buffer_pop_byte (Some b) (Some y))"
    and "answers (\<lambda>f'. fcb_inv f' \<and> fcb_contents f' = ring_push (fcb_capacity f) (fcb_contents f) x)
        ERR_NONE f (fast_circular_buffer_push_byte (Some f) x)"
    and "answers (\<lambda>(f', y'). fcb_inv f' \<and> fcb_contents f = y' # fcb_contents f')
        (fast_circular_buffer_pop_byte_retval f) (f, y) (fast_circular_buffer_pop_byte (Some f) (Some y))"
proof -
  show "answers (\<lambda>(b', y'). cb_inv b' \<and> cb_contents b = y' # cb_contents b')
      (circular_buffer_pop_byte_retval b) (b, y) (circular_buffer_pop_byte (Some b) (Some y))"
    using cb.pop_empty [OF assms(1), of y] cb.pop_step [OF assms(1), of _ _ y]
    by (cases "cb_contents b") (fastforce simp: answers_def circular_buffer_pop_byte_retval_def)+
  show "answers (\<lambda>(f', y'). fcb_inv f' \<and> fcb_contents f = y' # fcb_contents f')
      (fast_circular_buffer_pop_byte_retval f) (f, y) (fast_circular_buffer_pop_byte (Some f) (Some y))"
    using fcb.pop_empty [OF assms(2), of y] fcb.pop_step [OF assms(2), of _ _ y]
    by (cases "fcb_contents f") (fastforce simp: answers_def fast_circular_buffer_pop_byte_retval_def)+
qed (use cb.push_step [OF assms(1), of x] fcb.push_step [OF assms(2), of x] in \<open>auto simp: answers_def\<close>)

lemma queue_answers:
  assumes "cq_inv q" and "length d = unat (element_size q)"
    and "length (cq_contents q) < unat (max_size q) \<longrightarrow> 0 < cq_slots q"
  shows "answers (\<lambda>q'. cq_inv q' \<and> cq_contents q' = cq_contents q @ [d])
        (copy_queue_enqueue_retval q) q (copy_queue_enqueue (Some q) (Some d))"
    and "answers (\<lambda>(q', o'). cq_inv q' \<and> (\<exists>e. o' = Some e \<and> cq_contents q = e # cq_contents q'))
        (copy_queue_dequeue_retval q) (q, Some d) (copy_queue_dequeue (Some q) (Some d))"
    and "answers (\<lambda>o'. o' = Some (hd (cq_contents q)))
        (copy_queue_peek_retval q) (Some d) (copy_queue_peek (Some q) (Some d))"
proof -
  have full: "copy_queue_enqueue (Some q) (Some d) = Inr (ERR_NO_MEM, q)"
    if "\<not> length (cq_contents q) < unat (max_size q)"
  proof -
    have "CopyQueue.count q = max_size q"
      using that cq_count_le [OF assms(1)] by (simp add: cq_contents_def)
    then show ?thesis by (simp add: copy_queue_enqueue_def copy_queue_get_remaining_def)
  qed
  show "answers (\<lambda>q'. cq_inv q' \<and> cq_contents q' = cq_contents q @ [d])
      (copy_queue_enqueue_retval q) q (copy_queue_enqueue (Some q) (Some d))"
    using full cq.enqueue_step [OF assms(1,2)] assms(3)
    by (auto simp: answers_def copy_queue_enqueue_retval_def)
  show "answers (\<lambda>(q', o'). cq_inv q' \<and> (\<exists>e. o' = Some e \<and> cq_contents q = e # cq_contents q'))
      (copy_queue_dequeue_retval q) (q, Some d) (copy_queue_dequeue (Some q) (Some d))"
    using cq.dequeue_empty [OF assms(1), of d] cq.dequeue_step [OF assms(1,2)]
    by (cases "cq_contents q") (fastforce simp: answers_def copy_queue_dequeue_retval_def)+
  show "answers (\<lambda>o'. o' = Some (hd (cq_contents q)))
      (copy_queue_peek_retval q) (Some d) (copy_queue_peek (Some q) (Some d))"
  proof (cases "cq_contents q")
    case Nil
    then show ?thesis
      by (simp add: answers_def copy_queue_peek_retval_def copy_queue_peek_def copy_queue_get_size_def
          cq_contents_def)
  next
    case (Cons e es)
    then show ?thesis
      using copy_queue_head [OF assms(1) Cons assms(2)]
      by (simp add: answers_def copy_queue_peek_retval_def copy_queue_peek_def copy_queue_get_size_def)
  qed
qed

lemma heap_answers:
  assumes "heap_inv h"
  shows "answers (\<lambda>h'. heap_inv h' \<and> mset (heap_items h') = add_mset v (mset (heap_items h)))
        (bounded_heap_push_retval h) h (bounded_heap_push (Some h) v)"
    and "answers (\<lambda>(h', v'). heap_inv h' \<and> v' = hd (heap_items h)
          \<and> mset (heap_items h) = add_mset v' (mset (heap_items h')))
        (bounded_heap_pop_retval h) (h, v) (bounded_heap_pop (Some h) (Some v))"
    and "answers (\<lambda>o'. o' = Some (hd (heap_items h)))
        (bounded_heap_peek_retval h) (Some v) (bounded_heap_peek (Some h) (Some v))"
proof -
  have len: "length (heap_items h) = heap_count h" by (rule size_heap_items [OF assms])
  have le: "heap_count h \<le> unat (heap_max_size h)"
    using assms by (simp add: heap_inv_def heap_count_def word_le_nat_alt)
  have "bounded_heap_push (Some h) v = Inr (ERR_NO_MEM, h)" if "\<not> heap_count h < unat (heap_max_size h)"
  proof -
    have "items_in_heap h = heap_max_size h" using that le by (simp add: heap_count_def)
    then show ?thesis by (simp add: bounded_heap_push_def bounded_heap_get_remaining_def)
  qed
  then show "answers (\<lambda>h'. heap_inv h' \<and> mset (heap_items h') = add_mset v (mset (heap_items h)))
      (bounded_heap_push_retval h) h (bounded_heap_push (Some h) v)"
    using bounded_heap_push_step [OF assms, of v] len
    by (auto simp: answers_def bounded_heap_push_retval_def)
  have hd: "hd (heap_items h) = heap_cells h ! 0" "heap_storage (BoundedHeap.config h) = Some (heap_cells h)"
      "0 < length (heap_cells h)"
    if "0 < heap_count h"
  proof -
    have ne: "heap_items h \<noteq> []" using that len by auto
    show "heap_storage (BoundedHeap.config h) = Some (heap_cells h)"
      using heap_inv_over [OF assms] by (simp add: heap_over_def)
    show "0 < length (heap_cells h)" using ne by (auto simp: heap_items_def)
    show "hd (heap_items h) = heap_cells h ! 0"
      using that hd_conv_nth [OF ne] by (simp add: heap_items_def)
  qed
  have empty: "heap_items h = [] \<longleftrightarrow> items_in_heap h = 0" "heap_count h = 0 \<longleftrightarrow> items_in_heap h = 0"
    using len by (auto simp: heap_count_def)
  show "answers (\<lambda>(h', v'). heap_inv h' \<and> v' = hd (heap_items h)
        \<and> mset (heap_items h) = add_mset v' (mset (heap_items h')))
      (bounded_heap_pop_retval h) (h, v) (bounded_heap_pop (Some h) (Some v))"
  proof (cases "items_in_heap h = 0")
    case True
    then show ?thesis using empty
      by (simp add: answers_def bounded_heap_pop_retval_def bounded_heap_pop_def bounded_heap_get_size_def)
  next
    case False
    then have "0 < heap_count h" using empty by simp
    then show ?thesis using False hd empty bounded_heap_pop_step [OF assms, of v]
      by (auto simp: answers_def bounded_heap_pop_retval_def)
  qed
  show "answers (\<lambda>o'. o' = Some (hd (heap_items h)))
      (bounded_heap_peek_retval h) (Some v) (bounded_heap_peek (Some h) (Some v))"
    using empty hd
    by (cases "items_in_heap h = 0")
       (simp_all add: answers_def bounded_heap_peek_retval_def bounded_heap_peek_def bounded_heap_get_size_def
        arr_get_def)
qed

lemma stack_answers:
  assumes "stack_inv s"
  shows "answers (\<lambda>s'. stack_inv s' \<and> stack_contents s' = v # stack_contents s)
        (ptr_stack_push_retval s) s (ptr_stack_push (Some s) v)"
    and "answers (\<lambda>(s', v'). stack_inv s' \<and> stack_contents s = v' # stack_contents s')
        (ptr_stack_pop_retval s) (s, v) (ptr_stack_pop (Some s) (Some v))"
proof -
  show "answers (\<lambda>s'. stack_inv s' \<and> stack_contents s' = v # stack_contents s)
      (ptr_stack_push_retval s) s (ptr_stack_push (Some s) v)"
    using ps.contents_bound [OF assms] ps.push_full [OF assms, of v] ps.push_room [OF assms, of v]
    by (auto simp: answers_def ptr_stack_push_retval_def)
  show "answers (\<lambda>(s', v'). stack_inv s' \<and> stack_contents s = v' # stack_contents s')
      (ptr_stack_pop_retval s) (s, v) (ptr_stack_pop (Some s) (Some v))"
    using ps.pop_empty [OF assms, of v] ps.pop_some [OF assms, of _ _ v]
    by (cases "stack_contents s") (fastforce simp: answers_def ptr_stack_pop_retval_def)+
qed

section \<open>The pool and the machine\<close>

lemma pool_answers:
  assumes "pool_inv p"
    and "obj = NULL \<or> obj \<in> set (pool_blocks (StaticPool.config p)) - set (pool_free p)"
  shows "answers (\<lambda>(p', b). pool_inv p' \<and> pool_free p = b # pool_free p')
        (static_pool_allocate_retval p) (p, old) (static_pool_allocate (Some p) (Some old))"
    and "answers (\<lambda>(p', v). pool_inv p' \<and> v = NULL \<and> pool_free p' = obj # pool_free p)
        (static_pool_deallocate_retval p obj) (p, obj) (static_pool_deallocate (Some p) (Some obj))"
proof -
  show "answers (\<lambda>(p', b). pool_inv p' \<and> pool_free p = b # pool_free p')
      (static_pool_allocate_retval p) (p, old) (static_pool_allocate (Some p) (Some old))"
    using sp.alloc_none [OF assms(1), of old] sp.alloc_some [OF assms(1), of _ _ old]
    by (cases "pool_free p") (fastforce simp: answers_def static_pool_allocate_retval_def)+
  show "answers (\<lambda>(p', v). pool_inv p' \<and> v = NULL \<and> pool_free p' = obj # pool_free p)
      (static_pool_deallocate_retval p obj) (p, obj) (static_pool_deallocate (Some p) (Some obj))"
    using sp.dealloc_null [OF assms(1)] sp.dealloc_block [OF assms(1), of obj] sp.null_no_block [OF assms(1)]
      assms(2)
    by (auto simp: answers_def static_pool_deallocate_retval_def)
qed

lemma interface_answers:
  assumes "store_inv a m" and "obj = NULL \<or> obj \<in> store_blocks a m - set (store_free a m)"
  shows "answers (\<lambda>(m', b). store_inv a m' \<and> store_free a m = b # store_free a m')
        (i_pool_allocator_allocate_retval a m) (m, old)
        (i_pool_allocator_allocate (Some (pool_interface a)) (Some old) m)"
    and "answers (\<lambda>(m', v). store_inv a m' \<and> v = NULL \<and> store_free a m' = obj # store_free a m)
        (i_pool_allocator_deallocate_retval a m obj) (m, obj)
        (i_pool_allocator_deallocate (Some (pool_interface a)) (Some obj) m)"
proof -
  show "answers (\<lambda>(m', b). store_inv a m' \<and> store_free a m = b # store_free a m')
      (i_pool_allocator_allocate_retval a m) (m, old)
      (i_pool_allocator_allocate (Some (pool_interface a)) (Some old) m)"
    using ip.alloc_none [OF assms(1), of old] ip.alloc_some [OF assms(1), of _ _ old]
    by (cases "store_free a m") (fastforce simp: answers_def i_pool_allocator_allocate_retval_def)+
  show "answers (\<lambda>(m', v). store_inv a m' \<and> v = NULL \<and> store_free a m' = obj # store_free a m)
      (i_pool_allocator_deallocate_retval a m obj) (m, obj)
      (i_pool_allocator_deallocate (Some (pool_interface a)) (Some obj) m)"
    using ip.dealloc_null [OF assms(1)] ip.dealloc_block [OF assms(1), of obj] ip.null_no_block [OF assms(1)]
      assms(2)
    by (auto simp: answers_def i_pool_allocator_deallocate_retval_def)
qed

text \<open>The documented code of a run of transitions is one code, that of the reference runner.\<close>

lemma path_spec_run:
  assumes "legal_path ex en states req s w path" and "after_path ex en req s w path = (s', req', w')"
    and "e = ERR_NONE \<and> length path < n \<and> req' = s' \<or> e = ERR_TIMEOUT \<and> length path = n
      \<or> e = ERR_OUT_OF_BOUNDS \<and> length path < n \<and> req' \<noteq> s' \<and> states \<le> target ex req' s' w'"
  shows "fst (spec_run ex en states n req s w) = e"
  using assms
proof (induction path arbitrary: n req s w)
  case Nil
  then show ?case
    by (cases n) (auto simp: target_def case_prod_beta Let_def)
next
  case (Cons t path)
  obtain k where k: "n = Suc k" using Cons.prems(3) by (cases n) auto
  obtain r2 w2 where en: "en t (snd (ex s w)) = (r2, w2)" by fastforce
  have t: "req \<noteq> s" "t = target ex req s w" "\<not> states \<le> t" using Cons.prems(1) by (auto simp: not_le)
  have "fst (spec_run ex en states k r2 t w2) = e"
    using Cons.IH [of r2 t w2 k] Cons.prems en k by auto
  then show ?case
    using t en by (simp add: k target_def case_prod_beta Let_def split: if_splits)
qed

lemma transitions_retval_iff:
  "transitions_retval ex en states n req s w e \<longleftrightarrow> e = fst (spec_run ex en states n req s w)"
proof
  assume "transitions_retval ex en states n req s w e"
  then show "e = fst (spec_run ex en states n req s w)"
    unfolding transitions_retval_def by (elim exE conjE) (rule path_spec_run [symmetric])
next
  assume "e = fst (spec_run ex en states n req s w)"
  then obtain s' w' where run: "spec_run ex en states n req s w = (e, s', w')"
    by (cases "spec_run ex en states n req s w") simp
  show "transitions_retval ex en states n req s w e"
    unfolding transitions_retval_def using spec_run_path [OF run] by blast
qed

lemma fsm_start_answers:
  assumes "leaves_fsm app" and "fsm_inv f"
  shows "\<exists>e g w'. simple_fsm_start app (Some f) w = Inr (e, g, w')
    \<and> (\<forall>c. simple_fsm_start_retval app f w c \<longleftrightarrow> c = e)
    \<and> fsm_inv g \<and> (started g \<longleftrightarrow> e = ERR_NONE \<or> e = ERR_NOOP)"
proof (cases "started f")
  case True
  then show ?thesis using assms(2) by (simp add: simple_fsm_start_def simple_fsm_start_retval_def)
next
  case False
  define g where "g = f\<lparr>started := True, state := initial_state (SimpleFSM.config f)\<rparr>"
  have g: "fsm_inv g" "started g" "SimpleFSM.config g = SimpleFSM.config f"
    using assms(2) by (simp_all add: g_def fsm_inv_def fsm_config_ok_def)
  obtain req w0 where en: "entry_of app g (state g) w = (req, w0)" by fastforce
  obtain e s w' where run: "spec_run (exit_of app g) (entry_of app g) (state_count (SimpleFSM.config f))
      (unat (max_transition_count (SimpleFSM.config f))) req (state g) w0 = (e, s, w')"
    by (metis prod_cases3)
  have "e \<noteq> ERR_NOOP" using spec_run_path [OF run] by auto
  moreover have "simple_fsm_start app (Some f) w
      = Inr (e, if e \<noteq> ERR_NONE then g\<lparr>state := s, started := False\<rparr> else g\<lparr>state := s\<rparr>, w')"
    using start_eq [OF assms False, of w] resolve_transitions_spec [OF assms(1) g(1)] run
    by (simp add: g_def [symmetric] en g(3))
  moreover have "simple_fsm_start_retval app f w c \<longleftrightarrow> c = e" for c
    using False run by (simp add: simple_fsm_start_retval_def transitions_retval_iff g_def [symmetric] en)
  moreover have "s < state_count (SimpleFSM.config f)"
    using spec_run_state [OF run] g by (simp add: fsm_inv_def)
  ultimately show ?thesis using g by (simp add: fsm_inv_def)
qed

lemma fsm_event_answers:
  assumes "leaves_fsm app" and "fsm_inv f"
  shows "\<exists>e g w'. simple_fsm_on_event app (Some f) ev w = Inr (e, g, w')
    \<and> (\<forall>c. simple_fsm_on_event_retval app f ev w c \<longleftrightarrow> c = e) \<and> fsm_inv g \<and> started g = started f"
proof (cases "started f")
  case False
  then show ?thesis using assms(2) by (simp add: simple_fsm_on_event_def simple_fsm_on_event_retval_def)
next
  case True
  obtain req w0 where ev: "event_of app f ev (state f) w = (req, w0)" by fastforce
  obtain e s w' where run: "spec_run (exit_of app f) (entry_of app f) (state_count (SimpleFSM.config f))
      (unat (max_transition_count (SimpleFSM.config f))) req (state f) w0 = (e, s, w')"
    by (metis prod_cases3)
  have "simple_fsm_on_event app (Some f) ev w = Inr (e, f\<lparr>state := s\<rparr>, w')"
    using on_event_eq [OF assms True] resolve_transitions_spec [OF assms] run by (simp add: ev)
  moreover have "simple_fsm_on_event_retval app f ev w c \<longleftrightarrow> c = e" for c
    using True run by (simp add: simple_fsm_on_event_retval_def transitions_retval_iff ev)
  moreover have "s < state_count (SimpleFSM.config f)"
    using spec_run_state [OF run] assms(2) by (simp add: fsm_inv_def)
  ultimately show ?thesis using assms(2) by (simp add: fsm_inv_def)
qed

lemma fsm_stop_answers:
  assumes "leaves_fsm app" and "fsm_inv f"
  shows "\<exists>g w'. simple_fsm_force_stop app (Some f) w = Inr (simple_fsm_force_stop_retval app f w, g, w')
    \<and> fsm_inv g \<and> \<not> started g"
proof (cases "started f")
  case True
  then show ?thesis
    using assms(2) force_stop_eq [OF assms True, of w] by (simp add: simple_fsm_force_stop_retval_def fsm_inv_def)
qed (use assms(2) in \<open>simp add: simple_fsm_force_stop_retval_def simple_fsm_force_stop_def\<close>)

section \<open>Structures for concrete calls\<close>

definition sample_ring :: CircularBuffer where
  "sample_ring = \<lparr>CircularBuffer.buffer = Some [7, 8], buffer_max_size = 2, CircularBuffer.read_index = 1,
     CircularBuffer.write_index = 0, buffer_is_empty = False\<rparr>"

definition sample_fast_ring :: FastCircularBuffer where
  "sample_fast_ring = \<lparr>FastCircularBuffer.buffer = Some [1, 2],
     FastCircularBuffer.read_index = 0xFFFFFFFFFFFFFFFF, FastCircularBuffer.write_index = 1, size_mask = 1\<rparr>"

definition sample_queue :: CopyQueue where
  "sample_queue = \<lparr>CopyQueue.count = 1, max_size = 2, element_size = 1, CopyQueue.buffer = Some [5, 6],
     tail_idx = 1, head_idx = 0\<rparr>"

definition sample_heap :: BoundedHeap where
  "sample_heap = \<lparr>BoundedHeap.config = \<lparr>heap_storage = Some [7, 3, 5], BoundedHeapConfig.element_count = 3,
     compare = Some max_heap_compare\<rparr>, items_in_heap = 3, heap_max_size = 3\<rparr>"

definition sample_stack :: PtrStack where
  "sample_stack = \<lparr>stack = Some [16, 0], max_item_count = 2, stack_top = 0\<rparr>"

definition sample_pool :: StaticPool where
  "sample_pool = \<lparr>StaticPool.config = \<lparr>allocation_stack = Some [4096], pool_buffer = 4096,
     buffer_size = 8, object_size = 8, object_count = 1\<rparr>,
     free_stack = \<lparr>stack = Some [4096], max_item_count = 1, stack_top = 0\<rparr>\<rparr>"

lemma sample_invs:
  "cb_inv sample_ring" "fcb_inv sample_fast_ring" "cq_inv sample_queue" "heap_inv sample_heap"
  "stack_inv sample_stack" "pool_inv sample_pool"
  by (simp_all add: sample_ring_def cb_inv_def cb_cells_def sample_fast_ring_def fcb_inv_def fcb_capacity_def
      fcb_cells_def numeric_ops_is_power_2_sz_def sample_queue_def cq_inv_def cq_bytes_def cq_cells_def
      sample_heap_def heap_inv_def heap_cells_def sample_stack_def stack_inv_def sample_pool_def pool_inv_def
      pool_config_ok_def stack_contents_def)

lemma sample_contents:
  "cb_contents sample_ring = [8]" "cq_contents sample_queue = [[5]]" "heap_items sample_heap = [7, 3, 5]" "stack_contents sample_stack = []"
  "pool_free sample_pool = []" "4096 \<in> set (pool_blocks (StaticPool.config sample_pool))"
  by (simp_all add: sample_ring_def cb_contents_def cb_cells_def cb_count_def ring_list_def sample_queue_def cq_contents_def cq_cells_def
      sample_heap_def heap_items_def heap_cells_def heap_count_def sample_stack_def sample_pool_def
      stack_contents_def pool_blocks_def pool_block_def)

section \<open>Properties\<close>

text \<open>
  C27. A well-formed collection returns exactly the code that its header documents, and no call faults: a removal
  or a look is \<open>ERR_EMPTY\<close> exactly when the collection holds nothing, an insertion into the queue, the heap or the
  stack is \<open>ERR_NO_MEM\<close> exactly when it holds as many items as it was made for, and an insertion into a ring buffer
  is never refused. A refused call leaves the collection and the caller's variable as they were; a call that
  succeeds adds or removes exactly the one item, and leaves the collection well-formed. For the queue,
  which cannot be reused, it is required that an element can still be stored if the queue is not full.
\<close>

theorem collections_return_documented_codes:
  assumes "cb_inv b" and "fcb_inv f" and "cq_inv q" and "length d = unat (element_size q)"
    and "length (cq_contents q) < unat (max_size q) \<longrightarrow> 0 < cq_slots q"
    and "heap_inv h" and "stack_inv s"
  shows "answers (\<lambda>b'. cb_inv b' \<and> cb_contents b' = ring_push (unat (buffer_max_size b)) (cb_contents b) x)
        ERR_NONE b (circular_buffer_push_byte (Some b) x)
    \<and> answers (\<lambda>(b', y'). cb_inv b' \<and> cb_contents b = y' # cb_contents b')
        (circular_buffer_pop_byte_retval b) (b, y) (circular_buffer_pop_byte (Some b) (Some y))
    \<and> answers (\<lambda>f'. fcb_inv f' \<and> fcb_contents f' = ring_push (fcb_capacity f) (fcb_contents f) x)
        ERR_NONE f (fast_circular_buffer_push_byte (Some f) x)
    \<and> answers (\<lambda>(f', y'). fcb_inv f' \<and> fcb_contents f = y' # fcb_contents f')
        (fast_circular_buffer_pop_byte_retval f) (f, y) (fast_circular_buffer_pop_byte (Some f) (Some y))
    \<and> answers (\<lambda>q'. cq_inv q' \<and> cq_contents q' = cq_contents q @ [d])
        (copy_queue_enqueue_retval q) q (copy_queue_enqueue (Some q) (Some d))
    \<and> answers (\<lambda>(q', o'). cq_inv q' \<and> (\<exists>e. o' = Some e \<and> cq_contents q = e # cq_contents q'))
        (copy_queue_dequeue_retval q) (q, Some d) (copy_queue_dequeue (Some q) (Some d))
    \<and> answers (\<lambda>o'. o' = Some (hd (cq_contents q)))
        (copy_queue_peek_retval q) (Some d) (copy_queue_peek (Some q) (Some d))
    \<and> answers (\<lambda>h'. heap_inv h' \<and> mset (heap_items h') = add_mset v (mset (heap_items h)))
        (bounded_heap_push_retval h) h (bounded_heap_push (Some h) v)
    \<and> answers (\<lambda>(h', v'). heap_inv h' \<and> v' = hd (heap_items h)
          \<and> mset (heap_items h) = add_mset v' (mset (heap_items h')))
        (bounded_heap_pop_retval h) (h, v) (bounded_heap_pop (Some h) (Some v))
    \<and> answers (\<lambda>o'. o' = Some (hd (heap_items h)))
        (bounded_heap_peek_retval h) (Some v) (bounded_heap_peek (Some h) (Some v))
    \<and> answers (\<lambda>s'. stack_inv s' \<and> stack_contents s' = v # stack_contents s)
        (ptr_stack_push_retval s) s (ptr_stack_push (Some s) v)
    \<and> answers (\<lambda>(s', v'). stack_inv s' \<and> stack_contents s = v' # stack_contents s')
        (ptr_stack_pop_retval s) (s, v) (ptr_stack_pop (Some s) (Some v))"
  by (intro conjI ring_answers [OF assms(1,2)] queue_answers [OF assms(3-5)] heap_answers [OF assms(6)]
      stack_answers [OF assms(7)])

theorem collections_return_documented_codes_witness:
  "(\<exists>b'. circular_buffer_pop_byte (Some sample_ring) (Some 0) = Inr (ERR_NONE, b', 8) \<and> cb_contents b' = [])
    \<and> (\<exists>q'. copy_queue_enqueue (Some sample_queue) (Some [9]) = Inr (ERR_NONE, q')
         \<and> cq_contents q' = [[5], [9]])
    \<and> bounded_heap_push (Some sample_heap) 4 = Inr (ERR_NO_MEM, sample_heap)
    \<and> ptr_stack_pop (Some sample_stack) (Some 4) = Inr (ERR_EMPTY, sample_stack, 4)"
proof -
  have "length [9 :: uint8_t] = unat (element_size sample_queue)" "0 < cq_slots sample_queue"
      "unat (max_size sample_queue) = 2" "unat (heap_max_size sample_heap) = 3"
    by (simp_all add: sample_queue_def cq_slots_def cq_bytes_def sample_heap_def)
  then show ?thesis
    using collections_return_documented_codes [OF sample_invs(1-3), of "[9]" sample_heap sample_stack 0 0 4]
      sample_invs(4,5)
    by (auto simp: answers_def sample_contents circular_buffer_pop_byte_retval_def copy_queue_enqueue_retval_def
        bounded_heap_push_retval_def ptr_stack_pop_retval_def)
qed

text \<open>
  C28. A well-formed pool, used directly or through the allocator interface, and a well-formed machine return
  exactly the code that their headers document, and no call faults. An allocation is \<open>ERR_NO_MEM\<close> exactly when no block is
  free, and otherwise hands out a free block; giving back NULL is \<open>ERR_OUT_OF_BOUNDS\<close> and changes nothing, giving
  back a block that is handed out succeeds, clears the caller's pointer and makes the block free. Starting a started
  machine is \<open>ERR_NOOP\<close>, an event for a stopped one \<open>ERR_NOT_INITIALISED\<close>, stopping a stopped one \<open>ERR_NOOP\<close>. Otherwise
  a start and an event report \<open>ERR_TIMEOUT\<close> exactly when \<open>max_transition_count\<close> transitions were made and
  \<open>ERR_OUT_OF_BOUNDS\<close> exactly when a state outside of the machine was requested before that, and a stop reports
  \<open>ERR_INCOMPLETE\<close> exactly when the exit handler requests another state. The handlers are assumed not
  to modify the machine that runs them, and only NULL and blocks of the pool that are handed out are given back.
\<close>

theorem services_return_documented_codes:
  assumes "pool_inv p"
    and "obj = NULL \<or> obj \<in> set (pool_blocks (StaticPool.config p)) - set (pool_free p)"
    and "store_inv a m" and "obj' = NULL \<or> obj' \<in> store_blocks a m - set (store_free a m)"
    and "leaves_fsm app" and "fsm_inv f"
  shows "answers (\<lambda>(p', b). pool_inv p' \<and> pool_free p = b # pool_free p')
        (static_pool_allocate_retval p) (p, old) (static_pool_allocate (Some p) (Some old))
    \<and> answers (\<lambda>(p', v). pool_inv p' \<and> v = NULL \<and> pool_free p' = obj # pool_free p)
        (static_pool_deallocate_retval p obj) (p, obj) (static_pool_deallocate (Some p) (Some obj))
    \<and> answers (\<lambda>(m', b). store_inv a m' \<and> store_free a m = b # store_free a m')
        (i_pool_allocator_allocate_retval a m) (m, old)
        (i_pool_allocator_allocate (Some (pool_interface a)) (Some old) m)
    \<and> answers (\<lambda>(m', v). store_inv a m' \<and> v = NULL \<and> store_free a m' = obj' # store_free a m)
        (i_pool_allocator_deallocate_retval a m obj') (m, obj')
        (i_pool_allocator_deallocate (Some (pool_interface a)) (Some obj') m)
    \<and> (\<exists>e g w'. simple_fsm_start app (Some f) w = Inr (e, g, w')
         \<and> (\<forall>c. simple_fsm_start_retval app f w c \<longleftrightarrow> c = e)
         \<and> fsm_inv g \<and> (started g \<longleftrightarrow> e = ERR_NONE \<or> e = ERR_NOOP))
    \<and> (\<exists>e g w'. simple_fsm_on_event app (Some f) ev w = Inr (e, g, w')
         \<and> (\<forall>c. simple_fsm_on_event_retval app f ev w c \<longleftrightarrow> c = e)
         \<and> fsm_inv g \<and> started g = started f)
    \<and> (\<exists>g w'. simple_fsm_force_stop app (Some f) w = Inr (simple_fsm_force_stop_retval app f w, g, w')
         \<and> fsm_inv g \<and> \<not> started g)"
  by (intro conjI pool_answers [OF assms(1,2)] interface_answers [OF assms(3,4)]
      fsm_start_answers [OF assms(5,6)] fsm_event_answers [OF assms(5,6)] fsm_stop_answers [OF assms(5,6)])

theorem services_return_documented_codes_witness:
  "static_pool_allocate (Some sample_pool) (Some 7) = Inr (ERR_NO_MEM, sample_pool, 7)
    \<and> (\<exists>p'. static_pool_deallocate (Some sample_pool) (Some 4096) = Inr (ERR_NONE, p', NULL)
         \<and> pool_free p' = [4096])
    \<and> i_pool_allocator_allocate (Some (pool_interface 64)) (Some 7) [64 \<mapsto> sample_pool]
        = Inr (ERR_NO_MEM, [64 \<mapsto> sample_pool], 7)
    \<and> (\<exists>e g w'. simple_fsm_start echo_app (Some (two_state_fsm 5 False)) [] = Inr (e, g, w')
         \<and> simple_fsm_start_retval echo_app (two_state_fsm 5 False) [] e)"
proof -
  have "store_inv 64 [64 \<mapsto> sample_pool]" "store_free 64 [64 \<mapsto> sample_pool] = []"
    using sample_invs(6) sample_contents by (simp_all add: store_inv_def store_free_def)
  moreover have "(4096 :: ptr) = NULL \<or>
      4096 \<in> set (pool_blocks (StaticPool.config sample_pool)) - set (pool_free sample_pool)"
    by (simp add: sample_contents)
  moreover have "fsm_inv (two_state_fsm 5 False)" by (simp add: two_state_inv)
  ultimately have "answers (\<lambda>(p', b). pool_inv p' \<and> pool_free sample_pool = b # pool_free p')
        (static_pool_allocate_retval sample_pool) (sample_pool, 7) (static_pool_allocate (Some sample_pool) (Some 7))"
      "answers (\<lambda>(p', v). pool_inv p' \<and> v = NULL \<and> pool_free p' = 4096 # pool_free sample_pool)
        (static_pool_deallocate_retval sample_pool 4096) (sample_pool, 4096)
        (static_pool_deallocate (Some sample_pool) (Some 4096))"
      "answers (\<lambda>(m', b). store_inv 64 m' \<and> store_free 64 [64 \<mapsto> sample_pool] = b # store_free 64 m')
        (i_pool_allocator_allocate_retval 64 [64 \<mapsto> sample_pool]) ([64 \<mapsto> sample_pool], 7)
        (i_pool_allocator_allocate (Some (pool_interface 64)) (Some 7) [64 \<mapsto> sample_pool])"
      "\<exists>e g w'. simple_fsm_start echo_app (Some (two_state_fsm 5 False)) [] = Inr (e, g, w')
         \<and> (\<forall>c. simple_fsm_start_retval echo_app (two_state_fsm 5 False) [] c \<longleftrightarrow> c = e)
         \<and> fsm_inv g \<and> (started g \<longleftrightarrow> e = ERR_NONE \<or> e = ERR_NOOP)"
    using services_return_documented_codes [OF sample_invs(6), of 4096 64 "[64 \<mapsto> sample_pool]" NULL echo_app
        "two_state_fsm 5 False" 7 "[]" 0] echo_leaves
    by simp_all
  then show ?thesis
    using \<open>store_free 64 [64 \<mapsto> sample_pool] = []\<close>
    by (auto simp: answers_def sample_contents static_pool_allocate_retval_def
        static_pool_deallocate_retval_def i_pool_allocator_allocate_retval_def)
qed



text \<open>
  C20. The search keeps to its header. In a search that is under way the index to check is one that can still hold
  the element, and every notification does what the header says of it, keeps the search in working order and
  tells by the status and by the index found how the search stands; a search that is over stays as it is.
\<close>

theorem search_is_documented:
  assumes "bs_inv it"
  shows "\<exists>it'. bsearch_iter_notify (Some it) n = Inr it' \<and> bs_inv it'
    \<and> (status it \<noteq> BSEARCH_CONTINUE \<longrightarrow> it' = it)
    \<and> (status it = BSEARCH_CONTINUE \<longrightarrow> (\<exists>i. bsearch_iter_get_check_index (Some it) = Inr i
         \<and> bsearch_iter_get_check_index_returns it i \<and> bsearch_iter_notify_updates it i n it'
         \<and> bsearch_iter_get_found_index (Some it) = Inr (- 1)
         \<and> bsearch_iter_get_found_index (Some it') = Inr (bsearch_iter_get_found_index_returns it' i)))"
proof (cases "status it = BSEARCH_CONTINUE")
  case False
  then show ?thesis using assms by (simp add: bsearch_iter_notify_def)
next
  case True
  then have st: "bsearch_iter_status (Some it) = Inr BSEARCH_CONTINUE" by (simp add: bsearch_iter_status_def)
  obtain i where i: "bsearch_iter_get_check_index (Some it) = Inr i" "i \<in> bs_live it"
    using bs.check_live [OF assms st] by blast
  have found: "bsearch_iter_get_found_index (Some it') = Inr (- 1)" if "status it' \<noteq> BSEARCH_DONE_FOUND" for it'
    using that by (simp add: bsearch_iter_get_found_index_def)
  show ?thesis
  proof (cases "n = BSEARCH_NOTIFY_EQ")
    case eq: True
    obtain it' where "bsearch_iter_notify (Some it) n = Inr it'" "bs_inv it'"
        "bsearch_iter_status (Some it') = Inr BSEARCH_DONE_FOUND" "bsearch_iter_get_check_index (Some it') = Inr i"
      using bs.notify_eq [OF assms st i(1)] eq by blast
    then show ?thesis
      using True eq i found [of it]
      by (auto simp: bsearch_iter_status_def bsearch_iter_get_check_index_returns_def
          bsearch_iter_get_found_index_returns_def bsearch_iter_get_found_index_def bsearch_iter_get_check_index_def)
  next
    case other: False
    obtain it' where it': "bsearch_iter_notify (Some it) n = Inr it'" "bs_inv it'"
        "bs_live it' = narrow n i (bs_live it)"
        "bsearch_iter_status (Some it')
          = Inr (if bs_live it' = {} then BSEARCH_DONE_NOT_FOUND else BSEARCH_CONTINUE)"
      using bs.notify_narrow [OF assms st i(1) other] by blast
    then have status: "status it' = (if bs_live it' = {} then BSEARCH_DONE_NOT_FOUND else BSEARCH_CONTINUE)"
      by (simp add: bsearch_iter_status_def)
    then have "bsearch_iter_notify_updates it i n it'" "status it' \<noteq> BSEARCH_DONE_FOUND"
      using other it'(3) by (cases n; simp)+
    then show ?thesis
      using True i it'(1,2) found [of it] found [of it']
      by (auto simp: bsearch_iter_get_check_index_returns_def bsearch_iter_get_found_index_returns_def)
  qed
qed

theorem search_is_documented_witness:
  "\<exists>it'. bsearch_iter_notify (Some \<lparr>status = BSEARCH_CONTINUE, left_idx = 0, right_idx = 8, pivot_idx = 4,
      pivot_offset = 0\<rparr>) BSEARCH_NOTIFY_LEFT = Inr it' \<and> bs_inv it'"
  using search_is_documented [of "\<lparr>status = BSEARCH_CONTINUE, left_idx = 0, right_idx = 8, pivot_idx = 4,
      pivot_offset = 0\<rparr>" BSEARCH_NOTIFY_LEFT]
  by (auto simp: bs_inv_def index_range_ok_def)

text \<open>
  C38. The five collections are safe once they are deinitialised, whatever state they were in: they refuse what is put in with
  \<open>ERR_NO_MEM\<close> and what is taken out or looked at with \<open>ERR_EMPTY\<close>, report that they hold nothing and, the queue, the heap and
  the stack, that nothing fits, stay as they are and make no access through the pointers they still hold. A
  deinitialised publisher calls nobody, and a deinitialised search is over and stays over. The pool and the machine are
  not among them: a deinitialised pool still reports all its objects as available, and a deinitialised machine can be
  started again.
\<close>

theorem deinitialised_is_safe:
  "(\<exists>b'. circular_buffer_deinit (Some b) = Inr b' \<and> circular_buffer_safe_state b')
   \<and> (\<exists>f'. fast_circular_buffer_deinit (Some f) = Inr f' \<and> fast_circular_buffer_safe_state f')
   \<and> (\<exists>h'. bounded_heap_deinit (Some h) = Inr h' \<and> bounded_heap_sensible_values h')
   \<and> (\<exists>q'. copy_queue_deinit (Some q) = Inr q'
      \<and> copy_queue_enqueue (Some q') (Some e) = Inr (ERR_NO_MEM, q')
      \<and> copy_queue_dequeue (Some q') (Some e) = Inr (ERR_EMPTY, q', Some e)
      \<and> copy_queue_peek (Some q') (Some e) = Inr (ERR_EMPTY, Some e)
      \<and> copy_queue_get_size (Some q') = Inr 0 \<and> copy_queue_get_remaining (Some q') = Inr 0)
   \<and> (\<exists>s'. ptr_stack_deinit (Some s) = Inr s'
      \<and> ptr_stack_push (Some s') v = Inr (ERR_NO_MEM, s')
      \<and> ptr_stack_pop (Some s') (Some v) = Inr (ERR_EMPTY, s', v)
      \<and> ptr_stack_get_remaining_count (Some s') = Inr 0)
   \<and> (\<exists>pub'. static_event_publisher_deinit (Some pub) = Inr pub'
      \<and> static_event_publisher_notify_subscribers callbacks (Some pub') ev world = Inr (pub', world))
   \<and> (\<exists>it'. bsearch_iter_deinit (Some it) = Inr it'
      \<and> bsearch_iter_status (Some it') \<noteq> Inr BSEARCH_CONTINUE
      \<and> bsearch_iter_notify (Some it') nt = Inr it')"
  by (intro conjI)
     (auto simp: deinit_defs safe_state_defs call_defs notify_loop.simps bsearch_iter_notify_def bsearch_iter_status_def)

end
