(* ===== verification/Bit_Ops.thy ===== *)
theory Bit_Ops
  imports Prelude
begin

text \<open>
  The bit count of \<open>src/operations/bit_ops.c\<close>, step by step as the C code computes it on 32
  bits, and its meaning: the number of bits that are set. The proof follows the code: each
  step acts on fields of the word that do not disturb one another, so it is enough to know
  what it does to one byte.
\<close>

section \<open>Model\<close>

definition bit_ops_hamming_weight_u32 :: "uint32_t \<Rightarrow> uint32_t" where
  "bit_ops_hamming_weight_u32 i0 =
     (let i1 = i0 - (drop_bit 1 i0 AND 0x55555555);
          i2 = (i1 AND 0x33333333) + (drop_bit 2 i1 AND 0x33333333);
          i3 = (i2 + drop_bit 4 i2) AND 0x0F0F0F0F
      in drop_bit 24 (i3 * 0x01010101))"

text \<open>The number of set bits of a word.\<close>

definition popcount :: "'a::len word \<Rightarrow> nat" where
  "popcount w = length (filter (bit w) [0..<LENGTH('a)])"

section \<open>Fields that do not disturb one another\<close>

lemma and_split:
  fixes a c x y :: int
  assumes "0 \<le> a" "a < 2 ^ m" "0 \<le> c" "c < 2 ^ m"
  shows "(a + 2 ^ m * x) AND (c + 2 ^ m * y) = (a AND c) + 2 ^ m * (x AND y)"
  using assms
proof (induction m arbitrary: a c)
  case 0
  then have "a = 0" "c = 0" by simp_all
  then show ?case by simp
next
  case (Suc m)
  have half: "(a + 2 * 2 ^ m * x) div 2 = a div 2 + 2 ^ m * x" for a x :: int
    by (simp add: mult.assoc)
  have "(a + 2 ^ Suc m * x) AND (c + 2 ^ Suc m * y)
      = of_bool (odd a \<and> odd c) + 2 * ((a div 2 + 2 ^ m * x) AND (c div 2 + 2 ^ m * y))"
    using and_rec [of "a + 2 ^ Suc m * x" "c + 2 ^ Suc m * y"] by (simp add: half)
  also have "\<dots> = of_bool (odd a \<and> odd c) + 2 * ((a div 2 AND c div 2) + 2 ^ m * (x AND y))"
    using Suc by simp
  also have "\<dots> = (a AND c) + 2 ^ Suc m * (x AND y)"
    using and_rec [of a c] by (simp add: algebra_simps)
  finally show ?case .
qed

text \<open>
  A mask byte \<open>c\<close> applied to a byte and what is above it, after a shift: what the shift brings
  in from the next byte lies above the mask.
\<close>

lemma and_byte:
  fixes b c x z M :: int
  assumes "0 \<le> b" "b < 2 ^ t" "0 \<le> c" "c < 2 ^ t" "0 \<le> x" "b + 2 ^ t * x < 256" "t \<le> 8"
  shows "(b + 2 ^ t * x + 256 * z) AND (c + 256 * M) = (b AND c) + 256 * (z AND M)"
proof -
  have "(2::int) ^ t \<le> 2 ^ 8" using assms(7) by (intro power_increasing) auto
  then have "c < 2 ^ 8" using assms(4) by linarith
  then have "(b + 2 ^ t * x + 256 * z) AND (c + 256 * M)
      = ((b + 2 ^ t * x) AND c) + 256 * (z AND M)"
    using and_split [of "b + 2 ^ t * x" 8 c z M] assms by simp
  then show ?thesis using and_split [OF assms(1-4), of x 0] by simp
qed

lemma shift_field:
  fixes b q k h :: int
  assumes "256 = k * h" "k \<noteq> 0"
  shows "(b + 256 * q) div k = b div k + h * (q mod k) + 256 * (q div k)"
proof -
  have "256 * q = k * (h * (k * (q div k) + q mod k))"
    using assms(1) by simp
  also have "\<dots> = k * (h * (q mod k) + 256 * (q div k))"
    unfolding assms(1) by (simp only: algebra_simps)
  finally have "(b + 256 * q) div k = (b + k * (h * (q mod k) + 256 * (q div k))) div k" by simp
  then show ?thesis using assms(2) by simp
qed

lemmas shift_byte = shift_field [of 2 128, simplified] shift_field [of 4 64, simplified]
  shift_field [of 16 16, simplified]

lemma mask_byte:
  fixes b q c M :: int
  assumes "0 \<le> b" "b < 256"
  shows "((b + 256 * q) div 2) AND (0x55 + 256 * M) = (b div 2 AND 0x55) + 256 * (q div 2 AND M)"
    and "((b + 256 * q) div 4) AND (0x33 + 256 * M) = (b div 4 AND 0x33) + 256 * (q div 4 AND M)"
    and "(b + 256 * q) AND (0x33 + 256 * M) = (b AND 0x33) + 256 * (q AND M)"
  using assms
    and_byte [of "b div 2" 7 "0x55" "q mod 2" "q div 2" M]
    and_byte [of "b div 4" 6 "0x33" "q mod 4" "q div 4" M]
    and_byte [of b 8 "0x33" 0 q M]
  by (simp_all add: shift_byte)

section \<open>One byte\<close>

definition byte1 :: "int \<Rightarrow> int" where "byte1 b = b - (b div 2 AND 0x55)"

definition byte2 :: "int \<Rightarrow> int" where
  "byte2 b = (byte1 b AND 0x33) + (byte1 b div 4 AND 0x33)"

definition byte3 :: "int \<Rightarrow> int" where
  "byte3 b = (byte2 b + byte2 b div 16) mod 16"

definition popcount8 :: "int \<Rightarrow> int" where
  "popcount8 b = (\<Sum>k\<leftarrow>[0..<8]. b div 2 ^ k mod 2)"

text \<open>A byte has 256 values; the step functions are evaluated at every one of them.\<close>

definition byte_facts :: "int \<Rightarrow> bool" where
  "byte_facts b \<longleftrightarrow> 0 \<le> byte1 b \<and> byte1 b < 256 \<and> 0 \<le> byte2 b \<and> byte2 b \<le> 0x44
     \<and> byte2 b mod 16 \<le> 4 \<and> byte3 b = popcount8 b \<and> 0 \<le> popcount8 b \<and> popcount8 b \<le> 8"

lemma byte_facts_all: "list_all byte_facts [0..255]"
  by code_simp

lemma byte_facts_lt: "0 \<le> b \<Longrightarrow> b < 256 \<Longrightarrow> byte_facts b"
  using byte_facts_all by (simp add: list_all_iff)

section \<open>Four bytes\<close>

abbreviation word_of_bytes :: "int \<Rightarrow> int \<Rightarrow> int \<Rightarrow> int \<Rightarrow> int" where
  "word_of_bytes b0 b1 b2 b3 \<equiv> b0 + 256 * (b1 + 256 * (b2 + 256 * b3))"

lemma hamming_step1:
  assumes "0 \<le> b0" "b0 < 256" "0 \<le> b1" "b1 < 256" "0 \<le> b2" "b2 < 256" "0 \<le> b3" "b3 < 256"
  defines "n \<equiv> word_of_bytes b0 b1 b2 b3"
  shows "n - (n div 2 AND 0x55555555) = word_of_bytes (byte1 b0) (byte1 b1) (byte1 b2) (byte1 b3)"
proof -
  have "(0x55555555 :: int) = word_of_bytes 0x55 0x55 0x55 0x55" by simp
  then have "n div 2 AND 0x55555555
      = word_of_bytes (b0 div 2 AND 0x55) (b1 div 2 AND 0x55) (b2 div 2 AND 0x55) (b3 div 2 AND 0x55)"
    using assms(1-8) mask_byte(1) [of b3 0 0] unfolding n_def by (simp only: mask_byte(1))
  then show ?thesis by (simp add: n_def byte1_def)
qed

lemma hamming_step2:
  assumes "0 \<le> b0" "b0 < 256" "0 \<le> b1" "b1 < 256" "0 \<le> b2" "b2 < 256" "0 \<le> b3" "b3 < 256"
  defines "n \<equiv> word_of_bytes (byte1 b0) (byte1 b1) (byte1 b2) (byte1 b3)"
  shows "(n AND 0x33333333) + (n div 4 AND 0x33333333)
    = word_of_bytes (byte2 b0) (byte2 b1) (byte2 b2) (byte2 b3)"
proof -
  have mask: "(0x33333333 :: int) = word_of_bytes 0x33 0x33 0x33 0x33" by simp
  have lt: "0 \<le> byte1 b \<and> byte1 b < 256" if "0 \<le> b" "b < 256" for b
    using byte_facts_lt [OF that] by (simp add: byte_facts_def)
  have "n div 4 AND 0x33333333 = word_of_bytes (byte1 b0 div 4 AND 0x33) (byte1 b1 div 4 AND 0x33)
      (byte1 b2 div 4 AND 0x33) (byte1 b3 div 4 AND 0x33)"
    unfolding mask n_def using lt assms(1-8) by (simp only: mask_byte(2))
  moreover have "n AND 0x33333333 = word_of_bytes (byte1 b0 AND 0x33) (byte1 b1 AND 0x33)
      (byte1 b2 AND 0x33) (byte1 b3 AND 0x33)"
    unfolding mask n_def using lt assms(1-8) by (simp only: mask_byte(3))
  ultimately show ?thesis by (simp add: byte2_def)
qed

lemma fold_byte:
  fixes c q M :: int
  assumes "0 \<le> c" "c \<le> 0x44" "q mod 16 \<le> 4"
  shows "((c + 256 * q) + (c + 256 * q) div 16) AND (0x0F + 256 * M)
    = (c + c div 16) mod 16 + 256 * ((q + q div 16) AND M)"
proof -
  define d where "d = c + c div 16"
  have d: "0 \<le> d" "d \<le> 72" using assms(1,2) unfolding d_def by linarith+
  have eq: "(c + 256 * q) + (c + 256 * q) div 16
      = d mod 16 + 2 ^ 4 * (d div 16 + q mod 16) + 256 * (q + q div 16)"
    unfolding d_def shift_byte by simp
  have low: "d mod 16 AND 15 = d mod 16"
    using take_bit_eq_mask [of 4 "d mod 16"] by (simp add: take_bit_eq_mod mask_eq_exp_minus_1)
  have "0 \<le> d div 16 + q mod 16" using d by simp
  moreover have "d mod 16 + 2 ^ 4 * (d div 16 + q mod 16) < 256"
    using d assms(3) by (simp add: algebra_simps)
  ultimately have "(d mod 16 + 2 ^ 4 * (d div 16 + q mod 16) + 256 * (q + q div 16))
      AND (15 + 256 * M) = (d mod 16 AND 15) + 256 * ((q + q div 16) AND M)"
    by (intro and_byte) simp_all
  then show ?thesis unfolding eq low by (simp only: d_def)
qed

lemma hamming_step3:
  assumes "0 \<le> b0" "b0 < 256" "0 \<le> b1" "b1 < 256" "0 \<le> b2" "b2 < 256" "0 \<le> b3" "b3 < 256"
  defines "n \<equiv> word_of_bytes (byte2 b0) (byte2 b1) (byte2 b2) (byte2 b3)"
  shows "(n + n div 16) AND 0x0F0F0F0F
    = word_of_bytes (popcount8 b0) (popcount8 b1) (popcount8 b2) (popcount8 b3)"
proof -
  have mask: "(0x0F0F0F0F :: int) = word_of_bytes 0x0F 0x0F 0x0F 0x0F" by simp
  have facts: "0 \<le> byte2 b" "byte2 b \<le> 0x44" "byte2 b mod 16 \<le> 4"
      "(byte2 b + byte2 b div 16) mod 16 = popcount8 b" if "0 \<le> b" "b < 256" for b
    using byte_facts_lt [OF that] by (simp_all add: byte_facts_def byte3_def)
  have low: "(a + 256 * q) mod 16 \<le> 4 \<longleftrightarrow> a mod 16 \<le> 4" for a q :: int
    using mod_mult_self2 [of a 16 "16 * q"] by simp
  have top: "(byte2 b3 + byte2 b3 div 16) AND 0x0F = popcount8 b3"
    using fold_byte [of "byte2 b3" 0 0] facts [OF assms(7,8)] by simp
  show ?thesis
    unfolding mask n_def
    by (simp only: fold_byte low facts assms(1-8) top)
qed

lemma hamming_step4:
  fixes g0 g1 g2 g3 :: int
  assumes "0 \<le> g0" "g0 \<le> 8" "0 \<le> g1" "g1 \<le> 8" "0 \<le> g2" "g2 \<le> 8" "0 \<le> g3" "g3 \<le> 8"
  shows "word_of_bytes g0 g1 g2 g3 * 0x01010101 mod 2 ^ 32 div 2 ^ 24 = g0 + g1 + g2 + g3"
proof -
  define lo where "lo = g0 + 256 * (g0 + g1) + 65536 * (g0 + g1 + g2)"
  define mid where "mid = lo + 2 ^ 24 * (g0 + g1 + g2 + g3)"
  have "word_of_bytes g0 g1 g2 g3 * 0x01010101
      = mid + 2 ^ 32 * (g1 + g2 + g3 + 256 * (g2 + g3) + 65536 * g3)"
    unfolding mid_def lo_def by (simp add: algebra_simps)
  moreover have "0 \<le> lo" "lo < 2 ^ 24" "0 \<le> mid" "mid < 2 ^ 32"
    unfolding mid_def lo_def using assms by simp_all
  ultimately have "word_of_bytes g0 g1 g2 g3 * 0x01010101 mod 2 ^ 32 = mid"
    by (simp only: mod_mult_self2 mod_pos_pos_trivial)
  then show ?thesis using \<open>0 \<le> lo\<close> \<open>lo < 2 ^ 24\<close> unfolding mid_def by simp
qed

section \<open>The word\<close>

lemma int_filter_bits:
  "int (length (filter P xs)) = (\<Sum>k\<leftarrow>xs. of_bool (P k))"
  by (induction xs) auto

lemma byte_bit:
  fixes n :: int
  assumes "k < 8"
  shows "n div 2 ^ m mod 256 div 2 ^ k mod 2 = n div 2 ^ (m + k) mod 2"
proof -
  have "n div 2 ^ m mod 256 div 2 ^ k mod 2 = take_bit 1 (drop_bit k (take_bit 8 (drop_bit m n)))"
    by (simp add: take_bit_eq_mod drop_bit_eq_div)
  also have "\<dots> = take_bit 1 (drop_bit (m + k) n)"
    using assms by (simp add: drop_bit_take_bit add.commute)
  finally show ?thesis by (simp add: take_bit_eq_mod drop_bit_eq_div)
qed

lemma popcount8_at: "popcount8 (n div 2 ^ m mod 256) = (\<Sum>k\<leftarrow>[0..<8]. n div 2 ^ (m + k) mod 2)"
  unfolding popcount8_def by (intro arg_cong [of _ _ sum_list] map_cong) (simp_all add: byte_bit)

lemma popcount_bytes:
  fixes w :: uint32_t
  defines "n \<equiv> uint w"
  shows "int (popcount w) = popcount8 (n mod 256) + popcount8 (n div 2 ^ 8 mod 256)
    + popcount8 (n div 2 ^ 16 mod 256) + popcount8 (n div 2 ^ 24 mod 256)"
proof -
  have bit: "of_bool (bit w k) = n div 2 ^ k mod 2" for k
  proof -
    have "bit w k \<longleftrightarrow> bit n k" 
      using bit_imp_le_length [of w k] by (auto simp: n_def bit_uint_iff)
    then show ?thesis by (simp add: bit_iff_odd mod_2_eq_odd)
  qed
  have "int (popcount w) = (\<Sum>k\<leftarrow>[0..<32]. n div 2 ^ k mod 2)"
    by (simp add: popcount_def int_filter_bits bit)
  also have "[0..<32] = [0..<8] @ map ((+) 8) [0..<8] @ map ((+) 16) [0..<8] @ map ((+) 24) [0..<8]"
    by code_simp
  finally have "int (popcount w) = popcount8 (n div 2 ^ 0 mod 256) + popcount8 (n div 2 ^ 8 mod 256)
      + popcount8 (n div 2 ^ 16 mod 256) + popcount8 (n div 2 ^ 24 mod 256)"
    unfolding popcount8_at by (simp add: comp_def)
  then show ?thesis by simp
qed

lemma uint32_and: "uint (a AND b :: uint32_t) = uint a AND uint b"
  by (simp add: unsigned_and_eq)

lemma uint32_shift: "uint (drop_bit k a :: uint32_t) = uint a div 2 ^ k"
  unfolding unsigned_drop_bit_eq
  by (simp add: drop_bit_eq_div take_bit_int_eq_self uint_lt2p [of a, simplified])

lemmas uint32_steps = uint32_and uint32_shift uint_word_ariths

lemma word_of_bytes_lt:
  assumes "0 \<le> b0" "b0 < 256" "0 \<le> b1" "b1 < 256" "0 \<le> b2" "b2 < 256" "0 \<le> b3" "b3 < 256"
  shows "word_of_bytes b0 b1 b2 b3 mod 2 ^ 32 = word_of_bytes b0 b1 b2 b3"
  using assms by (intro mod_pos_pos_trivial) auto

lemma hamming_weight_bytes:
  fixes w :: uint32_t
  assumes b: "0 \<le> b0" "b0 < 256" "0 \<le> b1" "b1 < 256" "0 \<le> b2" "b2 < 256" "0 \<le> b3" "b3 < 256"
    and w: "uint w = word_of_bytes b0 b1 b2 b3"
  shows "uint (bit_ops_hamming_weight_u32 w)
    = popcount8 b0 + popcount8 b1 + popcount8 b2 + popcount8 b3"
proof -
  have f: "byte_facts b0" "byte_facts b1" "byte_facts b2" "byte_facts b3"
    using b by (simp_all add: byte_facts_lt)
  define i1 where "i1 = w - (drop_bit 1 w AND 0x55555555)"
  have i1: "uint i1 = word_of_bytes (byte1 b0) (byte1 b1) (byte1 b2) (byte1 b3)"
    using hamming_step1 [OF b] f word_of_bytes_lt [of "byte1 b0" "byte1 b1" "byte1 b2" "byte1 b3"]
    by (simp add: i1_def uint32_steps w byte_facts_def)
  define i2 where "i2 = (i1 AND 0x33333333) + (drop_bit 2 i1 AND 0x33333333)"
  have i2: "uint i2 = word_of_bytes (byte2 b0) (byte2 b1) (byte2 b2) (byte2 b3)"
    using hamming_step2 [OF b] f word_of_bytes_lt [of "byte2 b0" "byte2 b1" "byte2 b2" "byte2 b3"]
    by (simp add: i2_def uint32_steps i1 byte_facts_def)
  define i3 where "i3 = (i2 + drop_bit 4 i2) AND 0x0F0F0F0F"
  have i3: "uint i3 = word_of_bytes (popcount8 b0) (popcount8 b1) (popcount8 b2) (popcount8 b3)"
  proof -
    have "0 \<le> uint i2" "uint i2 \<le> 0x44444444"
      using f by (simp_all add: i2 byte_facts_def)
    then have "(uint i2 + uint i2 div 16) mod 2 ^ 32 = uint i2 + uint i2 div 16"
      by (intro mod_pos_pos_trivial) (linarith, simp)
    then show ?thesis
      using hamming_step3 [OF b, folded i2] by (simp add: i3_def uint32_steps)
  qed
  show ?thesis
    using hamming_step4 [of "popcount8 b0" "popcount8 b1" "popcount8 b2" "popcount8 b3"] f
    unfolding bit_ops_hamming_weight_u32_def Let_def i1_def [symmetric] i2_def [symmetric]
      i3_def [symmetric]
    by (simp add: uint32_steps i3 byte_facts_def)
qed

lemma byte_above: "m mod 256 + 256 * (m div 256) = (m :: int)"
  by simp

text \<open>The code counts the set bits of every 32-bit word.\<close>

lemma hamming_weight_popcount: "unat (bit_ops_hamming_weight_u32 w) = popcount w"
proof -
  define n where "n = uint w"
  have n: "0 \<le> n" "n < 2 ^ 32" using uint_lt2p [of w] by (simp_all add: n_def)
  have bytes: "n = word_of_bytes (n mod 256) (n div 2 ^ 8 mod 256) (n div 2 ^ 16 mod 256)
      (n div 2 ^ 24 mod 256)"
  proof -
    have "n div 2 ^ 16 = n div 2 ^ 8 div 256" "n div 2 ^ 24 = n div 2 ^ 16 div 256"
      by (simp_all flip: zdiv_zmult2_eq)
    moreover have "n div 2 ^ 8 = n div 256" "n div 2 ^ 24 mod 256 = n div 2 ^ 24" using n by simp_all
    ultimately show ?thesis by (simp only: byte_above)
  qed
  have "uint (bit_ops_hamming_weight_u32 w) = int (popcount w)"
    unfolding popcount_bytes
    by (rule hamming_weight_bytes [OF _ _ _ _ _ _ _ _ bytes [unfolded n_def]]) simp_all
  then show ?thesis by (metis nat_int unat_eq_nat_uint)
qed

section \<open>Properties\<close>

text \<open>
  What \<open>include/cemb/bit_ops.h\<close> documents, the number of bits that are 1, with its example.
\<close>

definition bit_ops_hamming_weight_u32_returns :: "uint32_t \<Rightarrow> nat" where
  "bit_ops_hamming_weight_u32_returns i = length (filter (bit i) [0..<32])"

lemma hamming_weight_example: "bit_ops_hamming_weight_u32_returns 0b11100 = 3"
  by (simp add: bit_ops_hamming_weight_u32_returns_def upt_rec)

text \<open>
  C32. For every 32-bit word the shift-and-add computation returns the number of its set bits, as documented.
\<close>

theorem hamming_weight_correct:
  "unat (bit_ops_hamming_weight_u32 w) = bit_ops_hamming_weight_u32_returns w"
  using hamming_weight_popcount [of w] by (simp add: popcount_def bit_ops_hamming_weight_u32_returns_def)

end
