(* ===== verification/Fsm_Brackets.thy ===== *)
theory Fsm_Brackets
  imports Simple_Fsm_Runs
begin

text \<open>
  The order of the handler calls. The comment at the top of \<open>include/cemb/simple_fsm.h\<close> promises that the entry
  and exit handlers are always called: a state is entered before it handles events, and left before another is
  entered. A monitor of the calls says what that means; the calls that a history of \<open>src/simple_fsm/simple_fsm.c\<close>
  makes are accepted by it, except after the two kinds of failure shown at the end.
\<close>

section \<open>Calls and their order\<close>

datatype fsm_call = Entry size_t | Event ptr size_t | Exit size_t

text \<open>What a call does to the rest of the application, when the machine \<open>m\<close> makes it.\<close>

fun perform :: "'w handlers \<Rightarrow> SimpleFSM \<Rightarrow> fsm_call \<Rightarrow> 'w \<Rightarrow> 'w" where
  "perform app m (Entry s) w = snd (entry_of app m s w)"
| "perform app m (Event ev s) w = snd (event_of app m ev s w)"
| "perform app m (Exit s) w = snd (exit_of app m s w)"

text \<open>
  The documented order. The monitor knows the state that has been entered and not been left, if there is one;
  it has no successor for a call that is out of order.
\<close>

fun call_order :: "size_t option \<Rightarrow> fsm_call \<Rightarrow> size_t option option" where
  "call_order None (Entry s) = Some (Some s)"
| "call_order (Some s) (Event ev t) = (if t = s then Some (Some s) else None)"
| "call_order (Some s) (Exit t) = (if t = s then Some None else None)"
| "call_order _ _ = None"

fun calls_in_order :: "size_t option \<Rightarrow> fsm_call list \<Rightarrow> size_t option option" where
  "calls_in_order m [] = Some m"
| "calls_in_order m (c # cs) = Option.bind (call_order m c) (\<lambda>m'. calls_in_order m' cs)"

lemma calls_in_order_append [simp]:
  "calls_in_order m (cs @ ds) = Option.bind (calls_in_order m cs) (\<lambda>m'. calls_in_order m' ds)"
  by (induction cs arbitrary: m) (auto split: Option.bind_split)

text \<open>The events that were handled.\<close>

fun delivered :: "fsm_call list \<Rightarrow> ptr list" where
  "delivered [] = []"
| "delivered (Event ev s # cs) = ev # delivered cs"
| "delivered (_ # cs) = delivered cs"

lemma delivered_append [simp]: "delivered (cs @ ds) = delivered cs @ delivered ds"
  by (induction cs rule: delivered.induct) auto

text \<open>
  The state that \<open>simple_fsm_get_current_state\<close> is documented to return: the state entered last, whether the machine
  is running or not; \<open>s\<close> is the state at the beginning.
\<close>

fun simple_fsm_get_current_state_returns :: "size_t \<Rightarrow> fsm_call list \<Rightarrow> size_t" where
  "simple_fsm_get_current_state_returns s [] = s"
| "simple_fsm_get_current_state_returns s (Entry t # cs) = simple_fsm_get_current_state_returns t cs"
| "simple_fsm_get_current_state_returns s (_ # cs) = simple_fsm_get_current_state_returns s cs"

lemma last_entered_append [simp]:
  "simple_fsm_get_current_state_returns s (cs @ ds)
    = simple_fsm_get_current_state_returns (simple_fsm_get_current_state_returns s cs) ds"
  by (induction s cs rule: simple_fsm_get_current_state_returns.induct) auto

section \<open>Histories\<close>

fun fsm_history ::
    "'w handlers \<Rightarrow> fsm_op list \<Rightarrow> SimpleFSM \<times> 'w \<Rightarrow> (ErrorCodes list \<times> SimpleFSM \<times> 'w) result" where
  "fsm_history app [] s = Inr ([], s)"
| "fsm_history app (op # ops) s =
     r_bind (fsm_apply app op s) (\<lambda>(e, s').
     r_bind (fsm_history app ops s') (\<lambda>(es, s''). Inr (e # es, s'')))"

text \<open>
  Histories without a failure that disturbs the order: no deinitialisation, which the header says calls no exit
  handler, no start that ran into the limit on transitions, no event that ended outside the machine.
\<close>

fun orderly :: "fsm_op \<Rightarrow> ErrorCodes \<Rightarrow> bool" where
  "orderly Op_start e \<longleftrightarrow> e \<noteq> ERR_TIMEOUT"
| "orderly (Op_event ev) e \<longleftrightarrow> e \<noteq> ERR_OUT_OF_BOUNDS"
| "orderly Op_force_stop e \<longleftrightarrow> True"
| "orderly Op_deinit e \<longleftrightarrow> False"

fun accepted :: "fsm_op \<Rightarrow> ErrorCodes \<Rightarrow> ptr list" where
  "accepted (Op_event ev) e = (if e = ERR_NOT_INITIALISED then [] else [ev])"
| "accepted _ e = []"

text \<open>The state that a machine is in, if it runs, and the machine as its handlers find it.\<close>

definition inside :: "SimpleFSM \<Rightarrow> size_t option" where
  "inside f = (if started f then Some (state f) else None)"

definition running :: "SimpleFSM \<Rightarrow> SimpleFSM" where
  "running f = f\<lparr>started := True, state := 0\<rparr>"

lemma running_updates [simp]:
  "running (f\<lparr>state := s\<rparr>) = running f" "running (f\<lparr>started := b\<rparr>) = running f"
  by (simp_all add: running_def)

lemma behaviour_running:
  assumes "started f"
  shows "exit_of app (running f) = exit_of app f" "entry_of app (running f) = entry_of app f"
    "event_of app (running f) = event_of app f"
proof -
  have "f\<lparr>started := True\<rparr> = f" using assms by simp
  then show "exit_of app (running f) = exit_of app f" "entry_of app (running f) = entry_of app f"
      "event_of app (running f) = event_of app f"
    by (simp_all add: running_def exit_of_def entry_of_def event_of_def delegate_def fun_eq_iff)
qed

section \<open>The calls of one operation\<close>

text \<open>
  A run of the transition loop that starts inside a state ends inside the state it reports, or, when it is sent
  out of bounds, outside every state.
\<close>

lemma spec_run_calls:
  assumes "spec_run (exit_of app m) (entry_of app m) states n req s w = (e, s', w')"
  shows "\<exists>calls. fold (perform app m) calls w = w' \<and> delivered calls = []
    \<and> simple_fsm_get_current_state_returns s calls = s'
    \<and> calls_in_order (Some s) calls = Some (if e = ERR_OUT_OF_BOUNDS then None else Some s')"
  using assms
proof (induction n arbitrary: req s w)
  case 0
  then show ?case by (intro exI [of _ "[]"]) simp
next
  case (Suc n)
  define w1 where "w1 = snd (exit_of app m s w)"
  define t where "t = (if fst (exit_of app m s w) = s then req else fst (exit_of app m s w))"
  consider "req = s" | "req \<noteq> s" "states \<le> t" | "req \<noteq> s" "\<not> states \<le> t" by blast
  then show ?case
  proof cases
    case 1
    then show ?thesis using Suc.prems by (intro exI [of _ "[]"]) simp
  next
    case 2
    then have "e = ERR_OUT_OF_BOUNDS" "w' = w1" "s' = s"
      using Suc.prems by (auto simp: case_prod_beta Let_def t_def w1_def split: if_splits)
    then show ?thesis by (intro exI [of _ "[Exit s]"]) (simp add: w1_def)
  next
    case 3
    then have "spec_run (exit_of app m) (entry_of app m) states n (fst (entry_of app m t w1)) t
        (snd (entry_of app m t w1)) = (e, s', w')"
      using Suc.prems by (simp add: case_prod_beta Let_def t_def w1_def)
    then obtain calls where "fold (perform app m) calls (snd (entry_of app m t w1)) = w'"
        "delivered calls = []" "simple_fsm_get_current_state_returns t calls = s'"
        "calls_in_order (Some t) calls = Some (if e = ERR_OUT_OF_BOUNDS then None else Some s')"
      using Suc.IH by blast
    then show ?thesis by (intro exI [of _ "Exit s # Entry t # calls"]) (simp add: w1_def)
  qed
qed

lemma spec_run_codes:
  "spec_run ex en states n req s w = (e, s', w') \<Longrightarrow> e \<in> {ERR_NONE, ERR_TIMEOUT, ERR_OUT_OF_BOUNDS}"
  using spec_run_path by fastforce

lemma resolve_calls:
  assumes "leaves_fsm app" "fsm_inv f" "started f"
  shows "\<exists>e s w' calls. simple_fsm_resolve_transitions app f req w = Inr (e, f\<lparr>state := s\<rparr>, w')
    \<and> e \<in> {ERR_NONE, ERR_TIMEOUT, ERR_OUT_OF_BOUNDS}
    \<and> fold (perform app (running f)) calls w = w' \<and> delivered calls = []
    \<and> simple_fsm_get_current_state_returns (state f) calls = s
    \<and> calls_in_order (Some (state f)) calls = Some (if e = ERR_OUT_OF_BOUNDS then None else Some s)"
proof -
  obtain e s w' where run: "spec_run (exit_of app f) (entry_of app f) (state_count (config f))
      (unat (max_transition_count (config f))) req (state f) w = (e, s, w')"
    by (metis prod_cases3)
  then have "simple_fsm_resolve_transitions app f req w = Inr (e, f\<lparr>state := s\<rparr>, w')"
    using resolve_transitions_spec [OF assms(1,2)] by simp
  moreover obtain calls where "fold (perform app (running f)) calls w = w'" "delivered calls = []"
      "simple_fsm_get_current_state_returns (state f) calls = s"
      "calls_in_order (Some (state f)) calls = Some (if e = ERR_OUT_OF_BOUNDS then None else Some s)"
    using spec_run_calls [of app "running f"] run behaviour_running [OF assms(3), of app] by metis
  ultimately show ?thesis using spec_run_codes [OF run] by blast
qed

text \<open>What an operation does to the order: the calls it makes, their effect and the events among them.\<close>

definition makes_calls ::
    "'w handlers \<Rightarrow> fsm_op list \<Rightarrow> ErrorCodes list \<Rightarrow> SimpleFSM \<times> 'w \<Rightarrow> SimpleFSM \<times> 'w \<Rightarrow> bool" where
  "makes_calls app ops es s s' \<longleftrightarrow> (\<exists>calls.
     fold (perform app (running (fst s))) calls (snd s) = snd s'
     \<and> calls_in_order (inside (fst s)) calls = Some (inside (fst s'))
     \<and> simple_fsm_get_current_state_returns (state (fst s)) calls = state (fst s')
     \<and> delivered calls = concat (map2 accepted ops es))"

lemma makes_callsI:
  assumes "fold (perform app (running f)) calls w = w'" "calls_in_order (inside f) calls = Some (inside g)"
    and "simple_fsm_get_current_state_returns (state f) calls = state g"
    and "delivered calls = concat (map2 accepted ops es)"
  shows "makes_calls app ops es (f, w) (g, w')"
  using assms by (auto simp: makes_calls_def)

lemma start_run:
  assumes "leaves_fsm app" "fsm_inv f" "\<not> started f" "simple_fsm_start app (Some f) w = Inr (e, g, w')"
  shows "\<exists>calls. fold (perform app (running f)) calls w = w' \<and> delivered calls = []
    \<and> simple_fsm_get_current_state_returns (state f) calls = state g
    \<and> calls_in_order None calls = Some (if e = ERR_OUT_OF_BOUNDS then None else Some (state g))
    \<and> e \<in> {ERR_NONE, ERR_TIMEOUT, ERR_OUT_OF_BOUNDS} \<and> started g = (e = ERR_NONE) \<and> running g = running f"
proof -
  define i where "i = initial_state (config f)"
  define h where "h = f\<lparr>started := True, state := i\<rparr>"
  have h: "fsm_inv h" "started h" "state h = i" "running h = running f"
    using assms(2) by (simp_all add: h_def i_def fsm_inv_def fsm_config_ok_def)
  obtain e' s v calls where run: "simple_fsm_resolve_transitions app h (fst (entry_of app h i w))
        (snd (entry_of app h i w)) = Inr (e', h\<lparr>state := s\<rparr>, v)"
      "fold (perform app (running h)) calls (snd (entry_of app h i w)) = v" "delivered calls = []"
      "simple_fsm_get_current_state_returns (state h) calls = s"
      "calls_in_order (Some (state h)) calls = Some (if e' = ERR_OUT_OF_BOUNDS then None else Some s)"
      "e' \<in> {ERR_NONE, ERR_TIMEOUT, ERR_OUT_OF_BOUNDS}"
    using resolve_calls [OF assms(1) h(1,2)] by blast
  have "e = e'" "w' = v" "g = (if e' = ERR_NONE then h\<lparr>state := s\<rparr> else h\<lparr>state := s, started := False\<rparr>)"
    using start_eq [OF assms(1-3), of w] run(1) assms(4) by (auto simp: h_def i_def)
  then show ?thesis
    using h run by (intro exI [of _ "Entry i # calls"]) (auto simp: behaviour_running(2) [OF h(2), unfolded h(4)])
qed

lemma start_calls:
  assumes "leaves_fsm app" "fsm_inv f" "simple_fsm_start app (Some f) w = Inr (e, g, w')" "e \<noteq> ERR_TIMEOUT"
  shows "makes_calls app [Op_start] [e] (f, w) (g, w') \<and> running g = running f"
proof (cases "started f")
  case True
  then show ?thesis
    using assms(3) by (auto simp: simple_fsm_start_def intro: makes_callsI [of _ _ "[]"])
next
  case False
  then show ?thesis
    using start_run [OF assms(1,2) False assms(3)] assms(4)
    by (auto simp: inside_def intro!: makes_callsI)
qed

lemma event_calls:
  assumes "leaves_fsm app" "fsm_inv f" "simple_fsm_on_event app (Some f) ev w = Inr (e, g, w')"
    and "e \<noteq> ERR_OUT_OF_BOUNDS"
  shows "makes_calls app [Op_event ev] [e] (f, w) (g, w') \<and> running g = running f"
proof (cases "started f")
  case False
  then show ?thesis
    using assms(3) by (auto simp: simple_fsm_on_event_def intro: makes_callsI [of _ _ "[]"])
next
  case True
  let ?req = "fst (event_of app f ev (state f) w)" and ?w = "snd (event_of app f ev (state f) w)"
  obtain e' s v calls where run: "simple_fsm_resolve_transitions app f ?req ?w = Inr (e', f\<lparr>state := s\<rparr>, v)"
      "e' \<in> {ERR_NONE, ERR_TIMEOUT, ERR_OUT_OF_BOUNDS}"
      "fold (perform app (running f)) calls ?w = v" "delivered calls = []"
      "simple_fsm_get_current_state_returns (state f) calls = s"
      "calls_in_order (Some (state f)) calls = Some (if e' = ERR_OUT_OF_BOUNDS then None else Some s)"
    using resolve_calls [OF assms(1,2) True] by blast
  then have res: "e' = e" "g = f\<lparr>state := s\<rparr>" "w' = v" "e \<noteq> ERR_NOT_INITIALISED"
    using on_event_eq [OF assms(1,2) True, of ev w] assms(3) by auto
  have "makes_calls app [Op_event ev] [e] (f, w) (g, w')"
    by (rule makes_callsI [of _ _ "Event ev (state f) # calls"])
       (use True run(3-6) res assms(4) in \<open>simp_all add: inside_def behaviour_running\<close>)
  then show ?thesis using res(2) by simp
qed

lemma force_stop_calls:
  assumes "leaves_fsm app" "fsm_inv f" "simple_fsm_force_stop app (Some f) w = Inr (e, g, w')"
  shows "makes_calls app [Op_force_stop] [e] (f, w) (g, w') \<and> running g = running f"
proof (cases "started f")
  case False
  then show ?thesis
    using assms(3) by (auto simp: simple_fsm_force_stop_def intro: makes_callsI [of _ _ "[]"])
next
  case True
  have "makes_calls app [Op_force_stop] [e] (f, w) (g, w')"
    by (rule makes_callsI [of _ _ "[Exit (state f)]"])
       (use True assms(3) force_stop_eq [OF assms(1,2) True, of w] in
        \<open>auto simp: inside_def behaviour_running\<close>)
  then show ?thesis using force_stop_eq [OF assms(1,2) True, of w] assms(3) by auto
qed

lemma fsm_apply_calls:
  assumes "leaves_fsm app" "fsm_inv f" "fsm_apply app op (f, w) = Inr (e, g, w')" "orderly op e"
  shows "makes_calls app [op] [e] (f, w) (g, w') \<and> running g = running f"
  using assms by (cases op) (simp_all add: start_calls event_calls force_stop_calls)

lemma makes_calls_trans:
  assumes "makes_calls app [op] [e] s s'" "makes_calls app ops es s' s''"
    and "running (fst s') = running (fst s)"
  shows "makes_calls app (op # ops) (e # es) s s''"
proof -
  obtain cs ds where "fold (perform app (running (fst s))) cs (snd s) = snd s'"
      "calls_in_order (inside (fst s)) cs = Some (inside (fst s'))" "delivered cs = accepted op e"
      "simple_fsm_get_current_state_returns (state (fst s)) cs = state (fst s')"
      "simple_fsm_get_current_state_returns (state (fst s')) ds = state (fst s'')"
      "fold (perform app (running (fst s))) ds (snd s') = snd s''"
      "calls_in_order (inside (fst s')) ds = Some (inside (fst s''))" "delivered ds = concat (map2 accepted ops es)"
    using assms by (auto simp: makes_calls_def)
  then show ?thesis unfolding makes_calls_def by (intro exI [of _ "cs @ ds"]) simp
qed

lemma fsm_history_calls:
  assumes "leaves_fsm app"
  shows "fsm_inv f \<Longrightarrow> \<exists>es g w'. fsm_history app ops (f, w) = Inr (es, g, w') \<and> length es = length ops
    \<and> fsm_inv g \<and> (list_all2 orderly ops es \<longrightarrow> makes_calls app ops es (f, w) (g, w'))"
proof (induction ops arbitrary: f w)
  case Nil
  then show ?case by (auto intro: makes_callsI [of _ _ "[]"])
next
  case (Cons op ops)
  obtain e g w1 where op: "fsm_apply app op (f, w) = Inr (e, g, w1)" "fsm_inv g"
    using fsm_apply_safe [OF assms Cons.prems] by metis
  obtain es h w2 where rest: "fsm_history app ops (g, w1) = Inr (es, h, w2)" "length es = length ops" "fsm_inv h"
      "list_all2 orderly ops es \<longrightarrow> makes_calls app ops es (g, w1) (h, w2)"
    using Cons.IH [OF op(2)] by metis
  then show ?case
    using op fsm_apply_calls [OF assms Cons.prems op(1)] by (auto intro: makes_calls_trans)
qed

section \<open>Properties\<close>

text \<open>
  C9. After a successful initialisation, every history of starts, events, stops and deinitialisations ends without a
  fault. When no start in it ran into the limit, no event was sent outside the machine and it was not
  deinitialised, its effect is that of a sequence of handler calls in the documented order: a state is entered only
  when no other is, handles events and is left only while it is the one entered, at the end exactly the
  current state of a running machine is entered, and the events handled are the events accepted, in order. The
  current state that the machine reports is the state entered last, also when it has been stopped.
\<close>

theorem fsm_calls_in_documented_order:
  assumes "leaves_fsm app" and "state_delegates c = Some ds" and "unat (state_count c) \<le> length ds"
    and "simple_fsm_init (Some f0) (Some c) = Inr (ERR_NONE, f)"
  shows "\<exists>es g w'. fsm_history app ops (f, w) = Inr (es, g, w') \<and> length es = length ops
    \<and> (list_all2 orderly ops es \<longrightarrow> (\<exists>calls. fold (perform app (running f)) calls w = w'
         \<and> calls_in_order None calls = Some (if started g then Some (state g) else None)
         \<and> delivered calls = concat (map2 accepted ops es)
         \<and> simple_fsm_get_current_state (Some g)
             = Inr (simple_fsm_get_current_state_returns (initial_state c) calls)))"
proof -
  have f: "fsm_inv f" "inside f = None" "state f = initial_state c"
    using init_inv [OF assms(2-4)] by (auto simp: inside_def)
  obtain es g w' where "fsm_history app ops (f, w) = Inr (es, g, w')" "length es = length ops"
      "list_all2 orderly ops es \<longrightarrow> makes_calls app ops es (f, w) (g, w')"
    using fsm_history_calls [OF assms(1) f(1)] by blast
  then show ?thesis
    using f(2,3) by (auto simp: makes_calls_def inside_def simple_fsm_get_current_state_def)
qed

lemma two_states_init:
  "simple_fsm_init (Some (two_state_fsm n b)) (Some (two_states 5)) = Inr (ERR_NONE, two_state_fsm 5 False)"
  by (simp add: simple_fsm_init_def simple_fsm_validate_config_def two_state_fsm_def two_states_def
      for_each.simps [of 0] for_each.simps [of 1] for_each.simps [of 2] arr_get_def)

theorem fsm_calls_in_documented_order_witness:
  "\<exists>calls. fold (perform echo_app (running (two_state_fsm 5 False))) calls [] = [1, 2, 3, 4, 6]
    \<and> calls_in_order None calls = Some None \<and> delivered calls = [1]"
proof -
  let ?f = "two_state_fsm 5 False" and ?ops = "[Op_start, Op_event 1, Op_force_stop]"
  have run: "fsm_history echo_app ?ops (?f, [])
      = Inr ([ERR_NONE, ERR_NONE, ERR_NONE], ?f\<lparr>state := 1\<rparr>, [1, 2, 3, 4, 6])"
    by (simp add: simple_fsm_start_def simple_fsm_on_event_def simple_fsm_force_stop_def call_entry_exit_def
        call_event_def simple_fsm_resolve_transitions_def resolve_loop.simps arr_get_def two_state_simps Let_def
        word_le_nat_alt)
  show ?thesis
    using fsm_calls_in_documented_order [OF echo_leaves _ _ two_states_init, of _ ?ops "[]"]
    unfolding run by (simp add: two_state_fsm_def two_states_def) blast
qed

text \<open>
  When the event handler of a state asks for a state outside the machine, the exit handler runs and
  \<open>ERR_OUT_OF_BOUNDS\<close> is returned, but the machine goes on running in the state it has left: an event is handled in
  a state that is not entered, and stopping the machine runs the same exit handler again, so that the calls are
  not in the documented order.
\<close>

theorem fsm_leaves_state_twice:
  assumes "leaves_fsm app" and "fsm_inv f" and "started f"
    and "event_of app f ev (state f) w = (t, w0)" and "state_count (config f) \<le> t"
    and "exit_of app f (state f) w0 = (state f, w1)"
  shows "simple_fsm_on_event app (Some f) ev w = Inr (ERR_OUT_OF_BOUNDS, f, w1)
    \<and> w1 = fold (perform app (running f)) [Event ev (state f), Exit (state f)] w
    \<and> (\<exists>e. simple_fsm_force_stop app (Some f) w1
         = Inr (e, f\<lparr>started := False\<rparr>, perform app (running f) (Exit (state f)) w1))
    \<and> calls_in_order (Some (state f)) ([Event ev (state f), Exit (state f)] @ [Exit (state f)]) = None"
proof -
  have "0 < unat (max_transition_count (config f))" "t \<noteq> state f"
    using assms(2,5) by (auto simp: fsm_inv_def fsm_config_ok_def unat_gt_0)
  then show ?thesis
    using assms(4-6) on_event_eq [OF assms(1-3), of ev w] force_stop_eq [OF assms(1-3), of w1]
      resolve_transitions_spec [OF assms(1,2), of t w0]
    by (auto simp: gr0_conv_Suc behaviour_running [OF assms(3)])
qed

theorem fsm_leaves_state_twice_witness:
  "simple_fsm_on_event echo_app (Some (two_state_fsm 5 True)) 7 [] = Inr (ERR_OUT_OF_BOUNDS, two_state_fsm 5 True, [2, 3])
    \<and> (\<exists>e. simple_fsm_force_stop echo_app (Some (two_state_fsm 5 True)) [2, 3]
         = Inr (e, (two_state_fsm 5 True)\<lparr>started := False\<rparr>, [2, 3, 3]))"
  using fsm_leaves_state_twice [OF echo_leaves two_state_inv [of 5 True], of 7 "[]" 7 "[2]" "[2, 3]"]
  by (simp add: two_state_simps Let_def running_def word_le_nat_alt)

text \<open>
  A start that reports \<open>ERR_TIMEOUT\<close> leaves a state entered and the machine stopped: a stop is then refused, and
  the exit handler of that state is not called.
\<close>

theorem fsm_failed_start_stays_entered:
  assumes "leaves_fsm app" and "fsm_inv f" and "\<not> started f"
    and "simple_fsm_start app (Some f) w = Inr (ERR_TIMEOUT, g, w')"
  shows "simple_fsm_force_stop app (Some g) w' = Inr (ERR_NOOP, g, w')
    \<and> (\<exists>calls. fold (perform app (running f)) calls w = w' \<and> calls_in_order None calls = Some (Some (state g)))"
  using start_run [OF assms] by (auto simp: simple_fsm_force_stop_def)

end
