(* ===== verification/Unit_Tests.thy ===== *)
theory Unit_Tests
  imports Fsm_Brackets Bounded_Heap Bsearch_Iter
begin

text \<open>
  The model against the tests of the repository, \<open>tests/test_bsearch_iter.c\<close>, \<open>tests/test_simple_fsm.c\<close> and
  \<open>tests/test_bounded_heap.c\<close>: the helpers and mocks of the tests as definitions, a failing assertion being a fault, and
  the tests as lemmas that are evaluated. What the helper of the search tests asserts is then shown for all arrays.
\<close>

section \<open>Searching\<close>

text \<open>
  The loop of \<open>_odd_even_help_tester\<close> and \<open>_not_found_help_tester\<close>, which gives up after 33 rounds; the number is that
  of the rounds that are left, so the tests' \<open>itercount <= 32\<close> says that it is not 0.
\<close>

definition test_answer :: "int list \<Rightarrow> int \<Rightarrow> int \<Rightarrow> int \<Rightarrow> BsearchNotification" where
  "test_answer nums number_to_find corruption_flag check_idx =
     (if nums ! nat check_idx = corruption_flag then BSEARCH_NOTIFY_ERR_SKIP
      else if nums ! nat check_idx = number_to_find then BSEARCH_NOTIFY_EQ
      else if nums ! nat check_idx > number_to_find then BSEARCH_NOTIFY_LEFT
      else BSEARCH_NOTIFY_RIGHT)"

fun help_tester_loop ::
    "nat \<Rightarrow> int list \<Rightarrow> int \<Rightarrow> int \<Rightarrow> BsearchIterator \<Rightarrow> (nat \<times> BsearchIterator) result" where
  "help_tester_loop 0 nums x flag it = Inr (0, it)"
| "help_tester_loop (Suc rounds) nums x flag it =
     r_bind (bsearch_iter_status (Some it)) (\<lambda>st.
       if st \<noteq> BSEARCH_CONTINUE then Inr (Suc rounds, it)
       else
         r_bind (bsearch_iter_get_check_index (Some it)) (\<lambda>check_idx.
         r_bind (r_assert (0 \<le> check_idx \<and> check_idx \<le> int (length nums) - 1)) (\<lambda>_.
         r_bind (bsearch_iter_notify (Some it) (test_answer nums x flag check_idx)) (\<lambda>it.
         help_tester_loop rounds nums x flag it))))"

definition junk_iterator :: BsearchIterator where
  "junk_iterator = \<lparr>status = BSEARCH_DONE_FOUND, left_idx = 7, right_idx = 7, pivot_idx = 7, pivot_offset = 7\<rparr>"

definition odd_even_help_tester :: "int list \<Rightarrow> int \<Rightarrow> int \<Rightarrow> int \<Rightarrow> unit result" where
  "odd_even_help_tester nums x expected flag =
     r_bind (bsearch_iter_init (Some junk_iterator) 0 (int (length nums) - 1)) (\<lambda>(result, it).
     r_bind (r_assert (result = ERR_NONE)) (\<lambda>_.
     r_bind (help_tester_loop 33 nums x flag it) (\<lambda>(rounds, it).
     r_bind (r_assert (rounds \<noteq> 0)) (\<lambda>_.
     r_bind (bsearch_iter_status (Some it)) (\<lambda>st.
     r_bind (r_assert (st = BSEARCH_DONE_FOUND)) (\<lambda>_.
     r_bind (bsearch_iter_get_found_index (Some it)) (\<lambda>i. r_assert (i = expected))))))))"

definition not_found_help_tester :: "int list \<Rightarrow> int \<Rightarrow> int \<Rightarrow> unit result" where
  "not_found_help_tester nums x flag =
     r_bind (bsearch_iter_init (Some junk_iterator) 0 (int (length nums) - 1)) (\<lambda>(result, it).
     r_bind (r_assert (result = ERR_NONE)) (\<lambda>_.
     r_bind (help_tester_loop 33 nums x flag it) (\<lambda>(rounds, it).
     r_bind (r_assert (rounds \<noteq> 0)) (\<lambda>_.
     r_bind (bsearch_iter_status (Some it)) (\<lambda>st. r_assert (st = BSEARCH_DONE_NOT_FOUND))))))"

text \<open>The tests with elements that cannot be read, as the file has them.\<close>

lemma test_bsearch_value_at_end_with_corruption:
  "odd_even_help_tester [255, 255, 255, 255, 255, 255, 255, 255, 255, 255, 255, 11] 11 11 255 = Inr ()"
  by code_simp

lemma test_bsearch_value_at_start_with_corruption:
  "odd_even_help_tester [11, 255, 255, 255, 255, 255, 255, 255, 255, 255, 255, 12] 11 0 255 = Inr ()"
  by code_simp

lemma test_bsearch_value_in_mid_odd_with_corruption:
  "odd_even_help_tester [0, 255, 255, 7, 255, 255, 255, 255, 255, 255, 255, 11] 7 3 255 = Inr ()"
  by code_simp

lemma test_bsearch_value_in_mid_even_with_corruption:
  "odd_even_help_tester [0, 255, 255, 255, 255, 255, 255, 255, 8, 255, 255, 11] 8 8 255 = Inr ()"
  by code_simp

lemma test_bsearch_value_in_mid_even_with_corruption2:
  "odd_even_help_tester [0, 255, 255, 255, 255, 255, 3, 255, 8, 255, 255, 11] 8 8 255 = Inr ()"
  by code_simp

lemma test_bsearch_full_corruption:
  "not_found_help_tester [255, 255, 255, 255, 255, 255, 255, 255, 255, 255, 255, 255] 23 255 = Inr ()"
  by code_simp

lemma test_bsearch_value_not_present:
  "not_found_help_tester [0, 1, 2, 3, 4, 5, 6, 7, 8, 9, 10, 11] 23 255 = Inr ()"
  by code_simp

section \<open>Running a state machine\<close>

text \<open>
  The mock of \<open>tests/mock_fsm.c\<close>: each function has a queue of the values it will return, and its calls are recorded
  with the context and the event they are given. The pointer to the machine, which the mock compares with that of the
  machine under test, is the machine itself in the model. A function whose queue is empty fails the test.
\<close>

record mock_state =
  will_return :: "ptr \<Rightarrow> size_t list"
  calls_made :: "(ptr \<times> ptr \<times> ptr option) list"
  mock_failed :: bool

definition mock_call :: "ptr \<Rightarrow> ptr option \<Rightarrow> ptr \<Rightarrow> mock_state \<Rightarrow> size_t \<times> mock_state" where
  "mock_call h event ctx m =
     (let m' = m\<lparr>calls_made := calls_made m @ [(h, ctx, event)]\<rparr> in
      case will_return m h of
        [] \<Rightarrow> (0, m'\<lparr>mock_failed := True\<rparr>)
      | r # rs \<Rightarrow> (r, m'\<lparr>will_return := (will_return m)(h := rs)\<rparr>))"

definition mock_fsm :: "mock_state handlers" where
  "mock_fsm =
     \<lparr>run_entry_exit = (\<lambda>h ctx (f, m). case mock_call h None ctx m of (r, m') \<Rightarrow> (r, f, m')),
      run_event = (\<lambda>h ev ctx (f, m). case mock_call h (Some ev) ctx m of (r, m') \<Rightarrow> (r, f, m'))\<rparr>"

text \<open>The three states, with the addresses of their handlers, and the configuration of the tests.\<close>

definition mock_delegates :: "SimpleFSMStateDelegates list" where
  "mock_delegates =
     [\<lparr>on_entry_handler = 11, on_event_handler = 12, on_exit_handler = 13\<rparr>,
      \<lparr>on_entry_handler = 21, on_event_handler = 22, on_exit_handler = 23\<rparr>,
      \<lparr>on_entry_handler = 31, on_event_handler = 32, on_exit_handler = 33\<rparr>]"

definition mock_config :: "size_t \<Rightarrow> size_t \<Rightarrow> SimpleFSMConfig" where
  "mock_config initial limit =
     \<lparr>fsm_context = 305419896, state_delegates = Some mock_delegates, state_count = 3,
      initial_state = initial, max_transition_count = limit\<rparr>"

text \<open>
  A test: initialise, make the calls, and compare the codes, the final state and the calls of the mock, in order. All
  values that were prepared have to be used.
\<close>

definition fsm_test ::
    "SimpleFSMConfig \<Rightarrow> (ptr \<times> size_t list) list \<Rightarrow> fsm_op list
     \<Rightarrow> (ErrorCodes list \<times> size_t \<times> (ptr \<times> ptr \<times> ptr option) list) result" where
  "fsm_test c prepared ops =
     r_bind (simple_fsm_init (Some \<lparr>started = True, config = c, state = 7, loop_count = 7\<rparr>) (Some c)) (\<lambda>(ret, f).
     r_bind (r_assert (ret = ERR_NONE)) (\<lambda>_.
     r_bind (fsm_history mock_fsm ops
       (f, \<lparr>will_return = (\<lambda>h. case map_of prepared h of None \<Rightarrow> [] | Some rs \<Rightarrow> rs), calls_made = [],
            mock_failed = False\<rparr>)) (\<lambda>(es, f, m).
     r_bind (r_assert (\<not> mock_failed m \<and> list_all (\<lambda>(h, _). will_return m h = []) prepared)) (\<lambda>_.
     r_bind (simple_fsm_get_current_state (Some f)) (\<lambda>s. Inr (es, s, calls_made m))))))"

abbreviation (input) called_with_context :: "ptr list \<Rightarrow> (ptr \<times> ptr \<times> ptr option) list" where
  "called_with_context hs \<equiv> map (\<lambda>h. (h, 305419896, None)) hs"

lemma test_not_started_state_machine:
  "fsm_test (mock_config 0 100) [(11, [0]), (13, [0])] [Op_start, Op_start, Op_force_stop, Op_force_stop, Op_event 1]
    = Inr ([ERR_NONE, ERR_NOOP, ERR_NONE, ERR_NOOP, ERR_NOT_INITIALISED], 0, called_with_context [11, 13])"
  by code_simp

lemma test_start_bad_fsm_def:
  "fsm_test (mock_config 0 100) [(11, [3]), (13, [0])]
      [Op_start]
    = Inr ([ERR_OUT_OF_BOUNDS], 0,
        called_with_context [11, 13])"
  by code_simp

lemma test_simple_start:
  "fsm_test (mock_config 0 100) [(11, [0])]
      [Op_start]
    = Inr ([ERR_NONE], 0,
        called_with_context [11])"
  by code_simp

lemma test_start_out_of_bounds_checking:
  "fsm_test (mock_config 0 100) [(11, [3]), (13, [3])]
      [Op_start]
    = Inr ([ERR_OUT_OF_BOUNDS], 0,
        called_with_context [11, 13])"
  by code_simp

lemma test_on_event_out_of_bounds_checking:
  "fsm_test (mock_config 0 100) [(11, [0]), (12, [3]), (13, [0])]
      [Op_start, Op_event 3735928559]
    = Inr ([ERR_NONE, ERR_OUT_OF_BOUNDS], 0,
        called_with_context [11] @ [(12, 305419896, Some 3735928559)] @ called_with_context [13])"
  by code_simp

lemma test_simple_start_transitions:
  "fsm_test (mock_config 0 100) [(11, [1]), (13, [0]), (21, [2]), (23, [1]), (31, [2])]
      [Op_start]
    = Inr ([ERR_NONE], 2,
        called_with_context [11, 13, 21, 23, 31])"
  by code_simp

lemma test_looped_start:
  "fsm_test (mock_config 0 10) [(11, replicate 6 1), (13, replicate 5 0), (21, replicate 5 0), (23, replicate 5 1)]
      [Op_start]
    = Inr ([ERR_TIMEOUT], 0,
        called_with_context [11, 13, 21, 23, 11, 13, 21, 23, 11, 13, 21, 23, 11, 13, 21, 23, 11, 13, 21, 23, 11])"
  by code_simp

lemma test_on_event_transitions:
  "fsm_test (mock_config 0 100) [(11, [0]), (12, [2]), (13, [0]), (31, [2])]
      [Op_start, Op_event 5]
    = Inr ([ERR_NONE, ERR_NONE], 2,
        called_with_context [11] @ [(12, 305419896, Some 5)] @ called_with_context [13, 31])"
  by code_simp

lemma test_looped_transitions:
  "fsm_test (mock_config 1 11) [(21, [1]), (22, [0]), (23, [1]), (11, replicate 6 2), (13, replicate 5 0), (31, replicate 5 0), (33, replicate 5 2)]
      [Op_start, Op_event 5]
    = Inr ([ERR_NONE, ERR_TIMEOUT], 0,
        called_with_context [21] @ [(22, 305419896, Some 5)] @ called_with_context [23, 11, 13, 31, 33, 11, 13, 31, 33, 11, 13, 31, 33, 11, 13, 31, 33, 11, 13, 31, 33, 11])"
  by code_simp

lemma test_event_stays_same_state:
  "fsm_test (mock_config 2 100) [(31, [2]), (32, [2])]
      [Op_start, Op_event 5]
    = Inr ([ERR_NONE, ERR_NONE], 2,
        called_with_context [31] @ [(32, 305419896, Some 5)])"
  by code_simp

lemma test_force_stop_passes_through:
  "fsm_test (mock_config 2 100) [(31, [2]), (33, [2])]
      [Op_start, Op_force_stop]
    = Inr ([ERR_NONE, ERR_NONE], 2,
        called_with_context [31, 33])"
  by code_simp

lemma test_force_stop_returns_error_if_state_fails_transition:
  "fsm_test (mock_config 2 100) [(31, [2]), (33, [0])]
      [Op_start, Op_force_stop]
    = Inr ([ERR_NONE, ERR_INCOMPLETE], 2,
        called_with_context [31, 33])"
  by code_simp

section \<open>Filling and draining a heap\<close>

text \<open>
  The helper \<open>test_max_heap_test_scaffold\<close>: after every push the largest value so far is on top, the heap that is full
  refuses, the values come out from the largest to the smallest, and the numbers of items and of free places are right.
\<close>

definition HEAP_ITEM_COUNT :: nat where
  "HEAP_ITEM_COUNT = 10"

text \<open>The loops, with the number of rounds that are left; a value is read from the array of the test.\<close>

fun scaffold_pushes :: "nat \<Rightarrow> size_t \<Rightarrow> ptr list \<Rightarrow> ptr \<Rightarrow> BoundedHeap \<Rightarrow> (ptr \<times> BoundedHeap) result" where
  "scaffold_pushes 0 idx values compare_check heap = Inr (compare_check, heap)"
| "scaffold_pushes (Suc n) idx values compare_check heap =
     r_bind (arr_get (Some values) idx) (\<lambda>v.
     r_bind (bounded_heap_push (Some heap) v) (\<lambda>(ret, heap).
     r_bind (r_assert (ret = ERR_NONE)) (\<lambda>_.
     r_bind (bounded_heap_peek (Some heap) (Some 0)) (\<lambda>(ret, peeked).
     r_bind (r_assert (ret = ERR_NONE)) (\<lambda>_.
     r_bind (deref peeked) (\<lambda>peek_value.
     r_bind (r_assert (peek_value \<ge> compare_check)) (\<lambda>_.
     r_bind (bounded_heap_get_size (Some heap)) (\<lambda>heap_count.
     r_bind (r_assert (heap_count = idx + 1)) (\<lambda>_.
     scaffold_pushes n (idx + 1) values peek_value heap)))))))))"

fun scaffold_pops :: "nat \<Rightarrow> size_t \<Rightarrow> ptr \<Rightarrow> BoundedHeap \<Rightarrow> BoundedHeap result" where
  "scaffold_pops 0 idx compare_check heap = Inr heap"
| "scaffold_pops (Suc n) idx compare_check heap =
     r_bind (bounded_heap_pop (Some heap) (Some 0)) (\<lambda>(ret, heap, pop_value).
     r_bind (r_assert (ret = ERR_NONE)) (\<lambda>_.
     r_bind (r_assert (pop_value \<le> compare_check)) (\<lambda>_.
     r_bind (bounded_heap_get_remaining (Some heap)) (\<lambda>heap_remaining.
     r_bind (r_assert (heap_remaining = idx + 1)) (\<lambda>_.
     scaffold_pops n (idx + 1) pop_value heap)))))"

definition max_heap_test_scaffold :: "ptr list \<Rightarrow> ptr list \<Rightarrow> ptr \<Rightarrow> size_t \<Rightarrow> unit result" where
  "max_heap_test_scaffold values storage min_value item_count =
     (let cfg = \<lparr>heap_storage = Some storage, element_count = item_count, compare = Some max_heap_compare\<rparr>;
          junk = \<lparr>BoundedHeap.config = cfg, items_in_heap = 7, heap_max_size = 7\<rparr> in
      r_bind (bounded_heap_init (Some junk) (Some cfg)) (\<lambda>(ret, heap).
      r_bind (r_assert (ret = ERR_NONE)) (\<lambda>_.
      r_bind (bounded_heap_peek (Some heap) (Some 0)) (\<lambda>(ret, _).
      r_bind (r_assert (ret = ERR_EMPTY)) (\<lambda>_.
      r_bind (scaffold_pushes HEAP_ITEM_COUNT 0 values min_value heap) (\<lambda>(compare_check, heap).
      r_bind (bounded_heap_push (Some heap) 3735928559) (\<lambda>(ret, heap).
      r_bind (r_assert (ret = ERR_NO_MEM)) (\<lambda>_.
      r_bind (scaffold_pops HEAP_ITEM_COUNT 0 compare_check heap) (\<lambda>heap.
      r_bind (bounded_heap_pop (Some heap) (Some 0)) (\<lambda>(ret, _).
      r_assert (ret = ERR_EMPTY)))))))))))"

text \<open>The three tests that call it; the storage is not initialised by them.\<close>

lemma test_ascending_max_heap:
  "max_heap_test_scaffold [0, 1, 2, 3, 4, 5, 6, 7, 8, 9] (replicate 10 7) 0 10 = Inr ()"
  by code_simp

lemma test_descending_max_heap:
  "max_heap_test_scaffold [9, 8, 7, 6, 5, 4, 3, 2, 1, 0] (replicate 10 7) 0 10 = Inr ()"
  by code_simp

lemma test_random_order_max_heap:
  "max_heap_test_scaffold [1230, 5, 99, 3, 0, 6, 22, 0, 5, 5] (replicate 10 7) 0 10 = Inr ()"
  by code_simp

text \<open>The same helper fails when the last two values of the descending test change places, which no test tries.\<close>

lemma scaffold_fails_on_swapped_values:
  "max_heap_test_scaffold [9, 8, 7, 6, 5, 4, 3, 2, 0, 1] (replicate 10 7) 0 10 = Inl Assertion_failed"
  by code_simp

section \<open>The helper of the search tests on all arrays\<close>

text \<open>The readable elements of an array.\<close>

definition array_table :: "int list \<Rightarrow> int \<Rightarrow> int \<Rightarrow> int option" where
  "array_table nums flag i = (if nums ! nat i = flag then None else Some (nums ! nat i))"

lemma test_answer_table: "test_answer nums x flag = table_answer (array_table nums flag) x"
  by (auto simp: fun_eq_iff test_answer_def table_answer_def array_table_def)

text \<open>A helper loop that gets to the end of the search makes the search of the documented loop.\<close>

lemma help_tester_loop_drives:
  "help_tester_loop k nums x flag it = Inr (rounds, it') \<Longrightarrow> rounds \<noteq> 0 \<Longrightarrow>
    search_table (array_table nums flag) x it = Inr it'"
proof (induction k arbitrary: it)
  case (Suc k)
  show ?case
  proof (cases "status it = BSEARCH_CONTINUE")
    case True
    then show ?thesis
      using Suc by (auto simp: search_table_def drive.simps [of _ _ _ _ it] bsearch_iter_status_def test_answer_table)
  next
    case False
    then have "it' = it" using Suc.prems(1) by (simp add: bsearch_iter_status_def)
    then show ?thesis
      using False by (simp add: search_table_def drive.simps [of _ _ _ _ it] bsearch_iter_status_def)
  qed
qed simp

text \<open>When every element can be read, the rounds that are needed are at most the logarithm of the window.\<close>

lemma help_tester_loop_ends:
  assumes "flag \<notin> set nums"
  shows "bs_inv it \<Longrightarrow> status it = BSEARCH_CONTINUE \<Longrightarrow> pivot_offset it = 0 \<Longrightarrow>
    bs_live it \<subseteq> {0..<int (length nums)} \<Longrightarrow> window it < 2 ^ m \<Longrightarrow>
    \<exists>rounds it'. help_tester_loop (m + Suc spare) nums x flag it = Inr (rounds, it') \<and> rounds \<noteq> 0"
proof (induction m arbitrary: it)
  case 0
  then show ?case using bs_window [OF "0.prems"(1,2)] by (simp add: window_def)
next
  case (Suc m)
  have st: "bsearch_iter_status (Some it) = Inr BSEARCH_CONTINUE"
    using Suc.prems(2) by (simp add: bsearch_iter_status_def)
  obtain i where i: "bsearch_iter_get_check_index (Some it) = Inr i" "0 \<le> i" "i < int (length nums)"
    using bs.check_live [OF Suc.prems(1) st] Suc.prems(4) by auto
  define n where "n = test_answer nums x flag i"
  define K where "K = m + Suc spare"
  have "n \<noteq> BSEARCH_NOTIFY_ERR_SKIP"
    using assms i(2,3) nth_mem [of "nat i" nums] by (auto simp: n_def test_answer_def)
  then have n: "n = BSEARCH_NOTIFY_EQ \<or> n \<in> {BSEARCH_NOTIFY_LEFT, BSEARCH_NOTIFY_RIGHT}"
    by (auto simp: n_def test_answer_def)
  have step: "help_tester_loop (Suc m + Suc spare) nums x flag it
      = r_bind (bsearch_iter_notify (Some it) n) (help_tester_loop K nums x flag)"
    using i st by (simp add: K_def n_def)
  obtain it' where it': "bsearch_iter_notify (Some it) n = Inr it'" "bs_inv it'" "bs_live it' \<subseteq> bs_live it"
    using notify_all_safe [OF Suc.prems(1), of "[n]"] by auto
  show ?case
  proof (cases "status it' = BSEARCH_CONTINUE")
    case False
    then have "help_tester_loop K nums x flag it' = Inr (K, it')"
      by (simp add: K_def bsearch_iter_status_def)
    moreover have "K \<noteq> 0" by (simp add: K_def)
    ultimately show ?thesis unfolding step using it'(1) by simp
  next
    case True
    then have "n \<noteq> BSEARCH_NOTIFY_EQ" using it'(1) Suc.prems(2) by (auto simp: bsearch_iter_notify_def)
    then have "n \<in> {BSEARCH_NOTIFY_LEFT, BSEARCH_NOTIFY_RIGHT}" using n by blast
    then have "pivot_offset it' = 0" "2 * window it' \<le> window it"
      using notify_halves [OF Suc.prems(1-3)] it'(1) True by fastforce+
    then show ?thesis
      unfolding step using it' Suc.IH [OF it'(2) True] Suc.prems(4,5) by (auto simp: K_def)
  qed
qed

lemma sorted_array_table:
  assumes "sorted nums" and "hi < int (length nums)"
  shows "table_sorted (array_table nums flag) 0 hi"
  using assms sorted_nth_mono [OF assms(1)]
  by (auto simp: table_sorted_def array_table_def nat_less_iff split: if_splits)

section \<open>Properties\<close>

text \<open>
  C21. The assertions of the search tests hold for every array, not only for those of the tests. For every sorted
  array of distinct readable elements, of two elements or more and fewer than \<open>2 ^ 31\<close>, the loop asks only for
  indices of the array and is over after at most 32 rounds, an element is found at its index, and a number that
  is not in the array is not found.
\<close>

theorem search_tests_pass:
  assumes "sorted nums" and "distinct nums" and "flag \<notin> set nums"
    and "2 \<le> length nums" and "int (length nums) < 2 ^ 31"
  shows "(\<forall>i < length nums. odd_even_help_tester nums (nums ! i) (int i) flag = Inr ())
    \<and> (x \<notin> set nums \<longrightarrow> not_found_help_tester nums x flag = Inr ())"
proof -
  let ?hi = "int (length nums) - 1" and ?tab = "array_table nums flag"
  have range: "0 < ?hi" "index_range_ok 0 ?hi" using assms(4,5) by (simp_all add: index_range_ok_def)
  define it where "it = junk_iterator\<lparr>status := BSEARCH_CONTINUE, left_idx := 0, right_idx := ?hi,
    pivot_idx := ?hi div 2, pivot_offset := 0\<rparr>"
  have init: "bsearch_iter_init (Some junk_iterator) 0 ?hi = Inr (ERR_NONE, it)"
    using range(1) midpoint_safe [OF range(2) less_imp_le [OF range(1)]] by (simp add: bsearch_iter_init_def it_def)
  have it: "bs_inv it" "bs_live it = {0..?hi}" "status it = BSEARCH_CONTINUE" "pivot_offset it = 0"
      "window it < 2 ^ 31"
    using bsearch_iter_init_state [OF range, of junk_iterator] init assms(5)
    by (auto simp: it_def window_def bsearch_iter_status_def)
  have live: "bs_live it \<subseteq> {0..<int (length nums)}" unfolding it(2) by auto
  have found: "\<exists>rounds it'. help_tester_loop 33 nums y flag it = Inr (rounds, it') \<and> rounds \<noteq> 0
      \<and> (if \<exists>i \<in> {0..?hi}. ?tab i = Some y
         then \<exists>i \<in> {0..?hi}. ?tab i = Some y \<and> status it' = BSEARCH_DONE_FOUND
                \<and> bsearch_iter_get_found_index (Some it') = Inr i
         else status it' = BSEARCH_DONE_NOT_FOUND)" for y
  proof -
    obtain rounds it' where "help_tester_loop (31 + Suc 1) nums y flag it = Inr (rounds, it')" "rounds \<noteq> 0"
      using help_tester_loop_ends [OF assms(3) it(1,3,4) live it(5), of 1 y] by blast
    then show ?thesis
      using help_tester_loop_drives [of 33 nums y flag it rounds it']
        search_table_result [OF range sorted_array_table [OF assms(1)] init, of flag y]
      by (auto split: if_splits)
  qed
  have cells: "?tab (int i) = Some (nums ! i)" if "i < length nums" for i
    using assms(3) that nth_mem [OF that] by (auto simp: array_table_def)
  have at: "?tab j = Some (nums ! i) \<longleftrightarrow> j = int i" if "i < length nums" "j \<in> {0..?hi}" for i j
    using that assms(2) cells [OF that(1)] nth_eq_iff_index_eq [OF assms(2), of "nat j" i]
    by (auto simp: array_table_def split: if_splits)
  show ?thesis
  proof (intro conjI allI impI)
    fix i assume i: "i < length nums"
    then have "\<exists>j \<in> {0..?hi}. ?tab j = Some (nums ! i)" using cells by (intro bexI [of _ "int i"]) auto
    then obtain rounds it' where "help_tester_loop 33 nums (nums ! i) flag it = Inr (rounds, it')" "rounds \<noteq> 0"
        "status it' = BSEARCH_DONE_FOUND" "bsearch_iter_get_found_index (Some it') = Inr (int i)"
      using found [of "nums ! i"] at [OF i] by auto
    then show "odd_even_help_tester nums (nums ! i) (int i) flag = Inr ()"
      by (simp add: odd_even_help_tester_def init bsearch_iter_status_def del: help_tester_loop.simps)
  next
    assume x: "x \<notin> set nums"
    have "?tab j \<noteq> Some x" if "j \<in> {0..?hi}" for j
      using that x nth_mem [of "nat j" nums] by (auto simp: array_table_def)
    then obtain rounds it' where "help_tester_loop 33 nums x flag it = Inr (rounds, it')" "rounds \<noteq> 0"
        "status it' = BSEARCH_DONE_NOT_FOUND"
      using found [of x] by auto
    then show "not_found_help_tester nums x flag = Inr ()"
      by (simp add: not_found_help_tester_def init bsearch_iter_status_def del: help_tester_loop.simps)
  qed
qed

text \<open>The arrays of the tests.\<close>

theorem search_tests_pass_witness:
  "odd_even_help_tester [0, 1, 2, 3, 4, 5, 6, 7, 8, 9, 10, 11, 12] 3 3 255 = Inr ()
    \<and> not_found_help_tester [0, 1, 2, 3, 4, 5, 6, 7, 8, 9, 10, 11, 12] 23 255 = Inr ()"
proof -
  define nums :: "int list" where "nums = [0, 1, 2, 3, 4, 5, 6, 7, 8, 9, 10, 11, 12]"
  have len: "length nums = 13" by (simp add: nums_def)
  have "sorted nums" "distinct nums" "255 \<notin> set nums" "23 \<notin> set nums" by (simp_all add: nums_def)
  then have "(\<forall>i < length nums. odd_even_help_tester nums (nums ! i) (int i) 255 = Inr ())
      \<and> not_found_help_tester nums 23 255 = Inr ()"
    using search_tests_pass [of nums 255 23] by (simp add: len)
  then have "odd_even_help_tester nums (nums ! 3) (int 3) 255 = Inr () \<and> not_found_help_tester nums 23 255 = Inr ()"
    by (auto simp: len dest!: spec [of _ 3])
  moreover have "nums ! 3 = 3" "int 3 = 3" by (simp_all add: nums_def eval_nat_numeral)
  ultimately show ?thesis unfolding nums_def [symmetric] by metis
qed

end
