(* ===== verification/Spec2Isabelle.thy ===== *)
theory Spec2Isabelle
  imports Spsc_Overrun Spsc_Watermark Heap_Drain Pool_Client Message_Decoder Published_Machines
    Header_Contracts Bit_Ops Unit_Tests
begin

text \<open>
  A verification of c-embedded-utils, a C library of small components for embedded programs. This is
  the root of the development: it imports every component theory and holds the properties that span
  components. The paths below are those of the repository.

  \<^bold>\<open>The program.\<close> The library has no main program; an application owns the storage and calls the
  functions. Its parts and how they use each other:
    \<^item> collections: \<open>ptr_stack\<close>, \<open>circular_buffer\<close>, \<open>fast_circular_buffer\<close> (which asks
      \<open>numeric_ops_is_power_2_sz\<close> about its size), \<open>copy_queue\<close>, \<open>bounded_heap\<close> (which calls a
      comparison of the application);
    \<^item> mem_alloc: \<open>static_pool\<close>, a block allocator that keeps its free blocks on a \<open>ptr_stack\<close>, and
      \<open>i_pool_allocator\<close>, an interface of function pointers that \<open>static_pool_as_i_pool_allocator\<close> fills;
    \<^item> operations: \<open>bit_ops\<close>, \<open>numeric_ops\<close>;
    \<^item> struct_pack: \<open>pack\<close>, \<open>le_pack\<close>, serialisation into a byte buffer;
    \<^item> search_algos: \<open>bsearch_iter\<close>, a binary search driven by its caller;
    \<^item> events: \<open>static_event_publisher\<close>, which calls the callbacks of the application;
    \<^item> simple_fsm: a state machine runner, which calls the handlers of the application.

  \<^bold>\<open>Modelling.\<close> \<open>Prelude\<close> fixes the C types of a 64-bit gcc host (the repository builds in a gcc
  container) and a result type: a call either returns its values or ends in a fault, namely a failed
  \<open>assert\<close> (assertions are compiled in), an access through NULL, an access outside an array, a signed
  operation the language leaves undefined, or a loop without end. A pointer that the code dereferences is
  an option (None is NULL) of what it points to; an array is the list of its cells; a pointer that
  is only stored and handed back is its address. A function that modifies a struct returns the
  struct after the call; an out-parameter is passed as the old value of the caller's variable
  and returned with the new one. Sizes and indices are 64-bit words that wrap; the search indices,
  which are signed, are integers checked against their range at every operation. Structs are records
  and enumerations datatypes with the names of the source. The result codes are ordered by their values.

  \<^bold>\<open>Theories.\<close> Each component theory has the model first, function by function, then an invariant and
  an abstraction, then the proofs; its properties are the theorems at its end.
    \<^item> \<open>Prelude\<close>, \<open>Error_Codes\<close> (\<open>include/cemb/error_codes.h\<close>): types, faults, arrays, loops over an index.
    \<^item> \<open>Ptr_Stack\<close>: \<open>src/collections/ptr_stack.c\<close>. Contract \<open>bounded_stack\<close>: last in, first out.
    \<^item> \<open>Ring_Spec\<close>: the abstract overwriting queue and the contract \<open>overwrite_ring\<close>; a session of pushes
      and pops on an implementation of the contract gives the replies of the abstract queue.
      \<open>Circular_Buffer\<close> and \<open>Fast_Circular_Buffer\<close> (\<open>src/collections/\<close>) are its two implementations; the second
      rests on \<open>Numeric_Ops\<close> (\<open>src/operations/numeric_ops.c\<close>), because the mask is the remainder only for
      powers of two.
    \<^item> \<open>Spsc_Fast_Buffer\<close>: the fast circular buffer shared by a producer and a consumer. The bodies of push and
      pop are cut at every load and store of what the calls change, and a schedule interleaves them. When
      the producer pushes only where it has found room, every schedule gives a first-in first-out queue,
      every call takes effect at one of its own steps, and every fair schedule delivers every byte; without
      interruption the steps are the functions, and ten steps are enough for a call. \<open>Spsc_Overrun\<close>: without this
      discipline a push into a full buffer overruns a pop that is under way (\<open>overrun_pop_out_of_turn\<close>).
    \<^item> \<open>Spsc_Circular_Buffer\<close>: the same cut of the circular buffer, with one call interrupted by a whole call of
      the other side; the flag \<open>buffer_is_empty\<close>, which both sides store, loses the effect of the interrupt. A call
      has at most sixteen steps, and twenty are allowed for it. \<open>Spsc_Watermark\<close>: with two cells free before a
      push and two bytes held before a pop the indices never meet, the flag does not matter, and every
      schedule gives a first-in first-out queue.
    \<^item> \<open>Copy_Queue\<close>: \<open>src/collections/copy_queue.c\<close>. Contract \<open>fifo_queue\<close>: first in, first out, for the
      enqueues that still find room behind the last element; a session of calls gives the replies of
      an abstract queue that counts the elements ever put in.
    \<^item> \<open>Bounded_Heap\<close>: \<open>src/collections/bounded_heap.c\<close>. Contract \<open>bounded_bag\<close>: pointers come out as they went
      in, as a multiset; \<open>heap_compare\<close> is what the order needs of the comparison. The repair loop is
      a partial function, shown to return on every heap; the array is assumed shorter than \<open>2 ^ 61\<close>
      slots, which an array of pointers in a 64-bit address space is. \<open>Heap_Drain\<close>: how far the order of a priority
      queue holds although the repair after a pop is incomplete, also when pushes into a full heap are refused in between;
      contract \<open>draining_bag\<close>.
    \<^item> \<open>I_Pool_Allocator\<close>, \<open>Static_Pool\<close>: \<open>src/mem_alloc/\<close>. Contract \<open>pool_allocator\<close>, met by the pool directly
      and through the interface; the functions behind the interface act on a store of pools by
      address, since the pool is shared with whoever holds its address. \<open>Pool_Client\<close> runs a client that keeps the
      blocks it is given in variables and releases them: blocks held and blocks free are always those of
      the pool, each once.
    \<^item> \<open>Bit_Ops\<close>: \<open>src/operations/bit_ops.c\<close>; the count is proved by evaluating one byte in all its values
      and showing that the steps do not carry between bytes.
    \<^item> \<open>Byte_Codec\<close>, \<open>Le_Pack\<close>: \<open>src/struct_pack/\<close>. Contract \<open>codec\<close>: what is written is read back, nothing else is
      touched. The signed readers take the C dialect as a parameter, because ISO C leaves a left
      shift into the sign bit undefined and GNU C defines it. \<open>Pack_Message\<close> packs a sequence of fields of mixed
      types through the common signatures \<open>PackSerialiseFunction_t\<close> and \<open>PackDeserialiseFunction_t\<close> of \<open>include/cemb/pack.h\<close>.
      \<open>Le_Canonical\<close>: contract \<open>exact_codec\<close>, every sequence of bytes stands for a value, and the signed readers in
      ISO C. \<open>Message_Decoder\<close>: messages read from arbitrary bytes in the GNU C dialect, field by field.
    \<^item> \<open>Bsearch_Iter\<close>: \<open>src/search_algos/bsearch_iter.c\<close>. Contract \<open>index_search\<close>: a search on the set of the
      indices that can still match, each answer narrowing it. The caller's loop of the header
      comment is a partial function, shown to end.
    \<^item> \<open>Static_Event_Publisher\<close>: \<open>src/events/static_event_publisher.c\<close>, with callbacks that leave the publisher
      alone and with callbacks that use it; the calls of a notification are an inductive predicate, and are determined
      by the publisher and its callbacks. \<open>Published_Machines\<close>: a publisher whose subscribers are state machines.
    \<^item> \<open>Simple_Fsm\<close>: \<open>src/simple_fsm/simple_fsm.c\<close>; a reference runner, the path of a run, and the states reachable
      by any history of calls as an inductive predicate. \<open>Simple_Fsm_Runs\<close>: handlers that call back into
      the machine, and handlers that settle, for which an event always ends with \<open>ERR_NONE\<close>. \<open>Fsm_Brackets\<close>: a monitor
      of the handler calls for the order that \<open>include/cemb/simple_fsm.h\<close> guarantees, and the histories that keep to it.
    \<^item> \<open>Header_Contracts\<close>: the code that the comments of the headers under \<open>include/cemb/\<close> document for a call, from what the
      structure holds and what the handlers request, for initialisation, the collections, the pool and the machine; that the code returns
      exactly it, without a fault, and changes nothing when it refuses; what the search is documented to do; and
      what the deinitialised collections, publisher and search do.
    \<^item> \<open>Unit_Tests\<close>: the helpers and mocks of the search, machine and heap tests under \<open>tests/\<close>, and these tests replayed
      on the model; the helper of the search tests passes on every sorted array of two elements or more. Its loop has the
      33 rounds of the test. The helper of the heap tests fails on an order of values that the tests do not try.

  \<^bold>\<open>Parameters.\<close> Code of the application is a parameter: the heap's comparison, the publisher's callbacks,
  the machine's handlers, the search's answers. Hypotheses about it are named (\<open>heap_compare\<close>,
  \<open>leaves_publisher\<close>, \<open>respects_publisher\<close>, \<open>forwards\<close>, \<open>leaves_fsm\<close>, \<open>respects_fsm\<close>, \<open>table_sorted\<close>) and each is shown to hold for a concrete function where a
  theorem uses it.

  \<^bold>\<open>Not modelled.\<close> Sharing beyond one producer and one consumer, and reordering: the accesses of a side are
  taken to happen in program order and to be seen at once by the other side, which holds between an interrupt
  handler and the code it interrupts when the compiler keeps the order of the accesses. Aliasing: an element pointer
  into the buffer it is packed into, and overlapping arguments of \<open>memcpy\<close>. The allocator interface of an implementation other
  than the static pool. The test runner and the remaining unit tests, which check single calls that the theorems
  cover for all arguments; the build files and the generated documentation.

  \<^bold>\<open>Findings.\<close> Theorems about behaviour that differs from what the library documents: the heap's pop leaves a
  node with one child unrepaired (\<open>bounded_heap_pop_out_of_order\<close>; \<open>bounded_heap_drain_sorted\<close> says that only the
  last two of a drain are concerned), the copy queue writes past its buffer when
  it is reused (\<open>copy_queue_reuse_overruns\<close>) and accepts a size that wraps (\<open>copy_queue_accepts_wrapped_size\<close>),
  the pool accepts a configuration without objects (\<open>static_pool_init_without_objects\<close>), miscounts after
  deinitialisation (\<open>static_pool_deinit_count\<close>) and takes back pointers that are not its own
  (\<open>static_pool_accepts_foreign_pointer\<close>), the search overflows at the ends of its index type
  (\<open>bsearch_overflows_at_ends\<close>), the machine reports a timeout when it has settled
  (\<open>fsm_timeout_when_settled\<close>), goes on in a state it has left when an event asks for a state outside it
  (\<open>fsm_leaves_state_twice\<close>) and does not leave the state in which a start timed out
  (\<open>fsm_failed_start_stays_entered\<close>) and asserts on a NULL for which a code is documented (\<open>init_fsm_null_asserts\<close>),
  the circular buffer is not safe between an interrupt handler and the main
  loop (\<open>interrupted_push_phantom\<close>, \<open>interrupted_pop_loses_byte\<close>), and the signed readers are undefined in ISO C
  (\<open>signed_readers_in_iso_c\<close>).
\<close>

section \<open>The two circular buffers\<close>

text \<open>
  C15. For a size that both accept, the circular buffer and the fast circular buffer cannot be told
  apart by any session of pushes and pops: every call returns the same code and the same byte.
\<close>

theorem ring_buffers_agree:
  assumes "CircularBufferConfig.cfg_buffer c = Some xs"
    and "FastCircularBufferConfig.cfg_buffer d = Some ys"
    and "CircularBufferConfig.cfg_buffer_size c = n" and "FastCircularBufferConfig.cfg_buffer_size d = n"
    and "2 \<le> n" and "numeric_ops_is_power_2_sz n"
    and "unat n \<le> length xs" and "unat n \<le> length ys"
  shows "\<exists>b b' rs. circular_buffer_init (Some junk) (Some c) = Inr (ERR_NONE, b)
    \<and> fast_circular_buffer_init (Some junk') (Some d) = Inr (ERR_NONE, b')
    \<and> run_session (\<lambda>b. circular_buffer_push_byte (Some b))
        (\<lambda>b old. circular_buffer_pop_byte (Some b) (Some old)) b ops = Inr rs
    \<and> run_session (\<lambda>b. fast_circular_buffer_push_byte (Some b))
        (\<lambda>b old. fast_circular_buffer_pop_byte (Some b) (Some old)) b' ops = Inr rs"
proof -
  have "n \<noteq> 0" using assms(5) by (auto simp: word_le_nat_alt)
  then obtain b where "circular_buffer_init (Some junk) (Some c) = Inr (ERR_NONE, b)" "cb_inv b"
      "buffer_max_size b = n" "cb_contents b = []"
    using circular_buffer_init_state [of c xs junk] assms by auto
  moreover obtain b' where "fast_circular_buffer_init (Some junk') (Some d) = Inr (ERR_NONE, b')"
      "fcb_inv b'" "fcb_capacity b' = unat n" "fcb_contents b' = []"
    using fast_circular_buffer_init_state [of d ys junk'] assms by auto
  ultimately show ?thesis
    using cb.session_refines [of b ops] fcb.session_refines [of b' ops] by auto
qed

theorem ring_buffers_agree_witness:
  "\<exists>b b' rs. circular_buffer_init
      (Some \<lparr>CircularBuffer.buffer = None, buffer_max_size = 0, read_index = 0, write_index = 0,
        buffer_is_empty = False\<rparr>)
      (Some \<lparr>CircularBufferConfig.cfg_buffer = Some [0, 0], cfg_buffer_size = 2\<rparr>) = Inr (ERR_NONE, b)
    \<and> fast_circular_buffer_init
      (Some \<lparr>FastCircularBuffer.buffer = None, read_index = 0, write_index = 0, size_mask = 0\<rparr>)
      (Some \<lparr>FastCircularBufferConfig.cfg_buffer = Some [0, 0], cfg_buffer_size = 2\<rparr>) = Inr (ERR_NONE, b')
    \<and> run_session (\<lambda>b. circular_buffer_push_byte (Some b))
        (\<lambda>b old. circular_buffer_pop_byte (Some b) (Some old)) b [Push 1, Push 2, Push 3, Pop] = Inr rs
    \<and> run_session (\<lambda>b. fast_circular_buffer_push_byte (Some b))
        (\<lambda>b old. fast_circular_buffer_pop_byte (Some b) (Some old)) b' [Push 1, Push 2, Push 3, Pop]
        = Inr rs"
  by (rule ring_buffers_agree [where xs = "[0, 0]" and ys = "[0, 0]" and n = 2])
     (simp_all add: numeric_ops_is_power_2_sz_def)

section \<open>A message through a shared buffer\<close>

text \<open>
  C10. Fields packed into a message by the serialisers, sent byte by byte through a fast circular buffer that is
  empty at the start and that the sender shares with the receiver, and unpacked by the receiver are the fields that
  were sent, for every fair schedule of the two sides and every size of the buffer, also one smaller than the
  message. The sender waits for room before it starts a push, so that no byte is overwritten.
\<close>

theorem message_over_shared_buffer:
  assumes "fcb_inv b" and "fcb_contents b = []" and "fair sched"
    and "length (message_bytes vs) < 2 ^ 64" and "list_all2 same_type olds vs"
  defines "n \<equiv> word_of_nat (length (message_bytes vs))"
  shows "\<exists>ys k s. pack_message vs 0 (Some (replicate (length (message_bytes vs)) 0)) n = Inr (Some n, Some ys)
    \<and> spsc_at ord (spsc_start b ys) sched k = Inr s
    \<and> unpack_message olds 0 (Some (popped_bytes (replies s))) n = Inr (Some vs)"
proof -
  let ?xs = "replicate (length (message_bytes vs)) (0 :: uint8_t)"
  have n: "unat n = length (message_bytes vs)" using assms(4) by (simp add: n_def unat_of_nat)
  have pack: "pack_message vs 0 (Some ?xs) n = Inr (Some n, Some (message_bytes vs))"
    using pack_message_fits [of 0 vs n ?xs] n by (simp add: n_def splice_def)
  moreover obtain k s where "spsc_at ord (spsc_start b (message_bytes vs)) sched k = Inr s"
      "popped_bytes (replies s) = message_bytes vs"
    using spsc_reaches_all [OF assms(1,3), of ord "message_bytes vs"] assms(2) by auto
  moreover have "unpack_message olds 0 (Some (message_bytes vs)) n = Inr (Some vs)"
    using n by (intro unpack_message_fits [OF _ _ assms(5)]) simp_all
  ultimately show ?thesis by metis
qed

theorem message_over_shared_buffer_witness:
  "\<exists>ys k s. pack_message [V_u16 513, V_bool True] 0 (Some (replicate 3 0)) 3 = Inr (Some 3, Some ys)
    \<and> spsc_at Write_first (spsc_start two_cells ys) (\<lambda>k. if even k then Producer else Consumer) k = Inr s
    \<and> unpack_message [V_u16 0, V_bool False] 0 (Some (popped_bytes (replies s))) 3
        = Inr (Some [V_u16 513, V_bool True])"
proof -
  have n: "length (message_bytes [V_u16 513, V_bool True]) = 3" by (simp add: bool_bytes_def)
  show ?thesis
    using message_over_shared_buffer [OF two_cells_inv _ alternate_fair,
        of "[V_u16 513, V_bool True]" "[V_u16 0, V_bool False]" Write_first]
    unfolding n by simp
qed

end
